(* ===== verification/Prelude.thy ===== *)
theory Prelude
  imports Main "HOL-Library.Word" "HOL-Library.Monad_Syntax"
begin

text \<open>
  Shared vocabulary of the development: the machine types of \<^verbatim>\<open>types.h\<close> as words, the byte
  memory with its little-endian loads and stores, the option monad in which a C function that
  dereferences or indexes is written (\<open>None\<close> is undefined behaviour: a null dereference, an
  index past the end of an array, an over-wide shift, or a loop that never ends), and the
  lemma collections the component theories use.
\<close>

unbundle bit_operations_syntax

section \<open>Machine types\<close>

type_synonym u8 = "8 word"
type_synonym u16 = "16 word"
type_synonym u32 = "32 word"
type_synonym u64 = "64 word"

text \<open>An address (\<open>uintptr_t\<close>), byte memory, and a \<open>char *\<close> seen through its offsets.\<close>

type_synonym addr = u64
type_synonym mem = "addr \<Rightarrow> u8"
type_synonym cptr = "u64 \<Rightarrow> u8"

abbreviation NULL :: addr where "NULL \<equiv> 0"

named_theorems mem_simps \<open>loads after stores\<close>
named_theorems word_nat \<open>words read as natural numbers\<close>

text \<open>Guard of an operation that is undefined when its condition fails.\<close>

definition ensure :: "bool \<Rightarrow> unit option" where
  "ensure b = (if b then Some () else None)"

lemma ensure_True [simp]: "ensure True = Some ()"
  by (simp add: ensure_def)

lemma ensure_False [simp]: "ensure False = None"
  by (simp add: ensure_def)

lemma ensure_bind_Some [simp]:
  "(ensure b \<bind> f = Some r) \<longleftrightarrow> b \<and> f () = Some r"
  by (simp add: ensure_def)

section \<open>Words as natural numbers\<close>

lemma unat_less_64 [simp]: "unat (x :: u64) < 18446744073709551616"
  using unsigned_less [of x, where ?'a = nat] by simp

lemma unat_of_nat_64 [word_nat]:
  "n < 18446744073709551616 \<Longrightarrow> unat (of_nat n :: u64) = n"
  by (simp add: unat_of_nat take_bit_nat_eq_self)

lemma unat_add_64 [word_nat]:
  "unat x + unat y < 18446744073709551616 \<Longrightarrow> unat (x + y :: u64) = unat x + unat y"
  by (simp add: unat_word_ariths)

lemma unat_add_of_nat_64 [word_nat]:
  assumes "unat x + n < 18446744073709551616"
  shows "unat (x + of_nat n :: u64) = unat x + n"
  using assms by (simp add: unat_add_64 unat_of_nat_64)

lemma unat_sub_64 [word_nat]:
  "unat y \<le> unat x \<Longrightarrow> unat (x - y :: u64) = unat x - unat y"
  by (simp add: unat_sub word_le_nat_alt)

lemma u64_eq_iff: "(x :: u64) = y \<longleftrightarrow> unat x = unat y"
  by (simp add: word_unat_eq_iff)

lemma of_nat_eq_64:
  assumes "i < 18446744073709551616" and "j < 18446744073709551616"
  shows "(of_nat i :: u64) = of_nat j \<longleftrightarrow> i = j"
proof
  assume "(of_nat i :: u64) = of_nat j"
  then have "unat (of_nat i :: u64) = unat (of_nat j :: u64)" by simp
  with assms show "i = j" by (simp add: unat_of_nat_64)
qed simp

lemma unat_push_bit_64:
  assumes "unat x * 2 ^ n < 18446744073709551616"
  shows "unat (push_bit n x :: u64) = unat x * 2 ^ n"
  using assms
  by (simp add: unsigned_push_bit_eq take_bit_nat_eq_self flip: push_bit_eq_mult)

lemma unat_drop_bit_64: "unat (drop_bit n x :: u64) = unat x div 2 ^ n"
  by (simp add: unat_drop_bit_eq flip: drop_bit_eq_div)

lemma unat_and_mask_64:
  assumes "n \<le> 64"
  shows "unat (x AND mask n :: u64) = unat x mod 2 ^ n"
  using assms
  by (simp add: unsigned_take_bit_eq min_def flip: take_bit_eq_mask take_bit_eq_mod)

lemma sint_of_nat_64: "n < 9223372036854775808 \<Longrightarrow> sint (of_nat n :: u64) = int n"
  using signed_of_int [of "int n", where ?'a = int and ?'b = 64]
  by (simp add: signed_take_bit_int_eq_self)

text \<open>The counter of a loop \<open>for (i = 0; i < n; i++)\<close> does not wrap.\<close>

lemma unat_loop_inc [word_nat]:
  assumes "(i :: 'a :: len word) < n"
  shows "unat (i + 1) = Suc (unat i)"
proof -
  have "unat i < unat n" using assms by (simp add: word_less_nat_alt)
  also have "unat n < 2 ^ LENGTH('a)" by (rule unsigned_less)
  finally have "Suc (unat i) < 2 ^ LENGTH('a) \<or> Suc (unat i) = 2 ^ LENGTH('a)" by arith
  moreover have "Suc (unat i) \<le> unat n" using \<open>unat i < unat n\<close> by simp
  ultimately have "Suc (unat i) < 2 ^ LENGTH('a)"
    using unsigned_less [of n, where ?'a = nat] by linarith
  then show ?thesis by (simp add: unat_word_ariths)
qed

lemma loop_measure [simp]:
  assumes "(i :: 'a :: len word) < n"
  shows "unat n - unat (i + 1) < unat n - unat i"
  using assms by (simp add: unat_loop_inc word_less_nat_alt)

lemma u64_le_inc: "(i :: u64) < n \<Longrightarrow> i + 1 \<le> y \<longleftrightarrow> i < y"
  by (simp add: word_le_nat_alt word_less_nat_alt unat_loop_inc Suc_le_eq)

section \<open>Byte memory\<close>

text \<open>
  The machine is little-endian: the byte at the lowest address is the least significant. A
  \<open>k\<close>-byte access is written once for every width and specialised to the widths the C
  code uses.
\<close>

primrec load_le :: "nat \<Rightarrow> mem \<Rightarrow> addr \<Rightarrow> nat" where
  "load_le 0 m a = 0"
| "load_le (Suc k) m a = unat (m a) + 256 * load_le k m (a + 1)"

primrec store_le :: "nat \<Rightarrow> mem \<Rightarrow> addr \<Rightarrow> nat \<Rightarrow> mem" where
  "store_le 0 m a v = m"
| "store_le (Suc k) m a v = store_le k (m(a := of_nat v)) (a + 1) (v div 256)"

definition load16 :: "mem \<Rightarrow> addr \<Rightarrow> u16" where
  "load16 m a = of_nat (load_le 2 m a)"

definition load32 :: "mem \<Rightarrow> addr \<Rightarrow> u32" where
  "load32 m a = of_nat (load_le 4 m a)"

definition load64 :: "mem \<Rightarrow> addr \<Rightarrow> u64" where
  "load64 m a = of_nat (load_le 8 m a)"

definition store64 :: "mem \<Rightarrow> addr \<Rightarrow> u64 \<Rightarrow> mem" where
  "store64 m a v = store_le 8 m a (unat v)"

lemma load_le_cong:
  assumes "\<And>i. i < k \<Longrightarrow> m (a + of_nat i) = m' (a + of_nat i)"
  shows "load_le k m a = load_le k m' a"
  using assms
proof (induction k arbitrary: a)
  case 0
  then show ?case by simp
next
  case (Suc k)
  have "m a = m' a" using Suc.prems [of 0] by simp
  moreover have "load_le k m (a + 1) = load_le k m' (a + 1)"
  proof (rule Suc.IH)
    fix i assume "i < k"
    then show "m (a + 1 + of_nat i) = m' (a + 1 + of_nat i)"
      using Suc.prems [of "Suc i"] by (simp add: add.assoc)
  qed
  ultimately show ?case by simp
qed

lemma store_le_other:
  assumes "\<And>i. i < k \<Longrightarrow> x \<noteq> a + of_nat i"
  shows "store_le k m a v x = m x"
  using assms
proof (induction k arbitrary: m a v)
  case 0
  then show ?case by simp
next
  case (Suc k)
  have "x \<noteq> a" using Suc.prems [of 0] by simp
  moreover have "x \<noteq> a + 1 + of_nat i" if "i < k" for i
    using Suc.prems [of "Suc i"] that by (simp add: add.assoc)
  ultimately show ?case by (simp add: Suc.IH)
qed

lemma load_le_bound: "load_le k m a < 256 ^ k"
proof (induction k arbitrary: a)
  case (Suc k)
  have "unat (m a) < 256" using unsigned_less [of "m a", where ?'a = nat] by simp
  moreover have "load_le k m (a + 1) < 256 ^ k" by (rule Suc.IH)
  ultimately show ?case by simp
qed simp

lemma load_store_le:
  "k < 18446744073709551616 \<Longrightarrow> load_le k (store_le k m a v) a = v mod 256 ^ k"
proof (induction k arbitrary: m a v)
  case 0
  then show ?case by simp
next
  case (Suc k)
  have "store_le k (m(a := of_nat v)) (a + 1) (v div 256) a = (m(a := of_nat v)) a"
  proof (rule store_le_other)
    fix i assume i: "i < k"
    show "a \<noteq> a + 1 + of_nat i"
    proof
      assume "a = a + 1 + of_nat i"
      then have "(of_nat (Suc i) :: u64) = of_nat 0" by (simp add: add.assoc)
      then show False using i Suc.prems by (subst (asm) of_nat_eq_64) auto
    qed
  qed
  moreover have "load_le k (store_le k (m(a := of_nat v)) (a + 1) (v div 256)) (a + 1)
      = v div 256 mod 256 ^ k"
    using Suc.prems by (intro Suc.IH) simp
  ultimately show ?case
    by (simp add: unat_of_nat take_bit_eq_mod mod_mult2_eq)
qed

lemma load64_store64_same [simp, mem_simps]: "load64 (store64 m a v) a = v"
  by (simp add: load64_def store64_def load_store_le)

text \<open>Two accesses are disjoint when their addresses are different multiples of eight.\<close>

abbreviation aligned8 :: "addr \<Rightarrow> bool" where
  "aligned8 a \<equiv> 8 dvd unat a"

lemma aligned8_offset:
  assumes "aligned8 a" and "i < 8"
  shows "unat (a + of_nat i) = unat a + i"
proof (rule unat_add_of_nat_64)
  obtain q where "unat a = 8 * q" using assms(1) by (auto elim: dvdE)
  moreover have "unat a < 18446744073709551616" by simp
  ultimately show "unat a + i < 18446744073709551616" using assms(2) by presburger
qed

lemma aligned8_bytes_distinct:
  assumes "aligned8 a" "aligned8 b" "i < 8" "j < 8" "a + of_nat i = b + of_nat j"
  shows "a = b"
proof -
  have "unat a + i = unat b + j"
    using assms(5) aligned8_offset [OF assms(1,3)] aligned8_offset [OF assms(2,4)] by simp
  with assms(1-4) have "unat a = unat b" by presburger
  then show ?thesis by (simp add: u64_eq_iff)
qed

lemma load64_store64_other [mem_simps]:
  assumes "aligned8 a" "aligned8 b" "a \<noteq> b"
  shows "load64 (store64 m a v) b = load64 m b"
proof -
  have "load_le 8 (store_le 8 m a (unat v)) b = load_le 8 m b"
  proof (rule load_le_cong, rule store_le_other)
    fix i j :: nat
    assume "i < 8" "j < 8"
    then show "b + of_nat i \<noteq> a + of_nat j"
      using aligned8_bytes_distinct [OF assms(1,2), of j i] assms(3) by auto
  qed
  then show ?thesis by (simp add: load64_def store64_def)
qed

end
