(* ===== verification/Util.thy ===== *)
theory Util
  imports Prelude
begin

text \<open>
  \<^verbatim>\<open>util.c\<close> without its linked list: strings, memory blocks, hexadecimal printing, the
  pseudo-random generator and \<open>ctz\<close>. A C name \<open>__f\<close> is written \<open>raw_f\<close>. A
  \<open>const char *\<close> is a \<^typ>\<open>cptr\<close>, the bytes at each offset from the pointer (\<open>at m p\<close>
  for a pointer \<open>p\<close> into memory); a local array is a byte list whose accesses are checked
  against its length. Output goes to the UART, whose history of written bytes is a list.
\<close>

section \<open>Strings\<close>

definition at :: "mem \<Rightarrow> addr \<Rightarrow> cptr" where
  "at m p = (\<lambda>i. m (p + i))"

text \<open>A local array read through a pointer to its element \<open>k\<close>.\<close>

definition at_array :: "u8 list \<Rightarrow> u64 \<Rightarrow> cptr" where
  "at_array xs k = (\<lambda>i. if unat (k + i) < length xs then xs ! unat (k + i) else 0)"

partial_function (option) strlen_loop :: "cptr \<Rightarrow> u64 \<Rightarrow> u64 option" where
  "strlen_loop str len = (if str len \<noteq> 0 then strlen_loop str (len + 1) else Some len)"

definition strlen :: "cptr \<Rightarrow> u64 option" where
  "strlen str = strlen_loop str 0"

partial_function (option) strcmp_loop :: "cptr \<Rightarrow> cptr \<Rightarrow> u64 \<Rightarrow> u32 option" where
  "strcmp_loop str1 str2 i =
     (if str1 i \<noteq> 0 \<and> str2 i \<noteq> 0 then
        (if str1 i \<noteq> str2 i then Some 0 else strcmp_loop str1 str2 (i + 1))
      else if str1 i \<noteq> str2 i then Some 0 else Some 1)"

definition strcmp :: "cptr \<Rightarrow> cptr \<Rightarrow> u32 option" where
  "strcmp str1 str2 = strcmp_loop str1 str2 0"

function strncmp_loop :: "cptr \<Rightarrow> cptr \<Rightarrow> u64 \<Rightarrow> u32 \<Rightarrow> u32" where
  "strncmp_loop str1 str2 i n =
     (if n > 0 then
        (if str1 i \<noteq> str2 i then 0 else strncmp_loop str1 str2 (i + 1) (n - 1))
      else 1)"
  by pat_completeness auto
termination
  by (relation "measure (\<lambda>(s, t, i, n). unat n)") (auto simp: unat_minus_one word_neq_0_conv unat_gt_0)

declare strncmp_loop.simps [simp del]

definition strncmp :: "cptr \<Rightarrow> cptr \<Rightarrow> u32 \<Rightarrow> u32" where
  "strncmp str1 str2 n = strncmp_loop str1 str2 0 n"

section \<open>Memory blocks\<close>

function memcpy_loop :: "mem \<Rightarrow> addr \<Rightarrow> addr \<Rightarrow> u64 \<Rightarrow> u64 \<Rightarrow> mem" where
  "memcpy_loop m dest src n i =
     (if i < n then memcpy_loop (m(dest + i := m (src + i))) dest src n (i + 1) else m)"
  by pat_completeness auto
termination
  by (relation "measure (\<lambda>(m, d, s, n, i). unat n - unat i)") auto

definition memcpy :: "mem \<Rightarrow> addr \<Rightarrow> addr \<Rightarrow> u64 \<Rightarrow> mem" where
  "memcpy m dest src n = memcpy_loop m dest src n 0"

function memset_loop :: "mem \<Rightarrow> addr \<Rightarrow> u32 \<Rightarrow> u64 \<Rightarrow> u64 \<Rightarrow> mem" where
  "memset_loop m s c n i =
     (if i < n then memset_loop (m(s + i := ucast c)) s c n (i + 1) else m)"
  by pat_completeness auto
termination
  by (relation "measure (\<lambda>(m, s, c, n, i). unat n - unat i)") auto

declare memcpy_loop.simps [simp del] memset_loop.simps [simp del]

definition memset :: "mem \<Rightarrow> addr \<Rightarrow> u32 \<Rightarrow> u64 \<Rightarrow> mem" where
  "memset m s c n = memset_loop m s c n 0"

text \<open>\<open>reverse\<close> swaps in place; it is only called on a local variable's bytes.\<close>

function reverse_loop :: "u8 list \<Rightarrow> nat \<Rightarrow> nat \<Rightarrow> u8 list option" where
  "reverse_loop buf len i =
     (if i < len div 2 then
        do { ensure (len \<le> length buf);
             let tmp = buf ! i;
             let buf = buf[i := buf ! (len - 1 - i)];
             let buf = buf[len - 1 - i := tmp];
             reverse_loop buf len (i + 1) }
      else Some buf)"
  by pat_completeness auto
termination
  by (relation "measure (\<lambda>(b, len, i). len div 2 - i)") auto

declare reverse_loop.simps [simp del]

definition reverse :: "u8 list \<Rightarrow> nat \<Rightarrow> u8 list option" where
  "reverse buf len = reverse_loop buf len 0"

section \<open>Printing\<close>

type_synonym uart = "u8 list"

definition put :: "u8 \<Rightarrow> uart \<Rightarrow> uart" where
  "put c out = out @ [c]"

definition hex :: "u8 list" where
  "hex = [48, 49, 50, 51, 52, 53, 54, 55, 56, 57, 97, 98, 99, 100, 101, 102]"

text \<open>\<open>__ctox\<close>: the two characters written through \<open>left\<close> and \<open>right\<close>.\<close>

definition raw_ctox :: "u8 \<Rightarrow> u8 \<times> u8" where
  "raw_ctox c = (hex ! unat (drop_bit 4 (c AND 0xf0)), hex ! unat (c AND 0x0f))"

function raw_cstox_loop ::
    "u8 list \<Rightarrow> u64 \<Rightarrow> u8 list \<Rightarrow> u64 \<Rightarrow> u64 \<Rightarrow> u64 \<Rightarrow> (u64 \<times> u8 list) option" where
  "raw_cstox_loop inp len out i j firstnonzero =
     (if i < len then
        do { ensure (unat i < length inp \<and> unat (j + 1) < length out);
             let c = inp ! unat i;
             let out = out[unat j := fst (raw_ctox c), unat (j + 1) := snd (raw_ctox c)];
             raw_cstox_loop inp len out (i + 1) (j + 2)
               (if 2 * i < firstnonzero \<and> c \<noteq> 0 then 2 * i else firstnonzero) }
      else Some (firstnonzero, out))"
  by pat_completeness auto
termination
  by (relation "measure (\<lambda>(inp, len, out, i, j, f). unat len - unat i)") auto

declare raw_cstox_loop.simps [simp del]

definition raw_cstox :: "u8 list \<Rightarrow> u64 \<Rightarrow> u8 list \<Rightarrow> (u64 \<times> u8 list) option" where
  "raw_cstox inp len out = raw_cstox_loop inp len out 0 0 (2 * (len - 1))"

partial_function (option) raw_printstr_loop :: "cptr \<Rightarrow> u64 \<Rightarrow> uart \<Rightarrow> uart option" where
  "raw_printstr_loop str i out =
     do { n \<leftarrow> strlen str;
          if i < n then raw_printstr_loop str (i + 1) (put (str i) out) else Some out }"

definition raw_printstr :: "cptr \<Rightarrow> uart \<Rightarrow> uart option" where
  "raw_printstr str out = raw_printstr_loop str 0 out"

text \<open>The bytes of a 64-bit variable in memory order, and C string literals.\<close>

definition u64_bytes :: "u64 \<Rightarrow> u8 list" where
  "u64_bytes v = map (\<lambda>k. ucast (drop_bit (8 * k) v)) [0..<8]"

definition lit :: "string \<Rightarrow> cptr" where
  "lit s = at_array (map of_char s @ [0]) 0"

definition raw_printnum :: "u64 \<Rightarrow> uart \<Rightarrow> uart option" where
  "raw_printnum ptr out =
     do { bytes \<leftarrow> reverse (u64_bytes ptr) 8;
          let buf = (replicate 17 0)[16 := 0];
          (firstnonzero, buf) \<leftarrow> raw_cstox bytes 8 buf;
          out \<leftarrow> raw_printstr (lit ''0x'') out;
          raw_printstr (at_array buf firstnonzero) out }"

text \<open>
  \<open>printf\<close>: \<open>args\<close> is the address of an array of pointers; \<open>%d\<close> and \<open>%l\<close> print the
  \<open>int\<close> and the \<open>intptr_t\<close> those pointers point to.
\<close>

definition printf_arg :: "mem \<Rightarrow> u8 \<Rightarrow> addr \<Rightarrow> uart \<Rightarrow> uart option" where
  "printf_arg m c arg out =
     (if c = 0 \<or> c = of_char (CHR ''s'') then raw_printstr (at m arg) out
      else if c = of_char (CHR ''p'') then raw_printnum arg out
      else if c = of_char (CHR ''d'') then raw_printnum (scast (load32 m arg)) out
      else if c = of_char (CHR ''l'') then raw_printnum (load64 m arg) out
      else Some (put c out))"

partial_function (option) printf_loop ::
    "mem \<Rightarrow> cptr \<Rightarrow> u64 \<Rightarrow> addr \<Rightarrow> uart \<Rightarrow> uart option" where
  "printf_loop m fmt i args out =
     do { n \<leftarrow> strlen fmt;
          if i < n then
            (if fmt i = 0 then Some out
             else if fmt i = of_char (CHR ''%'') then
               do { out \<leftarrow> printf_arg m (fmt (i + 1)) (load64 m args) out;
                    printf_loop m fmt (i + 2) (args + 8) out }
             else printf_loop m fmt (i + 1) args (put (fmt i) out))
          else Some out }"

definition printf :: "mem \<Rightarrow> cptr \<Rightarrow> addr \<Rightarrow> uart \<Rightarrow> uart option" where
  "printf m fmt args out = printf_loop m fmt 0 args out"

definition printptr :: "u64 \<Rightarrow> u8 \<Rightarrow> uart \<Rightarrow> uart option" where
  "printptr ptr fin out =
     do { out \<leftarrow> raw_printnum ptr out; Some (put fin out) }"

definition MAG :: cptr where "MAG = at_array [27, 91, 51, 53, 109, 0] 0"
definition RESET :: cptr where "RESET = at_array [27, 91, 48, 109, 0] 0"

definition printdbg :: "cptr \<Rightarrow> u64 \<Rightarrow> uart \<Rightarrow> uart option" where
  "printdbg str ptr out =
     do { out \<leftarrow> raw_printstr str out;
          out \<leftarrow> raw_printstr MAG out;
          out \<leftarrow> printptr ptr 10 out;
          raw_printstr RESET out }"

section \<open>Numbers\<close>

definition carol :: u32 where
  "carol = (push_bit 15 1 * push_bit 15 1 - 1) - 2"

primrec rand_loop :: "nat \<Rightarrow> u32 \<Rightarrow> u32" where
  "rand_loop 0 seed = seed"
| "rand_loop (Suc k) seed = rand_loop k (((seed + 1) * seed) mod carol)"

definition rand :: "u32 \<Rightarrow> u32" where
  "rand seed = rand_loop (8 * 4) seed"

function ctz_loop :: "u64 \<Rightarrow> u32 \<Rightarrow> u32" where
  "ctz_loop inp out = (if inp > 1 then ctz_loop (drop_bit 1 inp) (out + 1) else out)"
  by pat_completeness auto
termination
  by (relation "measure (\<lambda>(inp, out). unat inp)") (auto simp: unat_drop_bit_64 word_less_nat_alt)

declare ctz_loop.simps [simp del]

definition ctz :: "u64 \<Rightarrow> u32" where
  "ctz inp = ctz_loop inp 0"

section \<open>What a null-terminated string is\<close>

text \<open>\<open>is_cstr s xs\<close>: the pointer \<open>s\<close> points to the bytes \<open>xs\<close>, none of them zero, and a zero.\<close>

definition is_cstr :: "cptr \<Rightarrow> u8 list \<Rightarrow> bool" where
  "is_cstr s xs \<longleftrightarrow> length xs < 2 ^ 64 - 1 \<and> (\<forall>i < length xs. s (of_nat i) = xs ! i)
     \<and> s (of_nat (length xs)) = 0 \<and> 0 \<notin> set xs"

lemma is_cstr_nonzero:
  assumes "is_cstr s xs" "i < length xs" shows "s (of_nat i) \<noteq> 0"
  using assms by (auto simp: is_cstr_def in_set_conv_nth)

lemma strlen_loop_cstr:
  assumes "is_cstr s xs" "i \<le> length xs"
  shows "strlen_loop s (of_nat i) = Some (of_nat (length xs))"
  using assms(2)
proof (induction "length xs - i" arbitrary: i)
  case 0
  then show ?case using assms(1) by (subst strlen_loop.simps) (simp add: is_cstr_def)
next
  case (Suc k)
  then have i: "i < length xs" by simp
  have "strlen_loop s (of_nat (Suc i)) = Some (of_nat (length xs))"
    using Suc by (intro Suc.hyps) auto
  then show ?case
    using is_cstr_nonzero [OF assms(1) i] by (subst strlen_loop.simps) (simp add: add.commute)
qed

lemma strlen_cstr: "is_cstr s xs \<Longrightarrow> strlen s = Some (of_nat (length xs))"
  using strlen_loop_cstr [of s xs 0] by (simp add: strlen_def)

lemma raw_printstr_loop_cstr:
  assumes "is_cstr s xs" "i \<le> length xs"
  shows "raw_printstr_loop s (of_nat i) out = Some (out @ drop i xs)"
  using assms(2)
proof (induction "length xs - i" arbitrary: i out)
  case 0
  then show ?case
    by (subst raw_printstr_loop.simps) (simp add: strlen_cstr [OF assms(1)])
next
  case (Suc k)
  then have i: "i < length xs" by simp
  have len: "length xs < 18446744073709551615" using assms(1) by (simp add: is_cstr_def)
  have "(of_nat i :: u64) < of_nat (length xs)"
    using i len by (simp add: word_less_nat_alt unat_of_nat_64)
  moreover have "raw_printstr_loop s (of_nat (Suc i)) (put (s (of_nat i)) out)
      = Some (put (s (of_nat i)) out @ drop (Suc i) xs)"
    using Suc by (intro Suc.hyps) auto
  moreover have "s (of_nat i) = xs ! i" using assms(1) i by (simp add: is_cstr_def)
  ultimately show ?case using i
    by (subst raw_printstr_loop.simps)
      (simp add: strlen_cstr [OF assms(1)] put_def add.commute Cons_nth_drop_Suc)
qed

lemma raw_printstr_cstr: "is_cstr s xs \<Longrightarrow> raw_printstr s out = Some (out @ xs)"
  using raw_printstr_loop_cstr [of s xs 0] by (simp add: raw_printstr_def)

lemma is_cstr_at_array:
  assumes "unat k \<le> length xs" "length xs < 2 ^ 64 - 1" "0 \<notin> set xs"
  shows "is_cstr (at_array (xs @ [0]) k) (drop (unat k) xs)"
proof -
  have "unat (k + of_nat i) = unat k + i" if "i \<le> length xs - unat k" for i
    using assms that by (intro unat_add_of_nat_64) auto
  note * = this this [of "length xs - unat k"]
  from * show ?thesis using assms
    by (auto simp: is_cstr_def at_array_def nth_append simp del: of_nat_diff dest: in_set_dropD)
qed

lemma strcmp_loop_cstr:
  assumes "is_cstr s xs" "is_cstr t ys" "i \<le> length xs" "i \<le> length ys"
    "take i xs = take i ys"
  shows "strcmp_loop s t (of_nat i) = Some (if xs = ys then 1 else 0)"
  using assms(3-)
proof (induction "length xs - i" arbitrary: i rule: less_induct)
  case less
  have sx: "s (of_nat i) = (if i < length xs then xs ! i else 0)"
    using assms(1) less.prems by (auto simp: is_cstr_def le_less)
  have tx: "t (of_nat i) = (if i < length ys then ys ! i else 0)"
    using assms(2) less.prems by (auto simp: is_cstr_def le_less)
  have nz: "i < length xs \<Longrightarrow> xs ! i \<noteq> 0" "i < length ys \<Longrightarrow> ys ! i \<noteq> 0"
    using assms(1,2) by (auto simp: is_cstr_def in_set_conv_nth)
  show ?case
  proof (cases "i < length xs \<and> i < length ys \<and> xs ! i = ys ! i")
    case True
    then have "strcmp_loop s t (of_nat (Suc i)) = Some (if xs = ys then 1 else 0)"
      using less.prems by (intro less.hyps) (auto simp: take_Suc_conv_app_nth)
    then show ?thesis using True nz
      by (subst strcmp_loop.simps) (simp add: sx tx add.commute)
  next
    case False
    have eq: "xs = ys \<longleftrightarrow> i = length xs \<and> i = length ys"
    proof
      assume "xs = ys"
      with False less.prems show "i = length xs \<and> i = length ys" by simp
    next
      assume "i = length xs \<and> i = length ys"
      with less.prems(3) show "xs = ys" by simp
    qed
    show ?thesis
    proof (cases "i < length xs \<and> i < length ys")
      case True
      with False nz eq show ?thesis
        by (subst strcmp_loop.simps) (simp add: sx tx)
    next
      case False
      with nz eq less.prems show ?thesis
        by (subst strcmp_loop.simps) (auto simp: sx tx)
    qed
  qed
qed

lemma strcmp_cstr:
  "is_cstr s xs \<Longrightarrow> is_cstr t ys \<Longrightarrow> strcmp s t = Some (if xs = ys then 1 else 0)"
  using strcmp_loop_cstr [of s xs t ys 0] by (simp add: strcmp_def)

section \<open>Memory blocks and numbers\<close>

lemma memcpy_loop_disjoint:
  assumes "\<And>a b. a < n \<Longrightarrow> b < n \<Longrightarrow> d + a \<noteq> s + b"
  shows "memcpy_loop m d s n i x = (if i \<le> x - d \<and> x - d < n then m (s + (x - d)) else m x)"
  using assms
proof (induction m d s n i rule: memcpy_loop.induct [case_names step])
  case (step m d s n i)
  show ?case
  proof (cases "i < n")
    case True
    let ?m = "m(d + i := m (s + i))"
    have "memcpy_loop m d s n i x = memcpy_loop ?m d s n (i + 1) x"
      using True by (subst memcpy_loop.simps) simp
    also have "\<dots> = (if i < x - d \<and> x - d < n then ?m (s + (x - d)) else ?m x)"
      by (simp only: step.IH [OF True step.prems] u64_le_inc [OF True])
    also have "\<dots> = (if i \<le> x - d \<and> x - d < n then m (s + (x - d)) else m x)"
      using True step.prems [OF True, of "x - d"] by (auto simp: le_less)
    finally show ?thesis .
  next
    case False
    then show ?thesis by (subst memcpy_loop.simps) auto
  qed
qed

lemma memcpy_disjoint:
  assumes "\<And>a b. a < n \<Longrightarrow> b < n \<Longrightarrow> dest + a \<noteq> src + b"
  shows "memcpy m dest src n x = (if x - dest < n then m (src + (x - dest)) else m x)"
  using memcpy_loop_disjoint [OF assms, where i = 0] by (simp add: memcpy_def)

lemma memset_loop_apply:
  "memset_loop m s c n i x = (if i \<le> x - s \<and> x - s < n then ucast c else m x)"
proof (induction m s c n i rule: memset_loop.induct [case_names step])
  case (step m s c n i)
  show ?case
  proof (cases "i < n")
    case True
    have "memset_loop m s c n i x = memset_loop (m(s + i := ucast c)) s c n (i + 1) x"
      using True by (subst memset_loop.simps) simp
    then show ?thesis using step True u64_le_inc [OF True, of "x - s"]
      by (auto simp: le_less)
  next
    case False
    then show ?thesis by (subst memset_loop.simps) auto
  qed
qed

lemma memset_apply: "memset m s c n x = (if x - s < n then ucast c else m x)"
  by (simp add: memset_def memset_loop_apply)

lemma reverse_loop_spec:
  assumes "len \<le> length buf" "i \<le> len div 2"
  shows "\<exists>r. reverse_loop buf len i = Some r \<and> length r = length buf \<and>
    (\<forall>j < length buf. r ! j = (if i \<le> j \<and> j < len - i then buf ! (len - 1 - j) else buf ! j))"
  using assms
proof (induction buf len i rule: reverse_loop.induct [case_names step])
  case (step buf len i)
  show ?case
  proof (cases "i < len div 2")
    case False
    with step.prems have i: "i = len div 2" by simp
    have "j = len - 1 - j" if "i \<le> j" "j < len - i" for j
      using that unfolding i by linarith
    with False show ?thesis by (subst reverse_loop.simps) simp
  next
    case True
    define buf' where "buf' = buf[i := buf ! (len - 1 - i), len - 1 - i := buf ! i]"
    have "\<exists>r. reverse_loop buf' len (i + 1) = Some r \<and> length r = length buf' \<and>
      (\<forall>j < length buf'. r ! j =
         (if i + 1 \<le> j \<and> j < len - (i + 1) then buf' ! (len - 1 - j) else buf' ! j))"
      unfolding buf'_def using True step.prems by (intro step.IH) auto
    then obtain r where r: "reverse_loop buf' len (i + 1) = Some r" "length r = length buf"
      "\<And>j. j < length buf \<Longrightarrow> r ! j =
         (if i + 1 \<le> j \<and> j < len - (i + 1) then buf' ! (len - 1 - j) else buf' ! j)"
      by (auto simp: buf'_def)
    have "reverse_loop buf len i = Some r"
      using r(1) True step.prems by (subst reverse_loop.simps) (simp add: buf'_def Let_def)
    moreover have "r ! j = (if i \<le> j \<and> j < len - i then buf ! (len - 1 - j) else buf ! j)"
      if "j < length buf" for j
      using r(3) [OF that] True step.prems that
      by (auto simp: buf'_def nth_list_update)
    ultimately show ?thesis using r(2) by blast
  qed
qed

lemma reverse_rev:
  assumes "len \<le> length buf"
  shows "reverse buf len = Some (rev (take len buf) @ drop len buf)"
proof -
  obtain r where r: "reverse buf len = Some r" "length r = length buf"
    "\<And>j. j < length buf \<Longrightarrow> r ! j = (if j < len then buf ! (len - 1 - j) else buf ! j)"
    using reverse_loop_spec [OF assms, of 0] by (auto simp: reverse_def)
  have "r = rev (take len buf) @ drop len buf"
    using assms r(2) by (intro nth_equalityI) (auto simp: r(3) nth_append rev_nth)
  with r(1) show ?thesis by simp
qed

lemma rand_loop_bound: "k > 0 \<Longrightarrow> rand_loop k seed < carol"
proof (induction k arbitrary: seed)
  case (Suc k)
  then show ?case
    by (cases k) (auto simp: carol_def word_mod_less_divisor)
qed simp

lemma rand_bound: "rand seed < carol"
  by (simp add: rand_def rand_loop_bound)

lemma ctz_loop_log: "inp \<noteq> 0 \<Longrightarrow> \<exists>k < 64. 2 ^ k \<le> unat inp \<and> unat inp < 2 ^ Suc k
   \<and> ctz_loop inp out = out + of_nat k"
proof (induction inp out rule: ctz_loop.induct [case_names step])
  case (step inp out)
  show ?case
  proof (cases "inp > 1")
    case True
    have big: "unat inp > 1" using True by (simp add: word_less_nat_alt)
    then have "unat (drop_bit 1 inp) \<noteq> 0" by (simp add: unat_drop_bit_64)
    then have "drop_bit 1 inp \<noteq> 0" by (metis unsigned_0)
    with step.IH [OF True] obtain k where k: "k < 64" "2 ^ k \<le> unat (drop_bit 1 inp)"
      "unat (drop_bit 1 inp) < 2 ^ Suc k" "ctz_loop (drop_bit 1 inp) (out + 1) = out + 1 + of_nat k"
      by blast
    have "2 ^ Suc k \<le> unat inp" "unat inp < 2 ^ Suc (Suc k)"
      using k(2,3) by (auto simp: unat_drop_bit_64)
    moreover have "Suc k < 64"
    proof (rule ccontr)
      assume "\<not> Suc k < 64"
      then have "(2::nat) ^ 64 \<le> 2 ^ Suc k" by (intro power_increasing) auto
      with \<open>2 ^ Suc k \<le> unat inp\<close> show False using unat_less_64 [of inp] by simp
    qed
    moreover have "ctz_loop inp out = out + of_nat (Suc k)"
      using True k(4) by (subst ctz_loop.simps) (simp add: ac_simps)
    ultimately show ?thesis by blast
  next
    case False
    then have "unat inp \<le> 1" by (simp add: word_less_nat_alt)
    moreover have "unat inp \<noteq> 0" using step.prems by (simp add: unat_eq_zero)
    ultimately have "unat inp = unat (1 :: u64)" by simp
    then have "inp = 1" by (rule unsigned_word_eqI)
    then show ?thesis by (intro exI [of _ 0]) (simp add: ctz_loop.simps)
  qed
qed

lemma ctz_floor_log:
  assumes "inp \<noteq> 0"
  shows "2 ^ unat (ctz inp) \<le> unat inp \<and> unat inp < 2 ^ Suc (unat (ctz inp))"
proof -
  obtain k where k: "k < 64" "2 ^ k \<le> unat inp" "unat inp < 2 ^ Suc k" "ctz inp = of_nat k"
    using ctz_loop_log [OF assms, of 0] by (auto simp: ctz_def)
  have "unat (ctz inp) = k" using k(1,4) by (simp add: unat_of_nat take_bit_nat_eq_self)
  with k show ?thesis by simp
qed

lemma strncmp_loop_iff:
  assumes "unat n + i < 2 ^ 64"
  shows "strncmp_loop s t (of_nat i) n = (if \<forall>j < unat n. s (of_nat (i + j)) = t (of_nat (i + j)) then 1 else 0)"
  using assms
proof (induction "unat n" arbitrary: n i)
  case 0
  then have "n = 0" by (simp add: unat_eq_zero)
  then show ?case by (subst strncmp_loop.simps) simp
next
  case (Suc k)
  then have n: "n > 0" by (simp add: word_less_nat_alt)
  have k: "unat (n - 1) = k" using Suc.hyps(2) n by (simp add: unat_minus_one)
  have all: "(\<forall>j < Suc k. P (i + j)) \<longleftrightarrow> P i \<and> (\<forall>j < k. P (Suc i + j))" for P
    by (auto simp: less_Suc_eq_0_disj)
  have "strncmp_loop s t (of_nat (Suc i)) (n - 1)
      = (if \<forall>j < k. s (of_nat (Suc i + j)) = t (of_nat (Suc i + j)) then 1 else 0)"
    using Suc.hyps(1) [of "n - 1" "Suc i"] Suc.hyps(2) Suc.prems k by simp
  then show ?case
    using n Suc.hyps(2) [symmetric] all [of "\<lambda>j. s (of_nat j) = t (of_nat j)"]
    by (subst strncmp_loop.simps) (simp add: add.commute)
qed

lemma strncmp_iff:
  "strncmp s t n = (if \<forall>j < unat n. s (of_nat j) = t (of_nat j) then 1 else 0)"
proof -
  have "unat n < 2 ^ 32" using unsigned_less [of n, where ?'a = nat] by simp
  then show ?thesis using strncmp_loop_iff [of n 0 s t] by (simp add: strncmp_def)
qed

section \<open>Hexadecimal output\<close>

definition hex_digit_val :: "u8 \<Rightarrow> nat" where
  "hex_digit_val c = (if c \<le> 57 then unat c - 48 else unat c - 87)"

definition hex_val :: "u8 list \<Rightarrow> nat" where
  "hex_val ds = foldl (\<lambda>a c. 16 * a + hex_digit_val c) 0 ds"

definition hexpair :: "u8 \<Rightarrow> u8 list" where
  "hexpair b = [fst (raw_ctox b), snd (raw_ctox b)]"

lemma hex_nth_val: "k < 16 \<Longrightarrow> hex_digit_val (hex ! k) = k \<and> hex ! k \<noteq> 0"
proof -
  assume "k < 16"
  then have "k \<in> set [0..<16]" by simp
  moreover have "\<forall>k \<in> set [0..<16]. hex_digit_val (hex ! k) = k \<and> hex ! k \<noteq> 0"
    by code_simp
  ultimately show ?thesis by blast
qed

lemma raw_ctox_div_mod: "raw_ctox b = (hex ! (unat b div 16), hex ! (unat b mod 16))"
proof -
  have "drop_bit 4 (b AND 0xf0) = drop_bit 4 b"
  proof -
    have "drop_bit 4 (b AND 0xf0) = drop_bit 4 b AND 15" by (simp add: drop_bit_and)
    also have "\<dots> = drop_bit 4 b AND mask 4" by (simp add: mask_eq_exp_minus_1)
    also have "\<dots> = drop_bit 4 b"
    proof -
      have "take_bit 8 b = b" using take_bit_length_eq [of b] by simp
      then show ?thesis by (simp add: take_bit_drop_bit flip: take_bit_eq_mask)
    qed
    finally show ?thesis .
  qed
  moreover have "b AND 0x0f = take_bit 4 b" by (simp add: take_bit_eq_mask mask_eq_exp_minus_1)
  moreover have "unat (drop_bit 4 b) = unat b div 16"
    by (simp add: unat_drop_bit_eq flip: drop_bit_eq_div) (simp add: drop_bit_eq_div)
  moreover have "unat (take_bit 4 b) = unat b mod 16"
    by (simp add: unsigned_take_bit_eq flip: take_bit_eq_mod) (simp add: take_bit_eq_mod)
  ultimately show ?thesis
    unfolding raw_ctox_def by metis
qed

lemma unat_u8_div: "unat (b :: u8) div 16 < 16"
  using unsigned_less [of b, where ?'a = nat] by simp

lemma hex_val_pairs:
  "foldl (\<lambda>a c. 16 * a + hex_digit_val c) acc (concat (map hexpair bs))
     = foldl (\<lambda>a b. 256 * a + unat b) acc bs"
proof (induction bs arbitrary: acc)
  case (Cons b bs)
  have "16 * (16 * acc + unat b div 16) + unat b mod 16 = 256 * acc + unat b" by simp
  with Cons.IH show ?case
    by (simp add: hexpair_def raw_ctox_div_mod hex_nth_val unat_u8_div add.commute)
qed simp

lemma bytes_horner:
  "foldl (\<lambda>a b. 256 * a + b) acc (rev (map (\<lambda>k. N div 256 ^ k mod 256) [0..<n]))
     = acc * 256 ^ n + N mod (256 :: nat) ^ n"
proof (induction n arbitrary: acc)
  case (Suc n)
  have "N mod 256 ^ Suc n = (N div 256 ^ n mod 256) * 256 ^ n + N mod 256 ^ n"
    using mod_mult2_eq [of N "256 ^ n" 256] by (simp add: mult.commute)
  then show ?case
    using Suc.IH [of "256 * acc + N div 256 ^ n mod 256"] by (simp add: algebra_simps)
qed simp

lemma u64_bytes_val: "foldl (\<lambda>a b. 256 * a + unat b) 0 (rev (u64_bytes v)) = unat v"
proof -
  have b: "unat (ucast (drop_bit (8 * k) v) :: u8) = unat v div 256 ^ k mod 256" for k
  proof -
    have "unat (ucast (drop_bit (8 * k) v) :: u8) = unat (drop_bit (8 * k) v) mod 256"
      by (simp add: unsigned_ucast_eq flip: take_bit_eq_mod) (simp add: take_bit_eq_mod)
    then show ?thesis by (simp only: unat_drop_bit_64 power_mult) simp
  qed
  have "foldl (\<lambda>a b. 256 * a + unat b) 0 (rev (u64_bytes v))
      = foldl (\<lambda>a b. 256 * a + b) 0 (rev (map (\<lambda>k. unat v div 256 ^ k mod 256) [0..<8]))"
    by (simp only: u64_bytes_def rev_map foldl_map map_map o_def b)
  also have "\<dots> = unat v" by (simp only: bytes_horner) simp
  finally show ?thesis .
qed


lemma raw_cstox_8:
  assumes "bs = [b0, b1, b2, b3, b4, b5, b6, b7]" "k < 8" "\<forall>i < k. bs ! i = 0" "k < 7 \<longrightarrow> bs ! k \<noteq> 0"
  shows "raw_cstox bs 8 (replicate 17 0) = Some (2 * of_nat k, concat (map hexpair bs) @ [0])"
proof -
  have r: "replicate 17 (0 :: u8) = [0, 0, 0, 0, 0, 0, 0, 0, 0, 0, 0, 0, 0, 0, 0, 0, 0]"
    by code_simp
  have k: "k = 0 \<or> k = 1 \<or> k = 2 \<or> k = 3 \<or> k = 4 \<or> k = 5 \<or> k = 6 \<or> k = 7"
    using assms(2) by arith
  have all: "i < k \<Longrightarrow> bs ! i = 0" for i using assms(3) by blast
  have z: "0 < k \<Longrightarrow> b0 = 0" "1 < k \<Longrightarrow> b1 = 0" "2 < k \<Longrightarrow> b2 = 0" "3 < k \<Longrightarrow> b3 = 0"
     "4 < k \<Longrightarrow> b4 = 0" "5 < k \<Longrightarrow> b5 = 0" "6 < k \<Longrightarrow> b6 = 0"
    using all [of 0] all [of 1] all [of 2] all [of 3] all [of 4] all [of 5] all [of 6]
    by (simp_all add: assms(1))
  show ?thesis
    using k
    apply (elim disjE)
    using z assms(4) unfolding raw_cstox_def assms(1) r
    by (simp_all add: raw_cstox_loop.simps hexpair_def Let_def)
qed

lemma first_nonzero:
  "length bs = Suc n \<Longrightarrow> \<exists>k < Suc n. (\<forall>i < k. bs ! i = 0) \<and> (k < n \<longrightarrow> bs ! k \<noteq> (0 :: u8))"
proof (induction n arbitrary: bs)
  case 0
  then show ?case by auto
next
  case (Suc n)
  then obtain b cs where bs: "bs = b # cs" "length cs = Suc n" by (cases bs) auto
  show ?case
  proof (cases "b = 0")
    case False
    then show ?thesis by (intro exI [of _ 0]) (simp add: bs)
  next
    case True
    obtain k where "k < Suc n" "\<forall>i < k. cs ! i = 0" "k < n \<longrightarrow> cs ! k \<noteq> 0"
      using Suc.IH [OF bs(2)] by blast
    then show ?thesis
      by (intro exI [of _ "Suc k"]) (auto simp: bs True less_Suc_eq_0_disj)
  qed
qed

lemma hexpair_nonzero: "0 \<notin> set (concat (map hexpair bs))"
  by (auto simp: hexpair_def raw_ctox_div_mod hex_nth_val unat_u8_div)

lemma length_hexpairs: "length (concat (map hexpair bs)) = 2 * length bs"
  by (induction bs) (auto simp: hexpair_def)

lemma drop_hexpairs: "drop (2 * k) (concat (map hexpair bs)) = concat (map hexpair (drop k bs))"
proof (induction k arbitrary: bs)
  case (Suc k)
  then show ?case by (cases bs) (auto simp: hexpair_def)
qed simp

lemma foldl_bytes_zeros:
  assumes "\<forall>i < k. bs ! i = (0 :: u8)" "k \<le> length bs"
  shows "foldl (\<lambda>a b. 256 * a + unat b) 0 (drop k bs) = foldl (\<lambda>a b. 256 * a + unat b) 0 bs"
proof -
  have z: "take k bs = replicate k 0"
    using assms by (intro nth_equalityI) auto
  have "foldl (\<lambda>a b. 256 * a + unat b) 0 (replicate k (0 :: u8)) = 0"
    by (induction k) auto
  then have "foldl (\<lambda>a b. 256 * a + unat b) 0 (take k bs @ drop k bs)
     = foldl (\<lambda>a b. 256 * a + unat b) 0 (drop k bs)"
    by (simp only: foldl_append z)
  then show ?thesis by simp
qed

lemma lit_0x: "raw_printstr (lit ''0x'') out = Some (out @ [48, 120])"
proof -
  have "is_cstr (lit ''0x'') (drop (unat (0 :: u64)) [48, 120])"
    using is_cstr_at_array [of 0 "[48, 120]"] by (simp add: lit_def)
  then show ?thesis using raw_printstr_cstr by simp
qed

lemma raw_printnum_roundtrip:
  "\<exists>ds. raw_printnum v out = Some (out @ [48, 120] @ ds) \<and> hex_val ds = unat v
     \<and> 2 \<le> length ds \<and> length ds \<le> 16 \<and> even (length ds)"
proof -
  define bs where "bs = rev (u64_bytes v)"
  have len: "length bs = 8" by (simp add: bs_def u64_bytes_def)
  then obtain b0 b1 b2 b3 b4 b5 b6 b7 where bs: "bs = [b0, b1, b2, b3, b4, b5, b6, b7]"
    by (auto simp: numeral_eq_Suc length_Suc_conv)
  obtain k where k: "k < 8" "\<forall>i < k. bs ! i = 0" "k < 7 \<longrightarrow> bs ! k \<noteq> 0"
    using first_nonzero [of bs 7] len by auto
  define ds where "ds = concat (map hexpair (drop k bs))"
  have rev8: "reverse (u64_bytes v) 8 = Some bs"
    by (simp add: reverse_rev bs_def u64_bytes_def)
  have cs: "raw_cstox bs 8 ((replicate 17 0)[16 := 0]) = Some (2 * of_nat k, concat (map hexpair bs) @ [0])"
  proof -
    have "(replicate 17 (0 :: u8))[16 := 0] = replicate 17 0" by code_simp
    then show ?thesis by (simp only: raw_cstox_8 [OF bs k])
  qed
  have u: "unat (2 * of_nat k :: u64) = 2 * k"
    using k(1) unat_of_nat_64 [of "2 * k"] by simp
  have str: "is_cstr (at_array (concat (map hexpair bs) @ [0]) (2 * of_nat k)) ds"
    using is_cstr_at_array [of "2 * of_nat k" "concat (map hexpair bs)"] k(1) len hexpair_nonzero [of bs]
    by (simp add: u length_hexpairs drop_hexpairs ds_def)
  have "raw_printnum v out = Some ((out @ [48, 120]) @ ds)"
    by (simp add: raw_printnum_def rev8 cs lit_0x raw_printstr_cstr [OF str])
  moreover have "hex_val ds = unat v"
  proof -
    have "hex_val ds = foldl (\<lambda>a b. 256 * a + unat b) 0 (drop k bs)"
      by (simp add: hex_val_def ds_def hex_val_pairs)
    also have "\<dots> = unat v"
      using foldl_bytes_zeros [OF k(2)] k(1) len u64_bytes_val [of v] by (simp add: bs_def)
    finally show ?thesis .
  qed
  moreover have "length ds = 2 * (8 - k)"
    by (simp add: ds_def length_hexpairs len)
  ultimately show ?thesis using k(1) by auto
qed

end
