(* ===== verification/Util_List.thy ===== *)
theory Util_List
  imports Prelude
begin

text \<open>
  The circular doubly-linked list of \<^verbatim>\<open>types.h\<close> and \<^verbatim>\<open>util.c\<close>. The heap is split by field, as
  the C types allow: \<open>nnext\<close> and \<open>nprev\<close> give the two pointers of the \<open>struct node\<close> at an
  address. \<open>dlist h head xs\<close> says that the nodes on the list of the sentinel \<open>head\<close> are
  \<open>xs\<close>, in order.
\<close>

record nodes =
  nnext :: "addr \<Rightarrow> addr"
  nprev :: "addr \<Rightarrow> addr"

definition set_next :: "addr \<Rightarrow> addr \<Rightarrow> nodes \<Rightarrow> nodes" where
  "set_next p v h = h\<lparr>nnext := (nnext h)(p := v)\<rparr>"

definition set_prev :: "addr \<Rightarrow> addr \<Rightarrow> nodes \<Rightarrow> nodes" where
  "set_prev p v h = h\<lparr>nprev := (nprev h)(p := v)\<rparr>"

definition node_init :: "addr \<Rightarrow> nodes \<Rightarrow> nodes" where
  "node_init node h = set_prev node node (set_next node node h)"

definition is_node_init :: "addr \<Rightarrow> nodes \<Rightarrow> bool" where
  "is_node_init node h \<longleftrightarrow> nprev h node \<noteq> NULL \<and> nnext h node \<noteq> NULL"

definition node_migrate :: "addr \<Rightarrow> u64 \<Rightarrow> nodes \<Rightarrow> nodes" where
  "node_migrate node off h =
     (let h = set_next node (nnext h node + off) h
      in set_prev node (nprev h node + off) h)"

definition list_append :: "addr \<Rightarrow> addr \<Rightarrow> nodes \<Rightarrow> nodes" where
  "list_append head node h =
     (let h = set_next node head h;
          h = set_prev node (nprev h head) h;
          h = set_next (nprev h head) node h
      in set_prev head node h)"

definition list_remove :: "addr \<Rightarrow> nodes \<Rightarrow> nodes" where
  "list_remove node h =
     (let h = set_next (nprev h node) (nnext h node) h;
          h = set_prev (nnext h node) (nprev h node) h;
          h = set_next node node h
      in set_prev node node h)"

definition list_is_empty :: "addr \<Rightarrow> nodes \<Rightarrow> bool" where
  "list_is_empty head h \<longleftrightarrow> nnext h head = head"

section \<open>The list a head represents\<close>

fun links :: "nodes \<Rightarrow> addr list \<Rightarrow> bool" where
  "links h (a # b # ys) \<longleftrightarrow> nnext h a = b \<and> nprev h b = a \<and> links h (b # ys)"
| "links h _ \<longleftrightarrow> True"

definition dlist :: "nodes \<Rightarrow> addr \<Rightarrow> addr list \<Rightarrow> bool" where
  "dlist h head xs \<longleftrightarrow> distinct (head # xs) \<and> links h (head # xs @ [head])"

lemma set_next_apply [simp]:
  "nnext (set_next p v h) = (nnext h)(p := v)" "nprev (set_next p v h) = nprev h"
  by (simp_all add: set_next_def)

lemma set_prev_apply [simp]:
  "nprev (set_prev p v h) = (nprev h)(p := v)" "nnext (set_prev p v h) = nnext h"
  by (simp_all add: set_prev_def)

lemmas node_defs = node_init_def node_migrate_def list_append_def list_remove_def Let_def

lemma links_append: "links h (xs @ a # ys) \<longleftrightarrow> links h (xs @ [a]) \<and> links h (a # ys)"
proof (induction xs)
  case (Cons x xs)
  then show ?case by (cases xs) auto
qed simp

lemma links_snoc2: "links h (xs @ [a, b]) \<longleftrightarrow> links h (xs @ [a]) \<and> nnext h a = b \<and> nprev h b = a"
  by (subst links_append) simp

lemma links_snocI:
  "links h (xs @ [a]) \<Longrightarrow> nnext h a = b \<Longrightarrow> nprev h b = a \<Longrightarrow> links h (xs @ [a, b])"
  by (simp add: links_snoc2)

lemma links_prefix: "links h (xs @ ys) \<Longrightarrow> links h xs"
proof (induction xs rule: induct_list012)
  case (3 x y zs)
  then show ?case by simp
qed auto

lemma links_cong:
  assumes "\<And>a. a \<in> set (butlast xs) \<Longrightarrow> nnext h a = nnext h' a"
    and "\<And>a. a \<in> set (tl xs) \<Longrightarrow> nprev h a = nprev h' a"
  shows "links h xs \<longleftrightarrow> links h' xs"
  using assms
proof (induction xs rule: induct_list012)
  case (3 x y zs)
  have n: "nnext h x = nnext h' x" "\<And>a. a \<in> set (butlast (y # zs)) \<Longrightarrow> nnext h a = nnext h' a"
    using "3.prems"(1) by simp_all
  have p: "nprev h y = nprev h' y" "\<And>a. a \<in> set (tl (y # zs)) \<Longrightarrow> nprev h a = nprev h' a"
    using "3.prems"(2) by simp_all
  have "links h (y # zs) = links h' (y # zs)" by (rule "3.IH"(2) [OF n(2) p(2)])
  with n(1) p(1) show ?case by simp
qed auto

lemma dlist_frame:
  assumes "dlist h head xs"
    and "\<And>a. a \<in> set (head # xs) \<Longrightarrow> nnext h' a = nnext h a \<and> nprev h' a = nprev h a"
  shows "dlist h' head xs"
proof -
  have "links h' (head # xs @ [head]) = links h (head # xs @ [head])"
    using assms(2) by (intro links_cong) (auto simp: butlast_append)
  with assms(1) show ?thesis by (simp add: dlist_def)
qed

lemma dlist_node_init: "dlist (node_init p h) p []"
  by (simp add: dlist_def node_defs)

text \<open>The last node of the list is the one before the sentinel.\<close>

lemma dlist_prev_head: "dlist h head xs \<Longrightarrow> nprev h head = last (head # xs)"
proof (cases xs rule: rev_cases)
  case (snoc ys y)
  assume "dlist h head xs"
  then show ?thesis using links_snoc2 [of h "head # ys" y head] by (simp add: dlist_def snoc)
qed (simp add: dlist_def)

lemma dlist_next_last: "dlist h head xs \<Longrightarrow> nnext h (last (head # xs)) = head"
proof (cases xs rule: rev_cases)
  case (snoc ys y)
  assume "dlist h head xs"
  then show ?thesis using links_snoc2 [of h "head # ys" y head] by (simp add: dlist_def snoc)
qed (simp add: dlist_def)

lemma dlist_is_empty: "dlist h head xs \<Longrightarrow> list_is_empty head h \<longleftrightarrow> xs = []"
  by (cases xs) (auto simp: dlist_def list_is_empty_def)

lemma dlist_list_append:
  assumes "dlist h head xs" and "n \<notin> set (head # xs)"
  shows "dlist (list_append head n h) head (xs @ [n])"
proof -
  let ?h = "list_append head n h"
  have d: "distinct (head # xs)" using assms(1) by (simp add: dlist_def)
  have next': "nnext ?h = (nnext h)(n := head, last (head # xs) := n)"
    and prev': "nprev ?h = (nprev h)(n := last (head # xs), head := n)"
    using assms dlist_prev_head [OF assms(1)] by (auto simp: node_defs)
  have "links ?h (head # xs @ [n, head])"
  proof (cases xs rule: rev_cases)
    case Nil
    with assms(2) show ?thesis by (simp add: next' prev')
  next
    case (snoc ys y)
    have "links h ((head # ys) @ [y])"
      using assms(1) links_prefix [of h "head # ys @ [y]" "[head]"] by (simp add: dlist_def snoc)
    also have "links h ((head # ys) @ [y]) = links ?h ((head # ys) @ [y])"
      using assms(2) d by (intro links_cong) (auto simp: next' prev' snoc)
    finally have "links ?h ((head # ys) @ [y, n])"
      by (rule links_snocI) (use assms(2) d in \<open>auto simp: next' prev' snoc\<close>)
    then have "links ?h ((head # ys @ [y]) @ [n, head])"
      by (intro links_snocI) (use assms(2) d in \<open>auto simp: next' prev' snoc\<close>)
    then show ?thesis by (simp add: snoc)
  qed
  with d assms(2) show ?thesis by (auto simp: dlist_def)
qed

lemma dlist_list_remove:
  assumes "dlist h head (xs @ n # ys)"
  shows "dlist (list_remove n h) head (xs @ ys)"
    and "nnext (list_remove n h) n = n" "nprev (list_remove n h) n = n"
proof -
  let ?h = "list_remove n h"
  define p where "p = last (head # xs)"
  define s where "s = hd (ys @ [head])"
  define ss where "ss = tl (ys @ [head])"
  define ps where "ps = butlast (head # xs)"
  have pre: "head # xs = ps @ [p]" and post: "ys @ [head] = s # ss"
    by (simp_all only: p_def ps_def s_def ss_def append_butlast_last_id list.collapse
        list.distinct append_is_Nil_conv simp_thms)
  have d: "distinct (head # xs @ n # ys)" using assms by (simp add: dlist_def)
  have "links h ((head # xs) @ n # (ys @ [head]))" using assms by (simp add: dlist_def)
  then have all: "links h (ps @ p # n # s # ss)" by (simp only: pre post) simp
  have lp: "links h (ps @ [p])" and ls: "links h (s # ss)"
    and nx: "nnext h p = n" "nprev h n = p" "nnext h n = s" "nprev h s = n"
    using iffD1 [OF links_append all] by auto
  have p_in: "p \<in> set (head # xs)" unfolding p_def by (rule last_in_set) simp
  have s_in: "s \<in> set (ys @ [head])" unfolding s_def by (rule hd_in_set) simp
  have next': "nnext ?h = (nnext h)(p := s, n := n)" and prev': "nprev ?h = (nprev h)(s := p, n := n)"
    using nx d p_in s_in by (auto simp: node_defs)
  show "nnext ?h n = n" "nprev ?h n = n" by (simp_all add: next' prev')
  have dp: "distinct (ps @ [p])" using d pre by (metis distinct_append append_Cons append_assoc)
  have "links ?h (ps @ [p])"
  proof -
    have "set (butlast (ps @ [p])) \<subseteq> set (head # xs) - {p}" using dp by (auto simp: pre)
    moreover have "tl (ps @ [p]) = xs" by (simp flip: pre)
    ultimately have "links h (ps @ [p]) = links ?h (ps @ [p])"
      using d s_in by (intro links_cong) (auto simp: next' prev')
    with lp show ?thesis by simp
  qed
  moreover have "links ?h (s # ss)"
  proof -
    have "butlast (s # ss) = ys" by (simp flip: post)
    moreover have "distinct (s # ss)" using d by (simp flip: post)
    moreover have "set ss \<subseteq> set (ys @ [head])" by (simp only: post) auto
    ultimately have "links h (s # ss) = links ?h (s # ss)"
      using d p_in by (intro links_cong) (auto simp: next' prev')
    with ls show ?thesis by simp
  qed
  moreover have "nnext ?h p = s" "nprev ?h s = p"
    using d p_in s_in by (auto simp: next' prev')
  ultimately have "links ?h (ps @ p # s # ss)" by (subst links_append) simp
  then have "links ?h ((head # xs) @ (ys @ [head]))" by (simp only: pre post) simp
  with d show "dlist ?h head (xs @ ys)" by (auto simp: dlist_def)
qed

end
