(* ===== verification/Buddy.thy ===== *)
theory Buddy
  imports Prelude
begin

text \<open>
  The physical memory allocator of \<^verbatim>\<open>buddy.c\<close>. The two static arrays are the state: \<open>blocks\<close>
  (\<open>buddy_blocks\<close>, one block structure per page frame) and \<open>free_lists\<close>
  (\<open>buddy_free_lists\<close>, one list per order). A \<open>struct block *\<close> is the index of the element
  of \<open>buddy_blocks\<close> it points to, \<open>None\<close> for \<open>NULL\<close>; every dereference and every array
  index is checked and yields \<open>None\<close> (undefined behaviour) when it leaves the array. A
  parameter of type \<open>unsigned\<close> is a natural number; a 64-bit order that is passed as
  \<open>unsigned\<close> is truncated to 32 bits (\<open>as_unsigned\<close>).
\<close>

section \<open>State\<close>

abbreviation PHYS_MEM_ORDER :: nat where "PHYS_MEM_ORDER \<equiv> 25"
abbreviation PHYS_MEM_PAGE_ORDER :: nat where "PHYS_MEM_PAGE_ORDER \<equiv> 12"
abbreviation BUDDY_MAX_ORDER :: nat where "BUDDY_MAX_ORDER \<equiv> 13"
abbreviation NBLOCKS :: nat where "NBLOCKS \<equiv> 8192"

record block =
  refcnt :: u64
  order :: u64
  bnext :: "nat option"

record buddy =
  free_lists :: "nat \<Rightarrow> nat option"
  blocks :: "nat \<Rightarrow> block"

definition as_unsigned :: "u64 \<Rightarrow> nat" where
  "as_unsigned x = unat x mod 2 ^ 32"

definition upd_block :: "nat \<Rightarrow> (block \<Rightarrow> block) \<Rightarrow> buddy \<Rightarrow> buddy" where
  "upd_block b f st = st\<lparr>blocks := (blocks st)(b := f (blocks st b))\<rparr>"

definition set_list :: "nat \<Rightarrow> nat option \<Rightarrow> buddy \<Rightarrow> buddy" where
  "set_list ord p st = st\<lparr>free_lists := (free_lists st)(ord := p)\<rparr>"

definition is_list_empty :: "nat \<Rightarrow> buddy \<Rightarrow> bool" where
  "is_list_empty ord st \<longleftrightarrow> free_lists st ord = None"

definition is_block_free :: "nat \<Rightarrow> buddy \<Rightarrow> bool" where
  "is_block_free b st \<longleftrightarrow> refcnt (blocks st b) = 0"

text \<open>\<open>1 << order\<close> is an \<open>int\<close> shift: undefined from 31 on.\<close>

definition block2buddy :: "nat \<Rightarrow> u64 \<Rightarrow> nat option" where
  "block2buddy b ord = do { ensure (unat ord < 31); Some (b XOR 2 ^ unat ord) }"

section \<open>Free lists\<close>

definition buddy_push :: "nat \<Rightarrow> nat \<Rightarrow> buddy \<Rightarrow> buddy option" where
  "buddy_push b ord st =
     do { ensure (b < NBLOCKS \<and> ord \<le> BUDDY_MAX_ORDER);
          let st = upd_block b (\<lambda>x. x\<lparr>bnext := free_lists st ord\<rparr>) st;
          let st = upd_block b (\<lambda>x. x\<lparr>refcnt := 0\<rparr>) st;
          Some (set_list ord (Some b) st) }"

definition buddy_pop :: "nat \<Rightarrow> buddy \<Rightarrow> (nat option \<times> buddy) option" where
  "buddy_pop ord st =
     do { ensure (ord \<le> BUDDY_MAX_ORDER);
          case free_lists st ord of
            None \<Rightarrow> Some (None, st)
          | Some b \<Rightarrow>
              do { ensure (b < NBLOCKS);
                   let st = set_list ord (bnext (blocks st b)) st;
                   let st = upd_block b (\<lambda>x. x\<lparr>refcnt := refcnt x + 1\<rparr>) st;
                   let st = upd_block b (\<lambda>x. x\<lparr>bnext := None\<rparr>) st;
                   Some (Some b, st) } }"

text \<open>The loop of \<open>buddy_remove\<close> runs to the tail and remembers the block before \<open>b\<close>.\<close>

partial_function (option) buddy_remove_loop ::
    "buddy \<Rightarrow> nat \<Rightarrow> nat \<Rightarrow> nat option \<Rightarrow> (nat \<times> nat option) option" where
  "buddy_remove_loop st b tail prev =
     (if \<not> tail < NBLOCKS then None
      else case bnext (blocks st tail) of
        None \<Rightarrow> Some (tail, prev)
      | Some nx \<Rightarrow> buddy_remove_loop st b nx (if nx = b then Some tail else prev))"

definition buddy_remove :: "nat \<Rightarrow> nat \<Rightarrow> buddy \<Rightarrow> (nat option \<times> buddy) option" where
  "buddy_remove b ord st =
     do { ensure (ord \<le> BUDDY_MAX_ORDER);
          case free_lists st ord of
            None \<Rightarrow> Some (None, st)
          | Some head \<Rightarrow>
              if head \<noteq> b then
                do { (tail, prev) \<leftarrow> buddy_remove_loop st b head None;
                     case prev of
                       None \<Rightarrow> Some (None, st)
                     | Some prev \<Rightarrow>
                         do { let st = set_list ord (Some b) st;
                              let st = upd_block prev (\<lambda>x. x\<lparr>bnext := None\<rparr>) st;
                              let st = upd_block tail (\<lambda>x. x\<lparr>bnext := Some head\<rparr>) st;
                              buddy_pop ord st } }
              else buddy_pop ord st }"

section \<open>Merging and freeing\<close>

definition raw_buddy_merge :: "nat \<Rightarrow> nat \<Rightarrow> buddy \<Rightarrow> (nat \<times> buddy) option" where
  "raw_buddy_merge block0 buddy0 st =
     do { let (b, c) = (if buddy0 < block0 then (buddy0, block0) else (block0, buddy0));
          ensure (b < NBLOCKS);
          let ord = as_unsigned (order (blocks st b));
          (_, st) \<leftarrow> buddy_remove c ord st;
          (_, st) \<leftarrow> buddy_remove b ord st;
          let st = upd_block b (\<lambda>x. x\<lparr>order := order x + 1\<rparr>) st;
          st \<leftarrow> buddy_push b (as_unsigned (order (blocks st b))) st;
          Some (b, st) }"

partial_function (option) raw_buddy_try_merge :: "nat \<Rightarrow> buddy \<Rightarrow> buddy option" where
  "raw_buddy_try_merge b st =
     do { ensure (b < NBLOCKS);
          if order (blocks st b) = of_nat BUDDY_MAX_ORDER then Some st
          else do {
            c \<leftarrow> block2buddy b (order (blocks st b));
            ensure (c < NBLOCKS);
            if order (blocks st b) \<noteq> order (blocks st c) then Some st
            else if is_block_free b st \<and> is_block_free c st then
              do { (b, st) \<leftarrow> raw_buddy_merge b c st;
                   raw_buddy_try_merge b st }
            else Some st } }"

definition buddy_free :: "nat option \<Rightarrow> buddy \<Rightarrow> (int \<times> buddy) option" where
  "buddy_free p st =
     do { b \<leftarrow> p;
          ensure (b < NBLOCKS);
          if refcnt (blocks st b) = 0 then Some (- 1, st)
          else if refcnt (blocks st b) = 1 then
            do { st \<leftarrow> buddy_push b (as_unsigned (order (blocks st b))) st;
                 st \<leftarrow> raw_buddy_try_merge b st;
                 Some (0, st) }
          else Some (0, upd_block b (\<lambda>x. x\<lparr>refcnt := refcnt x - 1\<rparr>) st) }"

section \<open>Splitting and allocating\<close>

definition raw_buddy_split :: "nat \<Rightarrow> buddy \<Rightarrow> (int \<times> buddy) option" where
  "raw_buddy_split ord st =
     (if ord = 0 then Some (- 1, st)
      else do {
        (p, st) \<leftarrow> buddy_pop ord st;
        case p of
          None \<Rightarrow> Some (- 2, st)
        | Some b \<Rightarrow>
            do { let st = upd_block b (\<lambda>x. x\<lparr>order := order x - 1\<rparr>) st;
                 st \<leftarrow> buddy_push b (as_unsigned (order (blocks st b))) st;
                 c \<leftarrow> block2buddy b (order (blocks st b));
                 st \<leftarrow> buddy_push c (as_unsigned (order (blocks st b))) st;
                 Some (0, st) } })"

function buddy_split :: "nat \<Rightarrow> nat \<Rightarrow> buddy \<Rightarrow> (int \<times> buddy) option" where
  "buddy_split i desired st =
     (if i > desired then
        do { (ret, st) \<leftarrow> raw_buddy_split i st;
             if ret \<noteq> 0 then Some (ret, st) else buddy_split (i - 1) desired st }
      else Some (0, st))"
  by pat_completeness auto
termination
  by (relation "measure (\<lambda>(i, d, st). i)") auto

declare buddy_split.simps [simp del]

function raw_buddy_find_smallest_free_order :: "nat \<Rightarrow> buddy \<Rightarrow> int" where
  "raw_buddy_find_smallest_free_order i st =
     (if i \<le> BUDDY_MAX_ORDER then
        (if \<not> is_list_empty i st then int i
         else raw_buddy_find_smallest_free_order (i + 1) st)
      else - 1)"
  by pat_completeness auto
termination
  by (relation "measure (\<lambda>(i, st). 14 - i)") auto

declare raw_buddy_find_smallest_free_order.simps [simp del]

definition buddy_alloc :: "nat \<Rightarrow> buddy \<Rightarrow> (nat option \<times> buddy) option" where
  "buddy_alloc ord st =
     (if ord > BUDDY_MAX_ORDER then Some (None, st)
      else
        let smallest_order = raw_buddy_find_smallest_free_order ord st in
        if smallest_order < 0 then Some (None, st)
        else do {
          (ret, st) \<leftarrow> buddy_split (nat smallest_order) ord st;
          if ret \<noteq> 0 then Some (None, st) else buddy_pop ord st })"

section \<open>Page numbers, initialisation\<close>

abbreviation PHYS_MEM_START :: u64 where "PHYS_MEM_START \<equiv> 0x80000000"
abbreviation PHYS_MEM_END :: u64 where "PHYS_MEM_END \<equiv> 0x82000000"
abbreviation PHYS_MEM_KERNEL_STACK_SIZE :: u64 where "PHYS_MEM_KERNEL_STACK_SIZE \<equiv> 0x1000"

definition phys2ppn :: "u64 \<Rightarrow> u64" where
  "phys2ppn phys = drop_bit PHYS_MEM_PAGE_ORDER phys"

definition ppn2block :: "u64 \<Rightarrow> nat option" where
  "ppn2block ppn =
     (if ppn < phys2ppn PHYS_MEM_START \<or> ppn \<ge> phys2ppn PHYS_MEM_END then None
      else Some (unat (ppn - phys2ppn PHYS_MEM_START)))"

definition block2ppn :: "nat \<Rightarrow> u64" where
  "block2ppn b = of_nat b + phys2ppn PHYS_MEM_START"

text \<open>\<open>phys2block\<close>: the macro does no range check.\<close>

definition phys2block :: "u64 \<Rightarrow> nat" where
  "phys2block phys = unat (drop_bit PHYS_MEM_PAGE_ORDER (phys - PHYS_MEM_START))"

record buddy_layout =
  kelf_base :: u64
  phys_base :: u64
  phys_end :: u64
  kstack_size :: u64

definition buddy_layout_init :: "u64 \<Rightarrow> buddy_layout" where
  "buddy_layout_init base =
     \<lparr>kelf_base = PHYS_MEM_START, phys_base = base,
      phys_end = PHYS_MEM_END - PHYS_MEM_KERNEL_STACK_SIZE,
      kstack_size = PHYS_MEM_KERNEL_STACK_SIZE\<rparr>"

text \<open>
  \<open>__buddy_init\<close>: \<open>base\<close> is the address of the linker symbol \<open>phys_base\<close>. The free lists are
  not touched; they are zero in \<open>.bss\<close> when it runs first.
\<close>

function raw_buddy_init_loop :: "u64 \<Rightarrow> buddy \<Rightarrow> buddy option" where
  "raw_buddy_init_loop phys st =
     (if phys < PHYS_MEM_END - PHYS_MEM_KERNEL_STACK_SIZE then
        do { (_, st) \<leftarrow> buddy_free (Some (phys2block phys)) st;
             raw_buddy_init_loop (phys + 0x1000) st }
      else Some st)"
  by pat_completeness auto
termination
  by (relation "measure (\<lambda>(phys, st). 0x82000000 - unat phys)")
    (auto simp: word_less_nat_alt unat_add_64)

declare raw_buddy_init_loop.simps [simp del]

definition raw_buddy_init :: "u64 \<Rightarrow> buddy \<Rightarrow> buddy option" where
  "raw_buddy_init base st =
     raw_buddy_init_loop base
       (st\<lparr>blocks := (\<lambda>i. if i < NBLOCKS then \<lparr>refcnt = 1, order = 0, bnext = None\<rparr> else blocks st i)\<rparr>)"

definition buddy_reset :: "u64 \<Rightarrow> buddy \<Rightarrow> buddy option" where
  "buddy_reset base st =
     raw_buddy_init base
       \<lparr>free_lists = (\<lambda>i. if i \<le> BUDDY_MAX_ORDER then None else free_lists st i),
        blocks = (\<lambda>i. if i < NBLOCKS then \<lparr>refcnt = 0, order = 0, bnext = None\<rparr> else blocks st i)\<rparr>"

end
