(* ===== verification/Buddy_Lists.thy ===== *)
theory Buddy_Lists
  imports Buddy
begin

text \<open>
  The free lists of the allocator as lists of block indices. \<open>bpath bl p xs q\<close> follows the
  \<open>next\<close> pointers from \<open>p\<close> through \<open>xs\<close> to \<open>q\<close>; \<open>lists st L\<close> says that the list of
  every order \<open>k\<close> holds \<open>L k\<close> and that no block is on two lists. \<open>buddy_push\<close>,
  \<open>buddy_pop\<close> and \<open>buddy_remove\<close> are characterised by what they do to \<open>L\<close>, to the
  reference counts (\<open>rf\<close>) and to the orders (\<open>od\<close>).
\<close>

fun bpath :: "(nat \<Rightarrow> block) \<Rightarrow> nat option \<Rightarrow> nat list \<Rightarrow> nat option \<Rightarrow> bool" where
  "bpath bl p [] q \<longleftrightarrow> p = q"
| "bpath bl p (x # xs) q \<longleftrightarrow> p = Some x \<and> x < NBLOCKS \<and> bpath bl (bnext (bl x)) xs q"

definition lists :: "buddy \<Rightarrow> (nat \<Rightarrow> nat list) \<Rightarrow> bool" where
  "lists st L \<longleftrightarrow>
     (\<forall>k \<le> BUDDY_MAX_ORDER. bpath (blocks st) (free_lists st k) (L k) None)
     \<and> (\<forall>j \<le> BUDDY_MAX_ORDER. \<forall>k \<le> BUDDY_MAX_ORDER. j \<noteq> k \<longrightarrow> set (L j) \<inter> set (L k) = {})"

definition rf :: "buddy \<Rightarrow> nat \<Rightarrow> u64" where
  "rf st = (\<lambda>p. refcnt (blocks st p))"

definition od :: "buddy \<Rightarrow> nat \<Rightarrow> u64" where
  "od st = (\<lambda>p. order (blocks st p))"

named_theorems buddy_upd \<open>fields after the elementary updates\<close>

lemma upd_block_apply [buddy_upd]:
  "blocks (upd_block b f st) = (blocks st)(b := f (blocks st b))"
  "free_lists (upd_block b f st) = free_lists st"
  by (simp_all add: upd_block_def)

lemma set_list_apply [buddy_upd]:
  "free_lists (set_list k p st) = (free_lists st)(k := p)"
  "blocks (set_list k p st) = blocks st"
  by (simp_all add: set_list_def)

section \<open>Paths\<close>

lemma bpath_append: "bpath bl p (xs @ ys) q \<longleftrightarrow> (\<exists>r. bpath bl p xs r \<and> bpath bl r ys q)"
  by (induction xs arbitrary: p) auto

lemma bpath_cong:
  assumes "\<And>x. x \<in> set xs \<Longrightarrow> bnext (bl' x) = bnext (bl x)"
  shows "bpath bl' p xs q \<longleftrightarrow> bpath bl p xs q"
  using assms by (induction xs arbitrary: p) auto

lemma bpath_upd [simp]:
  "u \<notin> set xs \<Longrightarrow> bpath (bl(u := v)) p xs q \<longleftrightarrow> bpath bl p xs q"
  by (rule bpath_cong) auto

lemma bpath_same_next:
  "bnext v = bnext (bl u) \<Longrightarrow> bpath (bl(u := v)) p xs q \<longleftrightarrow> bpath bl p xs q"
  by (rule bpath_cong) auto

lemma bpath_functional: "bpath bl p xs None \<Longrightarrow> bpath bl p ys None \<Longrightarrow> xs = ys"
proof (induction xs arbitrary: p ys)
  case Nil
  then show ?case by (cases ys) auto
next
  case (Cons x xs)
  then show ?case by (cases ys) auto
qed

lemma bpath_distinct: "bpath bl p xs None \<Longrightarrow> distinct xs"
proof (induction xs arbitrary: p)
  case (Cons x xs)
  have rest: "bpath bl (bnext (bl x)) xs None" using Cons.prems by simp
  have "x \<notin> set xs"
  proof
    assume "x \<in> set xs"
    then obtain us vs where xs: "xs = us @ x # vs" by (auto simp: in_set_conv_decomp)
    then have "bpath bl (bnext (bl x)) vs None" using rest by (auto simp: bpath_append)
    then have "vs = xs" using bpath_functional rest by blast
    then have "length vs = length xs" by simp
    then show False by (simp add: xs)
  qed
  then show ?case using Cons.IH [OF rest] by simp
qed simp

lemma bpath_bound: "bpath bl p xs q \<Longrightarrow> x \<in> set xs \<Longrightarrow> x < NBLOCKS"
  by (induction xs arbitrary: p) auto

lemma lists_path: "lists st L \<Longrightarrow> k \<le> BUDDY_MAX_ORDER \<Longrightarrow> bpath (blocks st) (free_lists st k) (L k) None"
  by (simp add: lists_def)

lemma lists_disjoint:
  "lists st L \<Longrightarrow> j \<le> BUDDY_MAX_ORDER \<Longrightarrow> k \<le> BUDDY_MAX_ORDER \<Longrightarrow> j \<noteq> k \<Longrightarrow> b \<in> set (L j) \<Longrightarrow> b \<notin> set (L k)"
  unfolding lists_def by blast

lemma lists_empty_iff:
  "lists st L \<Longrightarrow> k \<le> BUDDY_MAX_ORDER \<Longrightarrow> is_list_empty k st \<longleftrightarrow> L k = []"
  using lists_path [of st L k] by (cases "L k") (auto simp: is_list_empty_def)

section \<open>Push and pop\<close>

lemma buddy_push_lists:
  assumes "lists st L" "b < NBLOCKS" "k \<le> BUDDY_MAX_ORDER" "\<And>j. j \<le> BUDDY_MAX_ORDER \<Longrightarrow> b \<notin> set (L j)"
  shows "\<exists>st'. buddy_push b k st = Some st' \<and> lists st' (L(k := b # L k))
    \<and> rf st' = (rf st)(b := 0) \<and> od st' = od st"
proof -
  define st' where "st' = set_list k (Some b)
    (upd_block b (\<lambda>x. x\<lparr>refcnt := 0\<rparr>) (upd_block b (\<lambda>x. x\<lparr>bnext := free_lists st k\<rparr>) st))"
  have "buddy_push b k st = Some st'" using assms(2,3) by (simp add: buddy_push_def st'_def)
  moreover have "lists st' (L(k := b # L k))"
    using assms unfolding lists_def by (auto simp: st'_def buddy_upd)
  moreover have "rf st' = (rf st)(b := 0)" "od st' = od st"
    by (auto simp: st'_def buddy_upd rf_def od_def)
  ultimately show ?thesis by blast
qed

lemma buddy_pop_lists:
  assumes "lists st L" "k \<le> BUDDY_MAX_ORDER" "L k = b # bs"
  shows "\<exists>st'. buddy_pop k st = Some (Some b, st') \<and> lists st' (L(k := bs))
    \<and> rf st' = (rf st)(b := rf st b + 1) \<and> od st' = od st"
proof -
  define st' where "st' = upd_block b (\<lambda>x. x\<lparr>bnext := None\<rparr>)
    (upd_block b (\<lambda>x. x\<lparr>refcnt := refcnt x + 1\<rparr>) (set_list k (bnext (blocks st b)) st))"
  have path: "bpath (blocks st) (free_lists st k) (b # bs) None"
    using lists_path [OF assms(1,2)] assms(3) by simp
  have d: "b \<notin> set bs" using bpath_distinct [OF path] by simp
  have "buddy_pop k st = Some (Some b, st')"
    using path assms(2) by (simp add: buddy_pop_def st'_def)
  moreover have "lists st' (L(k := bs))"
  proof -
    have "b \<notin> set (L j)" if "j \<le> BUDDY_MAX_ORDER" "j \<noteq> k" for j
      using lists_disjoint [OF assms(1,2) that(1), of b] that(2) assms(3) by auto
    then have "bpath (blocks st') (free_lists st' j) ((L(k := bs)) j) None" if "j \<le> BUDDY_MAX_ORDER" for j
      using that path d lists_path [OF assms(1) that] by (auto simp: st'_def buddy_upd)
    moreover have "set ((L(k := bs)) j) \<subseteq> set (L j)" for j using assms(3) by auto
    ultimately show ?thesis using assms(1) unfolding lists_def by blast
  qed
  moreover have "rf st' = (rf st)(b := rf st b + 1)" "od st' = od st"
    by (auto simp: st'_def buddy_upd rf_def od_def)
  ultimately show ?thesis by blast
qed

lemma buddy_pop_empty:
  "lists st L \<Longrightarrow> k \<le> BUDDY_MAX_ORDER \<Longrightarrow> L k = [] \<Longrightarrow> buddy_pop k st = Some (None, st)"
  using lists_path [of st L k] by (simp add: buddy_pop_def)

section \<open>Remove\<close>

lemma buddy_remove_loop_tail:
  assumes "bpath (blocks st) (Some t) (t # zs) None" "b \<notin> set zs"
  shows "buddy_remove_loop st b t prev = Some (last (t # zs), prev)"
  using assms
proof (induction zs arbitrary: t)
  case Nil
  then show ?case by (subst buddy_remove_loop.simps) simp
next
  case (Cons z zs)
  then have "buddy_remove_loop st b z prev = Some (last (z # zs), prev)" by simp
  with Cons.prems show ?case by (subst buddy_remove_loop.simps) simp
qed

lemma buddy_remove_loop_found:
  assumes "bpath (blocks st) (Some t) (us @ p # b # vs) None"
  shows "buddy_remove_loop st b t prev = Some (last (b # vs), Some p)"
  using assms
proof (induction us arbitrary: t prev)
  case Nil
  have "b \<notin> set vs" using bpath_distinct [OF Nil] by simp
  then have "buddy_remove_loop st b b (Some p) = Some (last (b # vs), Some p)"
    using Nil by (intro buddy_remove_loop_tail) auto
  with Nil show ?case by (subst buddy_remove_loop.simps) auto
next
  case (Cons u us)
  then have t: "t = u" by simp
  obtain n ns where n: "us @ p # b # vs = n # ns" by (cases us) auto
  have d: "distinct (u # n # ns)" using bpath_distinct [OF Cons.prems] n by simp
  have nb: "n \<noteq> b"
  proof (cases us)
    case Nil
    with d n show ?thesis by auto
  next
    case (Cons u' us')
    with d n show ?thesis by auto
  qed
  have "buddy_remove_loop st b n prev = Some (last (b # vs), Some p)"
    using Cons.prems n by (intro Cons.IH) auto
  with Cons.prems n nb t show ?case by (subst buddy_remove_loop.simps) auto
qed

text \<open>Rotating a list so that it starts at \<open>b\<close>: what \<open>buddy_remove\<close> does before it pops.\<close>

lemma bpath_rotate:
  assumes "bpath bl (Some h) (us @ p # b # vs) None"
  shows "bpath (bl(p := (bl p)\<lparr>bnext := None\<rparr>, last (b # vs) :=
      ((bl(p := (bl p)\<lparr>bnext := None\<rparr>)) (last (b # vs)))\<lparr>bnext := Some h\<rparr>))
    (Some b) (b # vs @ us @ [p]) None"
proof -
  let ?t = "last (b # vs)"
  let ?bl = "bl(p := (bl p)\<lparr>bnext := None\<rparr>, ?t :=
      ((bl(p := (bl p)\<lparr>bnext := None\<rparr>)) ?t)\<lparr>bnext := Some h\<rparr>)"
  have d: "distinct (us @ p # b # vs)" by (rule bpath_distinct [OF assms])
  have tin: "?t \<in> set (b # vs)" by (rule last_in_set) simp
  have front: "bpath bl (Some h) us (Some p)" and p: "p < NBLOCKS"
    and rear: "bpath bl (Some b) (b # vs) None"
    using assms by (auto simp: bpath_append)
  have "bpath ?bl (Some h) us (Some p)"
    using d tin front by (subst bpath_cong [where bl = bl]) auto
  then have 1: "bpath ?bl (Some h) (us @ [p]) None"
    using d tin p by (auto simp: bpath_append)
  have split: "b # vs = butlast (b # vs) @ [?t]" by simp
  have tb: "?t \<notin> set (butlast (b # vs))"
    using d by (metis distinct_append distinct.simps(2) split not_distinct_conv_prefix)
  have "bpath bl (Some b) (butlast (b # vs) @ [?t]) None" using rear by (simp only: split [symmetric])
  then have "bpath bl (Some b) (butlast (b # vs)) (Some ?t)" by (auto simp only: bpath_append bpath.simps)
  moreover have "?t < NBLOCKS" using bpath_bound [OF rear tin] .
  ultimately have "bpath ?bl (Some b) (butlast (b # vs) @ [?t]) (Some h)"
    using d tb by (subst bpath_append, subst bpath_cong [where bl = bl])
      (auto dest: in_set_butlastD)
  then have 2: "bpath ?bl (Some b) (b # vs) (Some h)" by (simp only: split [symmetric])
  show ?thesis using 1 2 bpath_append [of ?bl "Some b" "b # vs" "us @ [p]" None] by auto
qed

lemma buddy_remove_lists:
  assumes "lists st L" "k \<le> BUDDY_MAX_ORDER" "L k = xs @ b # ys"
  shows "\<exists>st'. buddy_remove b k st = Some (Some b, st') \<and> lists st' (L(k := ys @ xs))
    \<and> rf st' = (rf st)(b := rf st b + 1) \<and> od st' = od st"
proof (cases xs rule: rev_cases)
  case Nil
  then have "free_lists st k = Some b" using lists_path [OF assms(1,2)] assms(3) by simp
  then have "buddy_remove b k st = buddy_pop k st" using assms(2) by (simp add: buddy_remove_def)
  then show ?thesis using buddy_pop_lists [OF assms(1,2), of b ys] assms(3) Nil by simp
next
  case (snoc us p)
  define h where "h = hd (us @ [p])"
  let ?t = "last (b # ys)"
  define st1 where "st1 = upd_block ?t (\<lambda>x. x\<lparr>bnext := Some h\<rparr>)
    (upd_block p (\<lambda>x. x\<lparr>bnext := None\<rparr>) (set_list k (Some b) st))"
  have path0: "bpath (blocks st) (free_lists st k) (us @ p # b # ys) None"
    using lists_path [OF assms(1,2)] assms(3) snoc by simp
  then have fl: "free_lists st k = Some h" by (cases us) (auto simp: h_def)
  note path = path0 [unfolded fl]
  have d: "distinct (us @ p # b # ys)" by (rule bpath_distinct [OF path])
  have hb: "h \<noteq> b" using d by (cases us) (auto simp: h_def)
  have "buddy_remove b k st = buddy_pop k st1"
    using buddy_remove_loop_found [OF path] fl hb assms(2)
    by (simp add: buddy_remove_def st1_def Let_def)
  moreover have "lists st1 (L(k := b # ys @ us @ [p]))"
  proof -
    have tin: "?t \<in> set (b # ys)" by (rule last_in_set) simp
    have "p \<notin> set (L j) \<and> ?t \<notin> set (L j)" if "j \<le> BUDDY_MAX_ORDER" "j \<noteq> k" for j
      using lists_disjoint [OF assms(1,2) that(1)] that(2) assms(3) tin by (auto simp: snoc)
    then have "bpath (blocks st1) (free_lists st1 j) ((L(k := b # ys @ us @ [p])) j) None"
      if "j \<le> BUDDY_MAX_ORDER" for j
      using that bpath_rotate [OF path] lists_path [OF assms(1) that]
      by (auto simp: st1_def buddy_upd simp del: bpath.simps)
    moreover have "set ((L(k := b # ys @ us @ [p])) j) = set (L j)" for j
      using assms(3) snoc by auto
    ultimately show ?thesis using assms(1) unfolding lists_def by blast
  qed
  moreover have "rf st1 = rf st" "od st1 = od st"
    by (auto simp: st1_def buddy_upd rf_def od_def)
  ultimately show ?thesis
    using buddy_pop_lists [of st1 "L(k := b # ys @ us @ [p])" k b "ys @ us @ [p]"] assms(2) snoc
    by simp
qed

end
