(* ===== verification/Buddy_Tiling.thy ===== *)
theory Buddy_Tiling
  imports Buddy
begin

text \<open>
  How blocks tile physical memory. \<open>od\<close> gives the order field of every block structure and
  \<open>H\<close> the set of heads (the first page of each block). Every page belongs to exactly one
  block, a block is aligned to its size, and the order field of a page inside a block is the
  number of trailing zeros of its index: the order at which it was merged, which is what a
  later split reads back. The lemmas are the two moves on a tiling (split a block, merge two
  buddies) and the fact that the buddy of a block is itself a head.
\<close>

definition owns :: "(nat \<Rightarrow> u64) \<Rightarrow> nat \<Rightarrow> nat \<Rightarrow> bool" where
  "owns od h p \<longleftrightarrow> h \<le> p \<and> p < h + 2 ^ unat (od h)"

definition tiled :: "(nat \<Rightarrow> u64) \<Rightarrow> nat set \<Rightarrow> bool" where
  "tiled od H \<longleftrightarrow>
     (\<forall>h \<in> H. h < NBLOCKS \<and> unat (od h) \<le> BUDDY_MAX_ORDER \<and> 2 ^ unat (od h) dvd h)
     \<and> (\<forall>p < NBLOCKS. \<exists>!h. h \<in> H \<and> owns od h p)
     \<and> (\<forall>p < NBLOCKS. p \<notin> H \<longrightarrow>
          2 ^ unat (od p) dvd p \<and> \<not> 2 ^ Suc (unat (od p)) dvd p)"

lemma tiled_head:
  assumes "tiled od H" "h \<in> H"
  shows "h < NBLOCKS" "unat (od h) \<le> BUDDY_MAX_ORDER" "2 ^ unat (od h) dvd h"
  using assms by (auto simp: tiled_def)

lemma tiled_owner: "tiled od H \<Longrightarrow> p < NBLOCKS \<Longrightarrow> \<exists>h \<in> H. owns od h p"
  unfolding tiled_def by metis

lemma tiled_unique:
  "tiled od H \<Longrightarrow> p < NBLOCKS \<Longrightarrow> g \<in> H \<Longrightarrow> h \<in> H \<Longrightarrow> owns od g p \<Longrightarrow> owns od h p \<Longrightarrow> g = h"
  unfolding tiled_def by metis

lemma owns_self [simp]: "owns od h h"
  by (simp add: owns_def)

section \<open>Powers of two\<close>

lemma xor_pow2_even:
  assumes "2 ^ Suc k dvd (h :: nat)"
  shows "h XOR 2 ^ k = h + 2 ^ k"
proof -
  obtain q where "h = 2 ^ Suc k * q" using assms by (auto elim: dvdE)
  then have "h = 2 ^ k * (2 * q)" by simp
  then have "\<not> bit h k" by (simp add: bit_iff_odd)
  have "h XOR 2 ^ k = flip_bit k h" by (simp add: flip_bit_eq_xor)
  also have "\<dots> = h + 2 ^ k" using \<open>\<not> bit h k\<close> by (simp add: flip_bit_eq_if set_bit_eq)
  finally show ?thesis .
qed

lemma xor_pow2:
  assumes "2 ^ k dvd (h :: nat)"
  shows "h XOR 2 ^ k = (if 2 ^ Suc k dvd h then h + 2 ^ k else h - 2 ^ k)"
    and "\<not> 2 ^ Suc k dvd h \<Longrightarrow> 2 ^ k \<le> h \<and> 2 ^ Suc k dvd h - 2 ^ k"
proof -
  show odd: "2 ^ k \<le> h \<and> 2 ^ Suc k dvd h - 2 ^ k" if "\<not> 2 ^ Suc k dvd h"
  proof -
    obtain q where q: "h = 2 ^ k * q" using assms by (auto elim: dvdE)
    have "odd q" using that by (auto simp: q)
    then obtain r where "q = 2 * r + 1" by (auto elim: oddE)
    then have "h = 2 ^ Suc k * r + 2 ^ k" by (simp add: q)
    then show ?thesis by simp
  qed
  show "h XOR 2 ^ k = (if 2 ^ Suc k dvd h then h + 2 ^ k else h - 2 ^ k)"
  proof (cases "2 ^ Suc k dvd h")
    case True
    then show ?thesis using xor_pow2_even by simp
  next
    case False
    have "(h - 2 ^ k) XOR 2 ^ k = h" using xor_pow2_even [of k "h - 2 ^ k"] odd [OF False] by simp
    then have "h XOR 2 ^ k = ((h - 2 ^ k) XOR 2 ^ k) XOR 2 ^ k" by simp
    also have "\<dots> = h - 2 ^ k" by (simp add: xor.assoc)
    finally show ?thesis using False by simp
  qed
qed

text \<open>Two aligned blocks that share a page are nested; the smaller starts at the page itself.\<close>

lemma aligned_start:
  assumes "(2::nat) ^ j dvd g" "2 ^ j dvd b" "g \<le> b" "b < g + 2 ^ j"
  shows "g = b"
proof -
  have "2 ^ j dvd b - g" using assms(1,2) by (simp add: dvd_diff_nat)
  moreover have "b - g < 2 ^ j" using assms(3,4) by simp
  ultimately have "b - g = 0" by (metis nat_dvd_not_less not_gr_zero)
  with assms(3) show ?thesis by simp
qed

lemma aligned_nested:
  assumes "(2::nat) ^ n dvd g" "k < n" "2 ^ Suc k dvd lo" "g \<le> p" "p < g + 2 ^ n"
    "lo \<le> p" "p < lo + 2 ^ Suc k" "lo \<le> q" "q < lo + 2 ^ Suc k"
  shows "g \<le> q \<and> q < g + 2 ^ n"
proof -
  have dn: "(2::nat) ^ Suc k dvd 2 ^ n" using assms(2) by (intro le_imp_power_dvd) simp
  then have dv: "2 ^ Suc k dvd g" "(2::nat) ^ Suc k dvd 2 ^ n"
    using assms(1) dvd_trans by blast+
  obtain a c e where a: "g = 2 ^ Suc k * a" and c: "lo = 2 ^ Suc k * c"
    and e: "(2::nat) ^ n = 2 ^ Suc k * e"
    using dv assms(3) by (auto elim!: dvdE)
  define P :: nat where "P = 2 ^ Suc k"
  have P: "P > 0" by (simp add: P_def)
  have "P * a < P * (c + 1)" using assms(4,7) by (simp add: a c P_def)
  then have "a \<le> c" using P by (simp only: mult_less_cancel1) simp
  then have ac: "P * a \<le> P * c" by simp
  have "P * c < P * (a + e)" using assms(5,6) by (simp add: a c e P_def distrib_left)
  then have "c + 1 \<le> a + e" using P by (simp only: mult_less_cancel1) simp
  then have "P * (c + 1) \<le> P * (a + e)" by (rule mult_le_mono2)
  then have "P * c + P \<le> P * a + P * e" by (simp add: distrib_left)
  with ac assms(8,9) show ?thesis unfolding a c e P_def [symmetric] by linarith
qed

section \<open>Buddies\<close>

lemma block_in_memory:
  assumes "2 ^ k dvd (h :: nat)" "h < NBLOCKS" "k \<le> BUDDY_MAX_ORDER"
  shows "h + 2 ^ k \<le> NBLOCKS"
proof -
  obtain q where q: "h = 2 ^ k * q" using assms(1) by (auto elim: dvdE)
  have e: "NBLOCKS = 2 ^ k * 2 ^ (13 - k)" using assms(3) by (simp flip: power_add)
  have "2 ^ k * q < 2 ^ k * 2 ^ (13 - k)" using assms(2) by (simp only: q e)
  then have "q + 1 \<le> 2 ^ (13 - k)" by simp
  then have "2 ^ k * (q + 1) \<le> 2 ^ k * 2 ^ (13 - k)" by (rule mult_le_mono2)
  then have "2 ^ k * q + 2 ^ k \<le> NBLOCKS" by (simp only: e) simp
  then show ?thesis by (simp only: q)
qed

lemma xor_pow2_bound:
  assumes "2 ^ k dvd (h :: nat)" "h < NBLOCKS" "k < BUDDY_MAX_ORDER"
  shows "h XOR 2 ^ k < NBLOCKS" "2 ^ k dvd (h XOR 2 ^ k)"
    "(h XOR 2 ^ k) XOR 2 ^ k = h"
proof -
  show "h XOR 2 ^ k < NBLOCKS"
  proof (cases "2 ^ Suc k dvd h")
    case True
    have "h + 2 ^ Suc k \<le> NBLOCKS" using assms True by (intro block_in_memory) auto
    moreover have "(2::nat) ^ k < 2 ^ Suc k" by simp
    ultimately have "h + 2 ^ k < NBLOCKS" by linarith
    then show ?thesis using True by (simp add: xor_pow2(1) [OF assms(1)])
  qed (use assms in \<open>simp add: xor_pow2(1)\<close>)
  show "2 ^ k dvd (h XOR 2 ^ k)"
    using assms(1) by (simp add: xor_pow2(1) dvd_diff_nat)
  show "(h XOR 2 ^ k) XOR 2 ^ k = h" by (simp add: xor.assoc)
qed

text \<open>The lower of the two buddies and the page range they share.\<close>

lemma buddies_lo:
  assumes "2 ^ k dvd (h :: nat)"
  obtains lo where "2 ^ Suc k dvd lo" "{h, h XOR 2 ^ k} = {lo, lo + 2 ^ k}"
    "lo \<le> h" "h < lo + 2 ^ Suc k" "lo \<le> h XOR 2 ^ k" "h XOR 2 ^ k < lo + 2 ^ Suc k"
proof (cases "2 ^ Suc k dvd h")
  case True
  then show ?thesis using that [of h] assms by (simp add: xor_pow2(1))
next
  case False
  have "2 ^ k \<le> h" "2 ^ Suc k dvd h - 2 ^ k" using xor_pow2(2) [OF assms False] by auto
  moreover have "h - 2 ^ k < h + 2 ^ k" by (simp add: trans_less_add1 less_imp_diff_less)
  ultimately show ?thesis
    using that [of "h - 2 ^ k"] False assms by (auto simp: xor_pow2(1) add.commute)
qed

lemma tiled_buddy:
  assumes "tiled od H" "h \<in> H" "unat (od h) = k" "k < BUDDY_MAX_ORDER"
  shows "h XOR 2 ^ k \<in> H" "unat (od (h XOR 2 ^ k)) \<le> k" "h XOR 2 ^ k \<noteq> h"
proof -
  let ?b = "h XOR 2 ^ k"
  have h: "h < NBLOCKS" "2 ^ k dvd h" using tiled_head [OF assms(1,2)] assms(3) by auto
  have b: "?b < NBLOCKS" "2 ^ k dvd ?b" using xor_pow2_bound [OF h(2,1) assms(4)] by auto
  have "(2::nat) ^ k > 0" by simp
  then show ne: "?b \<noteq> h" using xor_pow2 [OF h(2)] by (auto split: if_splits)
  obtain g where g: "g \<in> H" "owns od g ?b" using tiled_owner [OF assms(1) b(1)] by blast
  have gh: "2 ^ unat (od g) dvd g" using tiled_head [OF assms(1) g(1)] by simp
  obtain lo where lo: "2 ^ Suc k dvd lo" "lo \<le> h" "h < lo + 2 ^ Suc k" "lo \<le> ?b" "?b < lo + 2 ^ Suc k"
    using buddies_lo [OF h(2)] by metis
  have le: "unat (od g) \<le> k"
  proof (rule ccontr)
    assume "\<not> unat (od g) \<le> k"
    then have "g \<le> h \<and> h < g + 2 ^ unat (od g)"
      using aligned_nested [OF gh _ lo(1), of ?b h] g(2) lo by (simp add: owns_def)
    then have "g = h" using tiled_unique [OF assms(1) h(1) g(1) assms(2)] by (simp add: owns_def)
    with \<open>\<not> unat (od g) \<le> k\<close> assms(3) show False by simp
  qed
  have "2 ^ unat (od g) dvd ?b" using le b(2) by (meson dvd_trans le_imp_power_dvd)
  then have "g = ?b" using aligned_start [OF gh] g(2) by (simp add: owns_def)
  with g(1) le show "?b \<in> H" "unat (od ?b) \<le> k" by auto
qed

section \<open>Splitting and merging a tiling\<close>

lemma unat_dec: "unat (x :: u64) = Suc k \<Longrightarrow> unat (x - 1) = k"
  by (subst unat_sub_64) auto

lemma unat_inc: "unat (x :: u64) = k \<Longrightarrow> k < BUDDY_MAX_ORDER \<Longrightarrow> unat (x + 1) = Suc k"
  by (subst unat_add_64) auto

lemma tiled_interior:
  assumes "tiled od H" "b \<in> H" "unat (od b) = Suc k"
  shows "b XOR 2 ^ k = b + 2 ^ k" "b + 2 ^ k < NBLOCKS" "b + 2 ^ k \<notin> H"
    "unat (od (b + 2 ^ k)) = k" "2 ^ k dvd b + 2 ^ k"
proof -
  let ?c = "b + 2 ^ k"
  note hd = tiled_head [OF assms(1,2), unfolded assms(3)]
  show x: "b XOR 2 ^ k = ?c" using xor_pow2_even [OF hd(3)] .
  have pos: "(0::nat) < 2 ^ k" by simp
  have "b + 2 ^ Suc k \<le> NBLOCKS" using block_in_memory hd by blast
  then show c: "?c < NBLOCKS" using pos by (simp add: less_le_trans [of _ "b + 2 ^ Suc k"])
  show cH: "?c \<notin> H"
  proof
    assume "?c \<in> H"
    moreover have "owns od b ?c" using assms(3) by (simp add: owns_def)
    ultimately have "b = ?c" using tiled_unique [OF assms(1) c assms(2)] owns_self by blast
    with pos show False by simp
  qed
  have dv: "2 ^ k dvd b" using hd(3) by (auto elim: dvd_mult_right)
  then show "2 ^ k dvd ?c" by simp
  have nd: "\<not> 2 ^ Suc k dvd ?c"
  proof
    assume "2 ^ Suc k dvd ?c"
    then have "2 ^ Suc k dvd (2::nat) ^ k" using hd(3) by (metis dvd_add_right_iff)
    then show False by (simp add: dvd_power_iff_le)
  qed
  have i: "2 ^ unat (od ?c) dvd ?c" "\<not> 2 ^ Suc (unat (od ?c)) dvd ?c"
    using assms(1) c cH by (auto simp: tiled_def)
  have "\<not> Suc k \<le> unat (od ?c)"
    using nd i(1) by (metis dvd_trans le_imp_power_dvd)
  moreover have "\<not> Suc (unat (od ?c)) \<le> k"
    using i(2) \<open>2 ^ k dvd ?c\<close> by (metis dvd_trans le_imp_power_dvd)
  ultimately show "unat (od ?c) = k" by simp
qed

lemma tiled_split:
  assumes "tiled od H" "b \<in> H" "unat (od b) = Suc k"
  shows "tiled (od(b := od b - 1)) (insert (b + 2 ^ k) H)"
proof -
  let ?c = "b + 2 ^ k" and ?od = "od(b := od b - 1)"
  note int = tiled_interior [OF assms]
  note hd = tiled_head [OF assms(1,2), unfolded assms(3)]
  have cb: "?c \<noteq> b" by simp
  have dec: "unat (od b - 1) = k" by (rule unat_dec [OF assms(3)])
  have own: "owns od b p \<longleftrightarrow> owns ?od b p \<or> owns ?od ?c p" for p
    using int(4) cb dec assms(3) by (auto simp: owns_def)
  have excl: "\<not> (owns ?od b p \<and> owns ?od ?c p)" for p
    using dec by (auto simp: owns_def)
  have other: "owns ?od h p = owns od h p" if "h \<noteq> b" for h p
    using that by (simp add: owns_def)
  have uniq: "\<exists>!h. h \<in> insert ?c H \<and> owns ?od h p" if p: "p < NBLOCKS" for p
  proof -
    obtain g where g: "g \<in> H" "owns od g p" "\<And>h. h \<in> H \<Longrightarrow> owns od h p \<Longrightarrow> h = g"
      using assms(1) p unfolding tiled_def by metis
    show ?thesis
    proof (cases "g = b")
      case True
      have only: "h = b \<or> h = ?c" if "h \<in> insert ?c H" "owns ?od h p" for h
        using that other [of h p] g(3) [of h] True by blast
      from True g(2) own have "owns ?od b p \<or> owns ?od ?c p" by blast
      then show ?thesis using only excl [of p] assms(2) by blast
    next
      case False
      then have "owns ?od g p" using g(2) other by blast
      moreover have "h = g" if "h \<in> insert ?c H" "owns ?od h p" for h
      proof -
        have nb: "\<not> owns od b p" using g(3) [OF assms(2)] False by blast
        then have "h \<noteq> b" "h \<noteq> ?c" using own [of p] that(2) by blast+
        then show ?thesis using that other [of h p] g(3) [of h] by blast
      qed
      ultimately show ?thesis using g(1) by blast
    qed
  qed
  have "h < NBLOCKS \<and> unat (?od h) \<le> BUDDY_MAX_ORDER \<and> 2 ^ unat (?od h) dvd h"
    if h: "h \<in> insert ?c H" for h
  proof (cases "h = b \<or> h = ?c")
    case True
    then show ?thesis
      using int(2,4,5) hd dec cb by (auto elim: dvd_mult_right)
  next
    case False
    then show ?thesis using h tiled_head [OF assms(1)] by auto
  qed
  moreover have "2 ^ unat (?od p) dvd p \<and> \<not> 2 ^ Suc (unat (?od p)) dvd p"
    if "p < NBLOCKS" "p \<notin> insert ?c H" for p
    using that assms(1,2) by (auto simp: tiled_def)
  ultimately show ?thesis using uniq unfolding tiled_def by blast
qed

lemma tiled_merge:
  assumes "tiled od H" "b \<in> H" "c \<in> H" "unat (od b) = k" "unat (od c) = k" "k < BUDDY_MAX_ORDER"
    "c = b XOR 2 ^ k" "b < c"
  shows "tiled (od(b := od b + 1)) (H - {c})" "c = b + 2 ^ k"
proof -
  let ?od = "od(b := od b + 1)"
  note hb = tiled_head [OF assms(1,2), unfolded assms(4)]
  have al: "2 ^ Suc k dvd b" and c: "c = b + 2 ^ k"
    using xor_pow2(1) [OF hb(3)] assms(7,8) by (auto split: if_splits)
  show "c = b + 2 ^ k" by (rule c)
  have inc: "unat (od b + 1) = Suc k" by (rule unat_inc [OF assms(4,6)])
  have own: "owns ?od b p \<longleftrightarrow> owns od b p \<or> owns od c p" for p
    using assms(4,5) inc by (auto simp: owns_def c)
  have other: "owns ?od h p = owns od h p" if "h \<noteq> b" for h p
    using that by (simp add: owns_def)
  have uniq: "\<exists>!h. h \<in> H - {c} \<and> owns ?od h p" if p: "p < NBLOCKS" for p
  proof -
    obtain g where g: "g \<in> H" "owns od g p" "\<And>h. h \<in> H \<Longrightarrow> owns od h p \<Longrightarrow> h = g"
      using assms(1) p unfolding tiled_def by metis
    show ?thesis
    proof (cases "g = c")
      case True
      then have "owns ?od b p" using g own by blast
      moreover have "b \<in> H - {c}" using assms(2,8) by simp
      moreover have "h = b" if "h \<in> H - {c}" "owns ?od h p" for h
        using that other [of h p] g(3) [of h] True by blast
      ultimately show ?thesis by blast
    next
      case False
      then have "owns ?od g p" using g(2) own [of p] other [of g p] by blast
      moreover have "g \<in> H - {c}" using g(1) False by simp
      moreover have "h = g" if "h \<in> H - {c}" "owns ?od h p" for h
      proof (cases "h = b")
        case True
        then have "owns od b p \<or> owns od c p" using that(2) own by blast
        then show ?thesis using g(3) [OF assms(2)] g(3) [OF assms(3)] False True by blast
      next
        case False
        then show ?thesis using that other [of h p] g(3) [of h] by blast
      qed
      ultimately show ?thesis by blast
    qed
  qed
  have "h < NBLOCKS \<and> unat (?od h) \<le> BUDDY_MAX_ORDER \<and> 2 ^ unat (?od h) dvd h"
    if "h \<in> H - {c}" for h
    using that hb al inc assms(6) tiled_head [OF assms(1), of h] by (cases "h = b") auto
  moreover have "2 ^ unat (?od p) dvd p \<and> \<not> 2 ^ Suc (unat (?od p)) dvd p"
    if p: "p < NBLOCKS" "p \<notin> H - {c}" for p
  proof (cases "p = c")
    case True
    have "\<not> 2 ^ Suc k dvd c"
    proof
      assume "2 ^ Suc k dvd c"
      then have "2 ^ Suc k dvd (2::nat) ^ k" using al by (metis c dvd_add_right_iff)
      then show False by (simp add: dvd_power_iff_le)
    qed
    then show ?thesis using True assms(5,8) tiled_head(3) [OF assms(1,3)] by simp
  next
    case False
    with p assms(1,2) show ?thesis by (auto simp: tiled_def)
  qed
  ultimately show "tiled ?od (H - {c})" using uniq unfolding tiled_def by blast
qed

end
