(* ===== verification/Buddy_Inv.thy ===== *)
theory Buddy_Inv
  imports Buddy_Lists Buddy_Tiling
begin

text \<open>
  The invariant of the allocator and what every operation does to it. \<open>buddy_wf H L st\<close>: the
  blocks with heads \<open>H\<close> tile memory, the list of order \<open>k\<close> holds exactly the free heads of
  that order, and every page inside a block is marked as referenced. \<open>coal H st X\<close>: no two
  free buddies of the same order are left unmerged, except around the blocks of \<open>X\<close> (the
  block an operation is working on). Two views of a state are what clients see: \<open>fpages\<close>,
  the set of free pages, and \<open>held\<close>, the order and reference count of every allocated block.
\<close>

definition buddy_wf :: "nat set \<Rightarrow> (nat \<Rightarrow> nat list) \<Rightarrow> buddy \<Rightarrow> bool" where
  "buddy_wf H L st \<longleftrightarrow> lists st L \<and> tiled (od st) H
     \<and> (\<forall>k \<le> BUDDY_MAX_ORDER. set (L k) = {h \<in> H. unat (od st h) = k \<and> rf st h = 0})
     \<and> (\<forall>p < NBLOCKS. p \<notin> H \<longrightarrow> rf st p = 1)"

definition buddy_of :: "buddy \<Rightarrow> nat \<Rightarrow> nat" where
  "buddy_of st h = h XOR 2 ^ unat (od st h)"

definition coal :: "nat set \<Rightarrow> buddy \<Rightarrow> nat set \<Rightarrow> bool" where
  "coal H st X \<longleftrightarrow>
     (\<forall>h \<in> H. unat (od st h) < BUDDY_MAX_ORDER \<longrightarrow> h \<notin> X \<longrightarrow> buddy_of st h \<notin> X \<longrightarrow> rf st h = 0 \<longrightarrow>
        \<not> (od st (buddy_of st h) = od st h \<and> rf st (buddy_of st h) = 0))"

definition pages :: "nat \<Rightarrow> nat \<Rightarrow> nat set" where
  "pages b k = {b..<b + 2 ^ k}"

definition fpages :: "nat set \<Rightarrow> buddy \<Rightarrow> nat set" where
  "fpages H st = (\<Union>h \<in> {h \<in> H. rf st h = 0}. pages h (unat (od st h)))"

definition held :: "nat set \<Rightarrow> buddy \<Rightarrow> nat \<Rightarrow> (nat \<times> nat) option" where
  "held H st b = (if b \<in> H \<and> rf st b \<noteq> 0 then Some (unat (od st b), unat (rf st b)) else None)"

lemma owns_pages: "owns f h p \<longleftrightarrow> p \<in> pages h (unat (f h))"
  by (auto simp: owns_def pages_def)

lemma pages_halves: "pages b (Suc k) = pages b k \<union> pages (b + 2 ^ k) k"
  by (auto simp: pages_def)

lemma wf_list:
  assumes "buddy_wf H L st" "k \<le> BUDDY_MAX_ORDER" "b \<in> set (L k)"
  shows "b \<in> H" "unat (od st b) = k" "rf st b = 0" "b < NBLOCKS"
  using assms by (auto simp: buddy_wf_def tiled_def)

lemma wf_in_list:
  assumes "buddy_wf H L st" "b \<in> H" "rf st b = 0"
  shows "b \<in> set (L (unat (od st b)))"
  using assms tiled_head(2) [of "od st" H b] by (auto simp: buddy_wf_def)

lemma wf_not_in_list:
  "buddy_wf H L st \<Longrightarrow> b \<notin> H \<or> rf st b \<noteq> 0 \<Longrightarrow> k \<le> BUDDY_MAX_ORDER \<Longrightarrow> b \<notin> set (L k)"
  using wf_list by blast

lemma wf_distinct: "buddy_wf H L st \<Longrightarrow> k \<le> BUDDY_MAX_ORDER \<Longrightarrow> distinct (L k)"
  using lists_path bpath_distinct unfolding buddy_wf_def by blast

lemma as_unsigned_small: "unat x \<le> BUDDY_MAX_ORDER \<Longrightarrow> as_unsigned x = unat x"
  by (simp add: as_unsigned_def)

lemma block2buddy_small: "unat x \<le> BUDDY_MAX_ORDER \<Longrightarrow> block2buddy b x = Some (b XOR 2 ^ unat x)"
  by (simp add: block2buddy_def)

lemma set_order_lists:
  "lists (upd_block b (\<lambda>x. x\<lparr>order := f x\<rparr>) st) L \<longleftrightarrow> lists st L"
  "rf (upd_block b (\<lambda>x. x\<lparr>order := f x\<rparr>) st) = rf st"
  "od (upd_block b (\<lambda>x. x\<lparr>order := f x\<rparr>) st) = (od st)(b := f (blocks st b))"
  by (auto simp: lists_def rf_def od_def buddy_upd bpath_same_next)

section \<open>Splitting\<close>

lemma raw_buddy_split_step:
  assumes "buddy_wf H L st" "Suc k \<le> BUDDY_MAX_ORDER" "L (Suc k) = b # bs"
  shows "\<exists>st'. raw_buddy_split (Suc k) st = Some (0, st')
    \<and> lists st' (L(Suc k := bs, k := (b + 2 ^ k) # b # L k))
    \<and> rf st' = (rf st)(b := 0, b + 2 ^ k := 0) \<and> od st' = (od st)(b := od st b - 1)"
proof -
  let ?c = "b + 2 ^ k"
  have wf: "lists st L" "tiled (od st) H" using assms(1) by (auto simp: buddy_wf_def)
  have b: "b \<in> H" "unat (od st b) = Suc k" "rf st b = 0" "b < NBLOCKS"
    using wf_list [OF assms(1,2), of b] assms(3) by auto
  note c = tiled_interior [OF wf(2) b(1,2)]
  have dec: "unat (od st b - 1) = k" by (rule unat_dec [OF b(2)])
  obtain st1 where st1: "buddy_pop (Suc k) st = Some (Some b, st1)" "lists st1 (L(Suc k := bs))"
    "rf st1 = (rf st)(b := rf st b + 1)" "od st1 = od st"
    using buddy_pop_lists [OF wf(1) assms(2,3)] by blast
  define st2 where "st2 = upd_block b (\<lambda>x. x\<lparr>order := order x - 1\<rparr>) st1"
  have st2: "lists st2 (L(Suc k := bs))" "rf st2 = rf st1" "od st2 = (od st)(b := od st b - 1)"
    using st1 by (simp_all add: st2_def set_order_lists) (simp add: od_def fun_eq_iff)
  have "b \<notin> set ((L(Suc k := bs)) j)" if "j \<le> BUDDY_MAX_ORDER" for j
    using wf_distinct [OF assms(1,2)] assms(3) lists_disjoint [OF wf(1) assms(2) that, of b] by auto
  then obtain st3 where st3: "buddy_push b k st2 = Some st3" "lists st3 (L(Suc k := bs, k := b # L k))"
    "rf st3 = (rf st2)(b := 0)" "od st3 = od st2"
    using buddy_push_lists [OF st2(1) b(4), of k] assms(2) by auto
  have "?c \<notin> set (L j)" if "j \<le> BUDDY_MAX_ORDER" for j
    using wf_not_in_list [OF assms(1) _ that] c(3) by blast
  moreover have "set bs \<subseteq> set (L (Suc k))" using assms(3) by auto
  ultimately have "?c \<notin> set ((L(Suc k := bs, k := b # L k)) j)" if "j \<le> BUDDY_MAX_ORDER" for j
    using that assms(2) by (auto simp: subset_iff)
  then obtain st4 where st4: "buddy_push ?c k st3 = Some st4"
    "lists st4 (L(Suc k := bs, k := ?c # b # L k))" "rf st4 = (rf st3)(?c := 0)" "od st4 = od st3"
    using buddy_push_lists [OF st3(2) c(2), of k] assms(2) by auto
  have ord: "order (blocks st2 b) = od st b - 1" "order (blocks st3 b) = od st b - 1"
    using st2(3) st3(4) by (auto simp: od_def fun_eq_iff)
  have "raw_buddy_split (Suc k) st = Some (0, st4)"
    using st1(1) st3(1) st4(1) assms(2) dec c(1)
    by (simp add: raw_buddy_split_def ord as_unsigned_small block2buddy_small flip: st2_def)
  then show ?thesis using st4 st3 st2 st1 by (intro exI [of _ st4]) (auto simp: fun_eq_iff)
qed

lemma raw_buddy_split_wf:
  assumes "buddy_wf H L st" "Suc k \<le> BUDDY_MAX_ORDER" "L (Suc k) = b # bs"
  shows "\<exists>st'. raw_buddy_split (Suc k) st = Some (0, st')
    \<and> buddy_wf (insert (b + 2 ^ k) H) (L(Suc k := bs, k := (b + 2 ^ k) # b # L k)) st'
    \<and> rf st' = (rf st)(b := 0, b + 2 ^ k := 0) \<and> od st' = (od st)(b := od st b - 1)"
proof -
  let ?c = "b + 2 ^ k" and ?L = "L(Suc k := bs, k := (b + 2 ^ k) # b # L k)"
  have wf: "lists st L" "tiled (od st) H" using assms(1) by (auto simp: buddy_wf_def)
  have b: "b \<in> H" "unat (od st b) = Suc k" "rf st b = 0" "b < NBLOCKS"
    using wf_list [OF assms(1,2), of b] assms(3) by auto
  note c = tiled_interior [OF wf(2) b(1,2)]
  have dec: "unat (od st b - 1) = k" by (rule unat_dec [OF b(2)])
  obtain st' where st': "raw_buddy_split (Suc k) st = Some (0, st')" "lists st' ?L"
    "rf st' = (rf st)(b := 0, ?c := 0)" "od st' = (od st)(b := od st b - 1)"
    using raw_buddy_split_step [OF assms] by blast
  have "tiled (od st') (insert ?c H)" using tiled_split [OF wf(2) b(1,2)] st'(4) by simp
  moreover have "set (?L j) = {h \<in> insert ?c H. unat (od st' h) = j \<and> rf st' h = 0}"
    if j: "j \<le> BUDDY_MAX_ORDER" for j
  proof -
    have "set (L j) = {h \<in> H. unat (od st h) = j \<and> rf st h = 0}" if "j \<le> BUDDY_MAX_ORDER" for j
      using assms(1) that by (simp add: buddy_wf_def)
    note Lj = this [OF j] this [of k] this [of "Suc k"]
    have bs: "set bs = set (L (Suc k)) - {b}"
      using wf_distinct [OF assms(1,2)] assms(3) by auto
    show ?thesis
      using Lj bs b c(3,4) dec assms(2) by (auto simp: st'(3,4) split: if_splits)
  qed
  moreover have "rf st' p = 1" if "p < NBLOCKS" "p \<notin> insert ?c H" for p
    using that assms(1) b(1) by (auto simp: st'(3) buddy_wf_def)
  ultimately show ?thesis using st' by (auto simp: buddy_wf_def)
qed

lemma split_views:
  assumes "tiled (od st) H" "b \<in> H" "unat (od st b) = Suc k" "rf st b = 0"
    "rf st' = (rf st)(b := 0, b + 2 ^ k := 0)" "od st' = (od st)(b := od st b - 1)"
  shows "fpages (insert (b + 2 ^ k) H) st' = fpages H st"
    and "held (insert (b + 2 ^ k) H) st' = held H st"
    and "coal H st {b} \<Longrightarrow> coal (insert (b + 2 ^ k) H) st' {b + 2 ^ k}"
proof -
  let ?c = "b + 2 ^ k"
  note c = tiled_interior [OF assms(1-3)]
  have dec: "unat (od st b - 1) = k" by (rule unat_dec [OF assms(3)])
  have ne: "?c \<noteq> b" by simp
  have free: "{h \<in> insert ?c H. rf st' h = 0} = insert ?c {h \<in> H. rf st h = 0}"
    using assms(2,4,5) by auto
  have P: "pages h (unat (od st' h)) = (if h = b then pages b k else pages h (unat (od st h)))" for h
    using dec by (simp add: assms(6))
  show "fpages (insert ?c H) st' = fpages H st"
  proof -
    have "fpages (insert ?c H) st' = pages ?c k \<union> pages b k \<union>
        (\<Union>h \<in> {h \<in> H. rf st h = 0} - {b}. pages h (unat (od st h)))"
      unfolding fpages_def free using assms(2,4) c(4) by (auto simp: P)
    also have "\<dots> = fpages H st"
      using assms(2-4) by (auto simp: fpages_def pages_halves)
    finally show ?thesis .
  qed
  show "held (insert ?c H) st' = held H st"
    using assms(2,4) c(3) by (auto simp: held_def fun_eq_iff assms(5,6))
  show "coal (insert ?c H) st' {?c}" if coal: "coal H st {b}"
    unfolding coal_def
  proof (intro ballI impI)
    fix h
    assume h: "h \<in> insert ?c H" "unat (od st' h) < BUDDY_MAX_ORDER" "h \<notin> {?c}" "buddy_of st' h \<notin> {?c}" "rf st' h = 0"
    have hb: "h \<noteq> b" using h(4) dec c(1) by (auto simp: buddy_of_def assms(6))
    have same: "buddy_of st' h = buddy_of st h" using hb by (simp add: buddy_of_def assms(6))
    show "\<not> (od st' (buddy_of st' h) = od st' h \<and> rf st' (buddy_of st' h) = 0)"
    proof (cases "buddy_of st h = b")
      case True
      have "od st' h \<noteq> od st' b"
      proof
        assume "od st' h = od st' b"
        then have "unat (od st h) = k" using hb dec by (simp add: assms(6))
        then have "h XOR 2 ^ k = b" using True by (simp add: buddy_of_def)
        then have "h = b XOR 2 ^ k" by (metis xor.assoc xor_self_eq xor.right_neutral)
        with c(1) h(3) show False by simp
      qed
      then show ?thesis using True same by simp
    next
      case False
      then show ?thesis
        using h hb same coal by (auto simp: coal_def assms(5,6))
    qed
  qed
qed

section \<open>Allocating\<close>

lemma buddy_split_zero:
  assumes "buddy_wf H L st" "d \<le> i" "i \<le> BUDDY_MAX_ORDER" "L i = x # xs" "coal H st {x}"
  shows "\<exists>st' H' L' y ys. buddy_split i d st = Some (0, st') \<and> buddy_wf H' L' st' \<and> L' d = y # ys
    \<and> coal H' st' {y} \<and> fpages H' st' = fpages H st \<and> held H' st' = held H st"
  using assms
proof (induction "i - d" arbitrary: i st H L x xs)
  case 0
  then have "buddy_split i d st = Some (0, st)" by (subst buddy_split.simps) simp
  with 0 show ?case by (intro exI [of _ st] exI [of _ H] exI [of _ L] exI [of _ x] exI [of _ xs]) simp
next
  case (Suc n)
  then obtain k where k: "i = Suc k" "d \<le> k" by (cases i) auto
  have wf: "tiled (od st) H" using Suc.prems(1) by (simp add: buddy_wf_def)
  have x: "x \<in> H" "unat (od st x) = Suc k" "rf st x = 0"
    using wf_list [OF Suc.prems(1,3), of x] Suc.prems(4) k(1) by auto
  let ?c = "x + 2 ^ k"
  obtain st1 where st1: "raw_buddy_split (Suc k) st = Some (0, st1)"
    "buddy_wf (insert ?c H) (L(Suc k := xs, k := ?c # x # L k)) st1"
    "rf st1 = (rf st)(x := 0, ?c := 0)" "od st1 = (od st)(x := od st x - 1)"
    using raw_buddy_split_wf [of H L st k x xs] Suc.prems k(1) by auto
  note v = split_views [OF wf x st1(3,4)]
  have "\<exists>st' H' L' y ys. buddy_split k d st1 = Some (0, st') \<and> buddy_wf H' L' st' \<and> L' d = y # ys
    \<and> coal H' st' {y} \<and> fpages H' st' = fpages (insert ?c H) st1 \<and> held H' st' = held (insert ?c H) st1"
    using Suc.hyps(2) Suc.prems(3,5) k v(3) by (intro Suc.hyps(1) [OF _ st1(2)]) auto
  moreover have "buddy_split i d st = buddy_split k d st1"
    using k st1(1) by (subst buddy_split.simps) simp
  ultimately show ?case using v(1,2) by simp
qed

lemma find_smallest_spec:
  assumes "lists st L" "d \<le> BUDDY_MAX_ORDER"
  shows "(raw_buddy_find_smallest_free_order d st = -1 \<and> (\<forall>j. d \<le> j \<longrightarrow> j \<le> BUDDY_MAX_ORDER \<longrightarrow> L j = []))
    \<or> (\<exists>i. d \<le> i \<and> i \<le> BUDDY_MAX_ORDER \<and> L i \<noteq> []
         \<and> raw_buddy_find_smallest_free_order d st = int i \<and> (\<forall>j. d \<le> j \<longrightarrow> j < i \<longrightarrow> L j = []))"
  using assms(2)
proof (induction "BUDDY_MAX_ORDER - d" arbitrary: d)
  case 0
  then have d: "d = BUDDY_MAX_ORDER" by simp
  then show ?case using lists_empty_iff [OF assms(1), of d]
    by (subst (1 2) raw_buddy_find_smallest_free_order.simps)
      (auto simp: raw_buddy_find_smallest_free_order.simps le_antisym)
next
  case (Suc n)
  show ?case
  proof (cases "L d = []")
    case False
    then show ?thesis using Suc.prems lists_empty_iff [OF assms(1), of d]
      by (subst (1 2) raw_buddy_find_smallest_free_order.simps) auto
  next
    case True
    have eq: "raw_buddy_find_smallest_free_order d st = raw_buddy_find_smallest_free_order (Suc d) st"
      using True Suc.prems lists_empty_iff [OF assms(1), of d]
      by (subst raw_buddy_find_smallest_free_order.simps) simp
    have ih: "(raw_buddy_find_smallest_free_order (Suc d) st = -1
         \<and> (\<forall>j. Suc d \<le> j \<longrightarrow> j \<le> BUDDY_MAX_ORDER \<longrightarrow> L j = []))
      \<or> (\<exists>i. Suc d \<le> i \<and> i \<le> BUDDY_MAX_ORDER \<and> L i \<noteq> []
         \<and> raw_buddy_find_smallest_free_order (Suc d) st = int i \<and> (\<forall>j. Suc d \<le> j \<longrightarrow> j < i \<longrightarrow> L j = []))"
      using Suc.hyps(2) by (intro Suc.hyps(1)) auto
    show ?thesis unfolding eq using ih True by (metis Suc_leD Suc_leI le_neq_implies_less)
  qed
qed

text \<open>Popping the head of a list hands the block to the caller.\<close>

lemma buddy_pop_wf:
  assumes "buddy_wf H L st" "k \<le> BUDDY_MAX_ORDER" "L k = b # bs" "coal H st {b}"
  shows "\<exists>st'. buddy_pop k st = Some (Some b, st') \<and> buddy_wf H (L(k := bs)) st' \<and> coal H st' {}
    \<and> held H st b = None \<and> held H st' = (held H st)(b := Some (k, 1))
    \<and> pages b k \<subseteq> fpages H st \<and> fpages H st' = fpages H st - pages b k \<and> 2 ^ k dvd b
    \<and> b + 2 ^ k \<le> NBLOCKS"
proof -
  have wf: "lists st L" "tiled (od st) H" using assms(1) by (auto simp: buddy_wf_def)
  have b: "b \<in> H" "unat (od st b) = k" "rf st b = 0" "b < NBLOCKS"
    using wf_list [OF assms(1,2), of b] assms(3) by auto
  obtain st' where st': "buddy_pop k st = Some (Some b, st')" "lists st' (L(k := bs))"
    "rf st' = (rf st)(b := 1)" "od st' = od st"
    using buddy_pop_lists [OF wf(1) assms(2,3)] b(3) by auto
  have bs: "set bs = set (L k) - {b}" using wf_distinct [OF assms(1,2)] assms(3) by auto
  have Lj: "set (L j) = {h \<in> H. unat (od st h) = j \<and> rf st h = 0}" if "j \<le> BUDDY_MAX_ORDER" for j
    using assms(1) that by (simp add: buddy_wf_def)
  have "set ((L(k := bs)) j) = {h \<in> H. unat (od st' h) = j \<and> rf st' h = 0}" if "j \<le> BUDDY_MAX_ORDER" for j
    using Lj [OF that] Lj [OF assms(2)] bs b by (auto simp: st'(3,4))
  then have "buddy_wf H (L(k := bs)) st'"
    using assms(1) st' b(1) by (auto simp: buddy_wf_def)
  moreover have "coal H st' {}"
    using assms(4) by (auto simp: coal_def buddy_of_def st'(3,4))
  moreover have "held H st b = None" "held H st' = (held H st)(b := Some (k, 1))"
    using b by (auto simp: held_def st'(3,4))
  moreover have "pages b k \<subseteq> fpages H st" using b by (auto simp: fpages_def)
  moreover have "fpages H st' = fpages H st - pages b k"
  proof -
    have "pages h (unat (od st h)) \<inter> pages b k = {}" if "h \<in> H" "h \<noteq> b" for h
    proof -
      have "p < NBLOCKS" if "p \<in> pages b k" for p
        using that block_in_memory [of k b] tiled_head(3) [OF wf(2) b(1)] b(2,4) assms(2)
        by (auto simp: pages_def)
      then show ?thesis
        using tiled_unique [OF wf(2) _ that(1) b(1)] that(2) b(2) by (auto simp: owns_pages)
    qed
    moreover have "{h \<in> H. rf st' h = 0} = {h \<in> H. rf st h = 0} - {b}" by (auto simp: st'(3))
    ultimately show ?thesis using b by (auto simp: fpages_def st'(4))
  qed
  moreover have "2 ^ k dvd b" "b + 2 ^ k \<le> NBLOCKS"
    using tiled_head(3) [OF wf(2) b(1)] b(2,4) block_in_memory [of k b] assms(2) by auto
  ultimately show ?thesis using st'(1) by blast
qed

lemma buddy_alloc_wf:
  assumes "buddy_wf H L st" "coal H st {}" "k \<le> BUDDY_MAX_ORDER"
  shows "(\<exists>b st' H' L'. buddy_alloc k st = Some (Some b, st') \<and> buddy_wf H' L' st' \<and> coal H' st' {}
      \<and> held H st b = None \<and> held H' st' = (held H st)(b := Some (k, 1)) \<and> pages b k \<subseteq> fpages H st
      \<and> fpages H' st' = fpages H st - pages b k \<and> 2 ^ k dvd b \<and> b + 2 ^ k \<le> NBLOCKS)
    \<or> (buddy_alloc k st = Some (None, st) \<and> (\<forall>h \<in> H. rf st h = 0 \<longrightarrow> unat (od st h) < k))"
proof -
  have wf: "lists st L" "tiled (od st) H" using assms(1) by (auto simp: buddy_wf_def)
  from find_smallest_spec [OF wf(1) assms(3)] show ?thesis
  proof (elim disjE conjE exE)
    assume none: "raw_buddy_find_smallest_free_order k st = -1" "\<forall>j. k \<le> j \<longrightarrow> j \<le> BUDDY_MAX_ORDER \<longrightarrow> L j = []"
    have "unat (od st h) < k" if "h \<in> H" "rf st h = 0" for h
      using wf_in_list [OF assms(1) that] none(2) tiled_head(2) [OF wf(2) that(1)]
      by (metis linorder_not_less list.set_cases list.distinct(1))
    then show ?thesis using none(1) assms(3) by (simp add: buddy_alloc_def)
  next
    fix i
    assume i: "k \<le> i" "i \<le> BUDDY_MAX_ORDER" "L i \<noteq> []" "raw_buddy_find_smallest_free_order k st = int i"
    then obtain x xs where x: "L i = x # xs" by (cases "L i") auto
    have "coal H st {x}" using assms(2) by (auto simp: coal_def)
    then obtain st1 H1 L1 y ys where s: "buddy_split i k st = Some (0, st1)" "buddy_wf H1 L1 st1"
      "L1 k = y # ys" "coal H1 st1 {y}" "fpages H1 st1 = fpages H st" "held H1 st1 = held H st"
      using buddy_split_zero [OF assms(1) i(1,2) x] by blast
    have "buddy_alloc k st = buddy_pop k st1"
      using i(4) assms(3) s(1) by (simp add: buddy_alloc_def)
    then show ?thesis using buddy_pop_wf [OF s(2) assms(3) s(3,4)] s(5,6) by metis
  qed
qed

section \<open>Freeing\<close>

text \<open>Pushing an allocated block back: it is free again, and may be mergeable.\<close>

lemma buddy_push_wf:
  assumes "buddy_wf H L st" "coal H st {}" "held H st b = Some (k, r)"
  shows "\<exists>st'. buddy_push b k st = Some st' \<and> buddy_wf H (L(k := b # L k)) st' \<and> coal H st' {b}
    \<and> rf st' b = 0 \<and> held H st' = (held H st)(b := None) \<and> fpages H st' = fpages H st \<union> pages b k"
proof -
  have wf: "lists st L" "tiled (od st) H" using assms(1) by (auto simp: buddy_wf_def)
  have b: "b \<in> H" "rf st b \<noteq> 0" "unat (od st b) = k"
    using assms(3) by (auto simp: held_def split: if_splits)
  note hd = tiled_head [OF wf(2) b(1), unfolded b(3)]
  obtain st' where st': "buddy_push b k st = Some st'" "lists st' (L(k := b # L k))"
    "rf st' = (rf st)(b := 0)" "od st' = od st"
    using buddy_push_lists [OF wf(1) hd(1,2)] wf_not_in_list [OF assms(1)] b(2) by blast
  have "set ((L(k := b # L k)) j) = {h \<in> H. unat (od st' h) = j \<and> rf st' h = 0}" if "j \<le> BUDDY_MAX_ORDER" for j
    using assms(1) that b hd(2) by (auto simp: st'(3,4) buddy_wf_def)
  then have "buddy_wf H (L(k := b # L k)) st'"
    using assms(1) st' b(1) by (auto simp: buddy_wf_def)
  moreover have "coal H st' {b}"
    using assms(2) by (auto simp: coal_def buddy_of_def st'(3,4))
  moreover have "held H st' = (held H st)(b := None)" by (auto simp: held_def st'(3,4))
  moreover have "fpages H st' = fpages H st \<union> pages b k"
  proof -
    have "{h \<in> H. rf st' h = 0} = insert b {h \<in> H. rf st h = 0}" using b(1) by (auto simp: st'(3))
    then show ?thesis using b(3) by (auto simp: fpages_def st'(4))
  qed
  ultimately show ?thesis using st'(1,3) by auto
qed

lemma raw_buddy_merge_step:
  assumes "buddy_wf H L st" "b \<in> H" "c \<in> H" "unat (od st b) = k" "unat (od st c) = k" "k < BUDDY_MAX_ORDER"
    "rf st b = 0" "rf st c = 0" "c = b XOR 2 ^ k" "b < c"
    "(b0, c0) = (b, c) \<or> (b0, c0) = (c, b)"
  shows "\<exists>st' L'. raw_buddy_merge b0 c0 st = Some (b, st') \<and> buddy_wf (H - {c}) L' st'
    \<and> rf st' = (rf st)(c := 1, b := 0) \<and> od st' = (od st)(b := od st b + 1)"
proof -
  have wf: "lists st L" "tiled (od st) H" using assms(1) by (auto simp: buddy_wf_def)
  have k: "k \<le> BUDDY_MAX_ORDER" "Suc k \<le> BUDDY_MAX_ORDER" using assms(6) by auto
  have inc: "unat (od st b + 1) = Suc k" by (rule unat_inc [OF assms(4,6)])
  have sel: "(if c0 < b0 then (c0, b0) else (b0, c0)) = (b, c)" using assms(10,11) by auto
  have bN: "b < NBLOCKS" using tiled_head(1) [OF wf(2) assms(2)] .
  have d: "distinct (L k)" by (rule wf_distinct [OF assms(1) k(1)])
  have bl: "b \<in> set (L k)" "c \<in> set (L k)"
    using wf_in_list [OF assms(1,2,7)] wf_in_list [OF assms(1,3,8)] assms(4,5) by auto
  obtain xs ys where xy: "L k = xs @ c # ys" using bl(2) by (auto simp: in_set_conv_decomp)
  obtain st1 where st1: "buddy_remove c k st = Some (Some c, st1)" "lists st1 (L(k := ys @ xs))"
    "rf st1 = (rf st)(c := 1)" "od st1 = od st"
    using buddy_remove_lists [OF wf(1) k(1) xy] assms(8) by auto
  have "b \<in> set (ys @ xs)" using bl(1) xy assms(10) by auto
  then obtain us vs where uv: "ys @ xs = us @ b # vs" using split_list by fastforce
  obtain st2 where st2: "buddy_remove b k st1 = Some (Some b, st2)" "lists st2 (L(k := vs @ us))"
    "rf st2 = (rf st)(c := 1, b := 1)" "od st2 = od st"
    using buddy_remove_lists [OF st1(2) k(1), of us b vs] uv st1(3,4) assms(7,10) by auto
  define st3 where "st3 = upd_block b (\<lambda>x. x\<lparr>order := order x + 1\<rparr>) st2"
  have st3: "lists st3 (L(k := vs @ us))" "rf st3 = rf st2" "od st3 = (od st)(b := od st b + 1)"
    using st2 by (simp_all add: st3_def set_order_lists) (simp add: od_def fun_eq_iff)
  have rest: "set (vs @ us) = set (L k) - {b, c}"
  proof -
    have "distinct (ys @ xs)" using d xy by auto
    then have "distinct (us @ b # vs)" by (simp only: uv)
    moreover have "set (us @ b # vs) = set (L k) - {c}" unfolding uv [symmetric] using d xy by auto
    ultimately show ?thesis by auto
  qed
  have nin: "b \<notin> set ((L(k := vs @ us)) j)" if "j \<le> BUDDY_MAX_ORDER" for j
    using rest lists_disjoint [OF wf(1) k(1) that, of b] bl(1) by auto
  obtain st4 where st4: "buddy_push b (Suc k) st3 = Some st4"
    "lists st4 (L(k := vs @ us, Suc k := b # L (Suc k)))" "rf st4 = (rf st3)(b := 0)" "od st4 = od st3"
    using buddy_push_lists [OF st3(1) bN k(2)] nin by fastforce
  have ord: "order (blocks st b) = od st b" "order (blocks st3 b) = od st b + 1"
    using st3(3) by (auto simp: od_def fun_eq_iff)
  have run: "raw_buddy_merge b0 c0 st = Some (b, st4)"
    using st1(1) st2(1) st4(1) bN inc k assms(4)
    by (simp add: raw_buddy_merge_def sel ord as_unsigned_small flip: st3_def)
  have fields: "rf st4 = (rf st)(c := 1, b := 0)" "od st4 = (od st)(b := od st b + 1)"
    using st4 st3 st2 by auto
  have "set ((L(k := vs @ us, Suc k := b # L (Suc k))) j) = {h \<in> H - {c}. unat (od st4 h) = j \<and> rf st4 h = 0}"
    if j: "j \<le> BUDDY_MAX_ORDER" for j
  proof -
    have "set (L j) = {h \<in> H. unat (od st h) = j \<and> rf st h = 0}" if "j \<le> BUDDY_MAX_ORDER" for j
      using assms(1) that by (simp add: buddy_wf_def)
    note Lj = this [OF j] this [OF k(1)] this [OF k(2)]
    show ?thesis using Lj rest assms(2-5,10) inc
      by (auto simp: fields split: if_splits)
  qed
  moreover have "tiled (od st4) (H - {c})"
    using tiled_merge(1) [OF wf(2) assms(2-6,9,10)] by (simp add: fields)
  moreover have "rf st4 p = 1" if "p < NBLOCKS" "p \<notin> H - {c}" for p
    using that assms(1,2,10) by (auto simp: fields buddy_wf_def)
  ultimately have "buddy_wf (H - {c}) (L(k := vs @ us, Suc k := b # L (Suc k))) st4"
    using st4(2) by (simp add: buddy_wf_def)
  then show ?thesis using run fields by blast
qed

lemma merge_views:
  assumes "tiled (od st) H" "b \<in> H" "c \<in> H" "unat (od st b) = k" "unat (od st c) = k" "k < BUDDY_MAX_ORDER"
    "rf st b = 0" "rf st c = 0" "c = b XOR 2 ^ k" "b < c"
    "rf st' = (rf st)(c := 1, b := 0)" "od st' = (od st)(b := od st b + 1)"
  shows "fpages (H - {c}) st' = fpages H st" "held (H - {c}) st' = held H st"
    and "X = {b} \<or> X = {c} \<Longrightarrow> coal H st X \<Longrightarrow> coal (H - {c}) st' {b}"
proof -
  note c = tiled_merge(2) [OF assms(1-6,9,10)]
  have inc: "unat (od st b + 1) = Suc k" by (rule unat_inc [OF assms(4,6)])
  have free: "{h \<in> H - {c}. rf st' h = 0} = {h \<in> H. rf st h = 0} - {c}"
    using assms(7,10,11) by auto
  have P: "pages h (unat (od st' h)) = (if h = b then pages b k \<union> pages c k else pages h (unat (od st h)))" for h
    using inc by (auto simp: assms(12) c pages_halves)
  show "fpages (H - {c}) st' = fpages H st"
    unfolding fpages_def free using assms(2-5,7,8,10) by (auto simp: P split: if_splits)
  show "held (H - {c}) st' = held H st"
    using assms(7,8,10) by (auto simp: held_def fun_eq_iff assms(11,12))
  show "coal (H - {c}) st' {b}" if X: "X = {b} \<or> X = {c}" "coal H st X"
    unfolding coal_def
  proof (intro ballI impI)
    fix h
    assume h: "h \<in> H - {c}" "unat (od st' h) < BUDDY_MAX_ORDER" "h \<notin> {b}" "buddy_of st' h \<notin> {b}" "rf st' h = 0"
    have same: "buddy_of st' h = buddy_of st h" using h(3) by (simp add: buddy_of_def assms(12))
    show "\<not> (od st' (buddy_of st' h) = od st' h \<and> rf st' (buddy_of st' h) = 0)"
    proof (cases "buddy_of st h = c")
      case True
      then show ?thesis using same assms(10) by (simp add: assms(11))
    next
      case False
      then show ?thesis using h same X by (auto simp: coal_def assms(11,12))
    qed
  qed
qed

text \<open>When the block on which merging stops has no free buddy of its order, nothing is mergeable.\<close>

lemma coal_done:
  assumes "coal H st {b}" "\<not> (od st (buddy_of st b) = od st b \<and> rf st (buddy_of st b) = 0)
      \<or> unat (od st b) \<ge> BUDDY_MAX_ORDER"
  shows "coal H st {}"
  unfolding coal_def
proof (intro ballI impI)
  fix h
  assume h: "h \<in> H" "unat (od st h) < BUDDY_MAX_ORDER" "rf st h = 0"
  show "\<not> (od st (buddy_of st h) = od st h \<and> rf st (buddy_of st h) = 0)"
  proof (cases "h = b \<or> buddy_of st h \<noteq> b")
    case True
    then show ?thesis using assms h by (auto simp: coal_def)
  next
    case False
    then have hb: "buddy_of st h = b" by blast
    show ?thesis
    proof
      assume a: "od st (buddy_of st h) = od st h \<and> rf st (buddy_of st h) = 0"
      then have o: "od st b = od st h" using hb by simp
      have "buddy_of st b = h"
        using hb unfolding buddy_of_def o by (metis xor.assoc xor_self_eq xor.right_neutral)
      with o h assms(2) show False by simp
    qed
  qed
qed

lemma raw_buddy_try_merge_wf:
  assumes "buddy_wf H L st" "b \<in> H" "rf st b = 0" "coal H st {b}"
  shows "\<exists>st' H' L'. raw_buddy_try_merge b st = Some st' \<and> buddy_wf H' L' st' \<and> coal H' st' {}
    \<and> fpages H' st' = fpages H st \<and> held H' st' = held H st"
  using assms
proof (induction "BUDDY_MAX_ORDER - unat (od st b)" arbitrary: b st H L rule: less_induct)
  case less
  have wf: "lists st L" "tiled (od st) H" using less.prems(1) by (auto simp: buddy_wf_def)
  define k where "k = unat (od st b)"
  note hd = tiled_head [OF wf(2) less.prems(2)]
  have ord: "order (blocks st p) = od st p" "is_block_free p st \<longleftrightarrow> rf st p = 0" for p
    by (simp_all add: od_def rf_def is_block_free_def)
  have stop: ?case if "raw_buddy_try_merge b st = Some st" "coal H st {}"
    using that less.prems(1) by blast
  have maxo: "od st b = 13 \<longleftrightarrow> k = 13"
    by (simp add: k_def u64_eq_iff)
  show ?case
  proof (cases "k < BUDDY_MAX_ORDER")
    case False
    then have "k = 13" using hd(2) by (simp add: k_def)
    then have "raw_buddy_try_merge b st = Some st"
      using hd(1) maxo by (subst raw_buddy_try_merge.simps) (simp add: ord)
    then show ?thesis using stop coal_done [OF less.prems(4)] False by (simp add: k_def)
  next
    case True
    define c where "c = b XOR 2 ^ k"
    have c: "c \<in> H" "unat (od st c) \<le> k" "c \<noteq> b" "c < NBLOCKS"
      using tiled_buddy [OF wf(2) less.prems(2) k_def [symmetric] True]
        tiled_head(1) [OF wf(2)] by (auto simp: c_def)
    have bb: "block2buddy b (od st b) = Some c" "buddy_of st b = c"
      using hd(2) by (simp_all add: block2buddy_small c_def k_def buddy_of_def)
    show ?thesis
    proof (cases "od st c = od st b \<and> rf st c = 0")
      case False
      then have "raw_buddy_try_merge b st = Some st"
        using True maxo bb(1) hd(1) c(4) by (subst raw_buddy_try_merge.simps) (auto simp: ord)
      then show ?thesis using stop coal_done [OF less.prems(4)] False bb(2) by blast
    next
      case merge: True
      define lo where "lo = min b c"
      define hi where "hi = max b c"
      have lohi: "(b, c) = (lo, hi) \<or> (b, c) = (hi, lo)" "lo < hi" "{b} = {lo} \<or> {b} = {hi}"
        using c(3) by (auto simp: lo_def hi_def min_def max_def)
      have cb: "b = c XOR 2 ^ k" by (simp add: c_def xor.assoc)
      have hi: "hi = lo XOR 2 ^ k" using cb c_def by (auto simp: lo_def hi_def min_def max_def)
      have ks: "unat (od st lo) = k" "unat (od st hi) = k" "lo \<in> H" "hi \<in> H" "rf st lo = 0" "rf st hi = 0"
        using merge less.prems(2,3) c(1) by (auto simp: lo_def hi_def min_def max_def k_def)
      obtain st1 L1 where st1: "raw_buddy_merge b c st = Some (lo, st1)" "buddy_wf (H - {hi}) L1 st1"
        "rf st1 = (rf st)(hi := 1, lo := 0)" "od st1 = (od st)(lo := od st lo + 1)"
        using raw_buddy_merge_step [OF less.prems(1) ks(3,4,1,2) True ks(5,6) hi lohi(2,1)] by blast
      note v = merge_views [OF wf(2) ks(3,4,1,2) True ks(5,6) hi lohi(2) st1(3,4)]
      have od1: "unat (od st1 lo) = Suc k" using unat_inc [OF ks(1) True] by (simp add: st1(4))
      have "\<exists>st' H' L'. raw_buddy_try_merge lo st1 = Some st' \<and> buddy_wf H' L' st' \<and> coal H' st' {}
        \<and> fpages H' st' = fpages (H - {hi}) st1 \<and> held H' st' = held (H - {hi}) st1"
        using od1 True ks(3) lohi(2) st1(3) v(3) [OF lohi(3) less.prems(4)]
        by (intro less.hyps [OF _ st1(2)]) (auto simp: k_def [symmetric])
      moreover have "raw_buddy_try_merge b st = raw_buddy_try_merge lo st1"
        using True maxo bb(1) hd(1) c(4) merge less.prems(3) st1(1)
        by (subst raw_buddy_try_merge.simps) (simp add: ord)
      ultimately show ?thesis using v(1,2) by simp
    qed
  qed
qed

end
