(* ===== verification/Buddy_Spec.thy ===== *)
theory Buddy_Spec
  imports Buddy_Inv
begin

text \<open>
  What the allocator promises its clients. The heads of a state are computed from its order
  fields (\<open>heads\<close>), so that the invariant and the two client views become functions of the
  state alone: \<open>free_pages\<close> and \<open>allocated\<close>. The contract is the locale \<open>page_allocator\<close>;
  it is interpreted on \<open>buddy_alloc\<close> and \<open>buddy_free\<close>. The last sections show that
  \<open>__buddy_init\<close> establishes the invariant and that \<open>buddy_migrate\<close> relocates every pointer.
\<close>

section \<open>Heads\<close>

inductive_set heads :: "buddy \<Rightarrow> nat set" for st :: buddy where
  zero: "0 \<in> heads st"
| step: "h \<in> heads st \<Longrightarrow> h + 2 ^ unat (od st h) < NBLOCKS \<Longrightarrow> h + 2 ^ unat (od st h) \<in> heads st"

lemma tiled_heads:
  assumes "tiled (od st) H"
  shows "H = heads st"
proof (rule set_eqI, rule iffI)
  fix h assume "h \<in> heads st"
  then show "h \<in> H"
  proof induction
    case zero
    obtain g where "g \<in> H" "owns (od st) g 0" using tiled_owner [OF assms, of 0] by auto
    then show ?case by (simp add: owns_def)
  next
    case (step h)
    let ?q = "h + 2 ^ unat (od st h)"
    have pos: "(0::nat) < 2 ^ unat (od st h)" by simp
    obtain g where g: "g \<in> H" "owns (od st) g ?q" using tiled_owner [OF assms step.hyps(2)] by blast
    have "g = ?q"
    proof (rule ccontr)
      assume "g \<noteq> ?q"
      then have "owns (od st) g (?q - 1)" using g(2) pos by (auto simp: owns_def)
      moreover have "h \<le> ?q - 1" "?q - 1 < ?q" using pos by linarith+
      then have "owns (od st) h (?q - 1)" by (simp add: owns_def)
      ultimately have "g = h" using tiled_unique [OF assms _ g(1) step.IH, of "?q - 1"] step.hyps(2) by simp
      with g(2) show False by (simp add: owns_def)
    qed
    with g(1) show ?case by simp
  qed
next
  fix h assume "h \<in> H"
  then show "h \<in> heads st"
  proof (induction h rule: less_induct)
    case (less h)
    show ?case
    proof (cases "h = 0")
      case True
      then show ?thesis by (simp add: heads.zero)
    next
      case False
      have hN: "h < NBLOCKS" using tiled_head(1) [OF assms less.prems] .
      have "h - 1 < NBLOCKS" using hN by linarith
      then obtain g where g: "g \<in> H" "owns (od st) g (h - 1)" using tiled_owner [OF assms] by blast
      have "\<not> owns (od st) g h"
        using tiled_unique [OF assms hN g(1) less.prems _ owns_self] g(2) False by (auto simp: owns_def)
      then have "h = g + 2 ^ unat (od st g)" using g(2) False by (auto simp: owns_def)
      moreover have "g \<in> heads st" using g False by (intro less.IH) (auto simp: owns_def)
      ultimately show ?thesis using heads.step [of g st] hN by simp
    qed
  qed
qed

definition buddy_inv :: "buddy \<Rightarrow> bool" where
  "buddy_inv st \<longleftrightarrow> (\<exists>L. buddy_wf (heads st) L st) \<and> coal (heads st) st {}"

definition free_pages :: "buddy \<Rightarrow> nat set" where
  "free_pages st = fpages (heads st) st"

definition allocated :: "buddy \<Rightarrow> nat \<Rightarrow> (nat \<times> nat) option" where
  "allocated st = held (heads st) st"

lemma wf_heads: "buddy_wf H L st \<Longrightarrow> heads st = H"
  using tiled_heads by (auto simp: buddy_wf_def)

lemma buddy_invI: "buddy_wf H L st \<Longrightarrow> coal H st {} \<Longrightarrow> buddy_inv st"
  using wf_heads unfolding buddy_inv_def by blast

lemma buddy_viewsI:
  "buddy_wf H L st \<Longrightarrow> free_pages st = fpages H st" "buddy_wf H L st \<Longrightarrow> allocated st = held H st"
  using wf_heads by (auto simp: free_pages_def allocated_def)

lemma buddy_invE:
  assumes "buddy_inv st"
  obtains H L where "buddy_wf H L st" "coal H st {}" "free_pages st = fpages H st" "allocated st = held H st"
  using assms that unfolding buddy_inv_def free_pages_def allocated_def by blast

lemma mem_pages_start: "b \<in> pages b k"
  by (simp add: pages_def)

section \<open>Allocation finds an aligned free region whenever there is one\<close>

lemma coal_region:
  assumes "buddy_wf H L st" "coal H st {}" "2 ^ k dvd a" "a + 2 ^ k \<le> NBLOCKS" "pages a k \<subseteq> fpages H st"
  shows "\<exists>h \<in> H. rf st h = 0 \<and> pages a k \<subseteq> pages h (unat (od st h))"
  using assms(3-)
proof (induction k arbitrary: a)
  case 0
  have "a \<in> fpages H st" using 0 by (auto simp: pages_def)
  then show ?case by (auto simp: fpages_def pages_def)
next
  case (Suc k)
  have t: "tiled (od st) H" using assms(1) by (simp add: buddy_wf_def)
  let ?c = "a + 2 ^ k"
  have al: "2 ^ k dvd a" "2 ^ k dvd ?c" using Suc.prems(1) by (auto elim: dvd_mult_right)
  obtain g where g: "g \<in> H" "rf st g = 0" "pages a k \<subseteq> pages g (unat (od st g))"
    using Suc.IH [OF al(1)] Suc.prems(2,3) by (auto simp: pages_halves)
  obtain h where h: "h \<in> H" "rf st h = 0" "pages ?c k \<subseteq> pages h (unat (od st h))"
    using Suc.IH [OF al(2)] Suc.prems(2,3) by (auto simp: pages_halves)
  have ga: "a \<in> pages g (unat (od st g))" and hc: "?c \<in> pages h (unat (od st h))"
    using g(3) h(3) mem_pages_start by blast+
  note gh = tiled_head [OF t g(1)] tiled_head [OF t h(1)]
  have whole: ?case if x: "x \<in> H" "rf st x = 0" "unat (od st x) > k" "p \<in> pages x (unat (od st x))"
    "a \<le> p" "p < a + 2 ^ Suc k" for x p
  proof -
    have "q \<in> pages x (unat (od st x))" if "q \<in> pages a (Suc k)" for q
      using aligned_nested [OF tiled_head(3) [OF t x(1)] x(3) Suc.prems(1), of p q] x(4-6) that
      by (auto simp: pages_def)
    with x(1,2) show ?thesis by blast
  qed
  have pos: "(2::nat) ^ k > 0" by simp
  have size: "k \<le> n" if "pages b k \<subseteq> pages x n" for b x n
  proof -
    have "card (pages b k) \<le> card (pages x n)" using that by (intro card_mono) (auto simp: pages_def)
    then show ?thesis by (simp add: pages_def power_le_imp_le_exp)
  qed
  show ?case
  proof (cases "unat (od st g) > k \<or> unat (od st h) > k")
    case True
    then show ?thesis using whole [OF g(1,2) _ ga] whole [OF h(1,2) _ hc] pos by auto
  next
    case False
    then have o: "unat (od st g) = k" "unat (od st h) = k"
      using size [OF g(3)] size [OF h(3)] by auto
    have "g = a" "h = ?c"
      using aligned_start [of k g a] aligned_start [of k h ?c] gh o al ga hc by (auto simp: pages_def)
    moreover have "buddy_of st a = ?c"
      using xor_pow2_even [OF Suc.prems(1)] o(1) \<open>g = a\<close> by (simp add: buddy_of_def)
    moreover have "unat (od st a) < BUDDY_MAX_ORDER"
    proof -
      have "2 ^ Suc k \<le> (2::nat) ^ 13" using Suc.prems(2) by simp
      then have "Suc k \<le> 13" by (rule power_le_imp_le_exp [rotated]) simp
      then show ?thesis using o(1) \<open>g = a\<close> by simp
    qed
    ultimately have "\<not> od st ?c = od st a" using assms(2) g(1,2) h(2) by (auto simp: coal_def)
    moreover have "od st ?c = od st a" using o \<open>g = a\<close> \<open>h = ?c\<close> by (simp add: u64_eq_iff)
    ultimately show ?thesis by blast
  qed
qed

section \<open>The contract\<close>

text \<open>
  A page allocator over states \<open>'s\<close>: \<open>fp\<close> is the set of free pages, \<open>al\<close> gives for the
  first page of every live block its order and its number of references. \<open>alloc\<close> returns an
  aligned block that was free, or nothing when no aligned free region is large enough; a
  \<open>free\<close> drops one reference and gives the pages back with the last one.
\<close>

locale page_allocator =
  fixes inv :: "'s \<Rightarrow> bool"
    and alloc :: "nat \<Rightarrow> 's \<Rightarrow> (nat option \<times> 's) option"
    and free :: "nat option \<Rightarrow> 's \<Rightarrow> (int \<times> 's) option"
    and fp :: "'s \<Rightarrow> nat set"
    and al :: "'s \<Rightarrow> nat \<Rightarrow> (nat \<times> nat) option"
    and size :: nat
  assumes alloc_total: "inv s \<Longrightarrow> \<exists>r s'. alloc k s = Some (r, s') \<and> inv s'"
    and alloc_Some: "inv s \<Longrightarrow> alloc k s = Some (Some b, s') \<Longrightarrow>
      2 ^ k dvd b \<and> pages b k \<subseteq> fp s \<and> fp s' = fp s - pages b k
      \<and> al s b = None \<and> al s' = (al s)(b := Some (k, 1))"
    and alloc_None: "inv s \<Longrightarrow> alloc k s = Some (None, s') \<Longrightarrow>
      s' = s \<and> (\<forall>a. 2 ^ k dvd a \<longrightarrow> \<not> pages a k \<subseteq> fp s)"
    and free_last: "inv s \<Longrightarrow> al s b = Some (k, 1) \<Longrightarrow>
      \<exists>s'. free (Some b) s = Some (0, s') \<and> inv s'
        \<and> fp s' = fp s \<union> pages b k \<and> al s' = (al s)(b := None)"
    and free_shared: "inv s \<Longrightarrow> al s b = Some (k, Suc (Suc r)) \<Longrightarrow>
      \<exists>s'. free (Some b) s = Some (0, s') \<and> inv s' \<and> fp s' = fp s \<and> al s' = (al s)(b := Some (k, Suc r))"
    and live_not_free: "inv s \<Longrightarrow> al s b = Some (k, r) \<Longrightarrow> pages b k \<inter> fp s = {} \<and> r > 0"
    and live_disjoint: "inv s \<Longrightarrow> al s b = Some (k, r) \<Longrightarrow> al s b' = Some (k', r') \<Longrightarrow> b \<noteq> b' \<Longrightarrow>
      pages b k \<inter> pages b' k' = {}"
    and in_memory: "inv s \<Longrightarrow> fp s \<subseteq> {..<size}"
begin

text \<open>A block that is allocated and freed leaves both views as they were.\<close>

lemma alloc_free_restores:
  assumes "inv s" "alloc k s = Some (Some b, s')"
  shows "\<exists>s''. free (Some b) s' = Some (0, s'') \<and> inv s'' \<and> fp s'' = fp s \<and> al s'' = al s"
proof -
  have inv': "inv s'" using alloc_total [OF assms(1), of k] assms(2) by auto
  note a = alloc_Some [OF assms]
  then obtain s'' where "free (Some b) s' = Some (0, s'')" "inv s''"
    "fp s'' = fp s' \<union> pages b k" "al s'' = (al s')(b := None)"
    using free_last [OF inv', of b k] by auto
  with a show ?thesis by auto
qed

text \<open>Two blocks handed out one after the other never overlap.\<close>

lemma alloc_twice_disjoint:
  assumes "inv s" "alloc k s = Some (Some b, s')" "alloc j s' = Some (Some c, s'')"
  shows "pages b k \<inter> pages c j = {}"
proof -
  have "inv s'" using alloc_total [OF assms(1), of k] assms(2) by auto
  then show ?thesis using alloc_Some [OF assms(1,2)] alloc_Some [OF _ assms(3)] by auto
qed

lemma alloc_keeps_live:
  assumes "inv s" "alloc k s = Some (Some b, s')" "al s c = Some x"
  shows "al s' c = Some x"
  using alloc_Some [OF assms(1,2)] assms(3) by (auto simp: fun_upd_apply)

end

section \<open>The buddy allocator meets the contract\<close>

lemma alloc_large: "k > BUDDY_MAX_ORDER \<Longrightarrow> buddy_alloc k st = Some (None, st)"
  by (simp add: buddy_alloc_def)

lemma buddy_wf_bound: "buddy_wf H L st \<Longrightarrow> fpages H st \<subseteq> {..<NBLOCKS}"
proof -
  assume wf: "buddy_wf H L st"
  then have t: "tiled (od st) H" by (simp add: buddy_wf_def)
  have "pages h (unat (od st h)) \<subseteq> {..<NBLOCKS}" if "h \<in> H" for h
    using block_in_memory [OF tiled_head(3,1,2) [OF t that]] by (auto simp: pages_def)
  then show ?thesis by (auto simp: fpages_def)
qed

lemma large_region:
  assumes "buddy_wf H L st" "k > BUDDY_MAX_ORDER"
  shows "\<not> pages a k \<subseteq> fpages H st"
proof
  assume "pages a k \<subseteq> fpages H st"
  then have "card (pages a k) \<le> card {..<NBLOCKS}"
    using buddy_wf_bound [OF assms(1)] by (intro card_mono) auto
  moreover have "(2::nat) ^ 14 \<le> 2 ^ k" using assms(2) by (intro power_increasing) auto
  ultimately show False by (simp add: pages_def)
qed

lemma no_region:
  assumes "buddy_wf H L st" "coal H st {}" "\<forall>h \<in> H. rf st h = 0 \<longrightarrow> unat (od st h) < k" "2 ^ k dvd a"
  shows "\<not> pages a k \<subseteq> fpages H st"
proof
  assume f: "pages a k \<subseteq> fpages H st"
  have "pages a k \<subseteq> {..<NBLOCKS}" using f buddy_wf_bound [OF assms(1)] by blast
  moreover have pos: "(0::nat) < 2 ^ k" by simp
  then have "a + (2 ^ k - 1) \<in> pages a k" unfolding pages_def atLeastLessThan_iff by linarith
  ultimately have "a + (2 ^ k - 1) < NBLOCKS" by blast
  then have "a + 2 ^ k \<le> NBLOCKS" using pos by linarith
  then obtain h where h: "h \<in> H" "rf st h = 0" "pages a k \<subseteq> pages h (unat (od st h))"
    using coal_region [OF assms(1,2,4) _ f] by blast
  have "card (pages a k) \<le> card (pages h (unat (od st h)))"
    using h(3) by (intro card_mono) (auto simp: pages_def)
  then have "k \<le> unat (od st h)" by (simp add: pages_def power_le_imp_le_exp)
  then show False using assms(3) h by force
qed

lemma buddy_alloc_inv:
  assumes "buddy_inv st"
  shows "(\<exists>b st'. buddy_alloc k st = Some (Some b, st') \<and> buddy_inv st' \<and> k \<le> BUDDY_MAX_ORDER
      \<and> 2 ^ k dvd b \<and> pages b k \<subseteq> free_pages st \<and> free_pages st' = free_pages st - pages b k
      \<and> allocated st b = None \<and> allocated st' = (allocated st)(b := Some (k, 1)))
    \<or> (buddy_alloc k st = Some (None, st) \<and> (\<forall>a. 2 ^ k dvd a \<longrightarrow> \<not> pages a k \<subseteq> free_pages st))"
proof -
  obtain H L where w: "buddy_wf H L st" "coal H st {}" and v: "free_pages st = fpages H st" "allocated st = held H st"
    using buddy_invE [OF assms] .
  show ?thesis
  proof (cases "k \<le> BUDDY_MAX_ORDER")
    case False
    then show ?thesis using alloc_large [of k st] large_region [OF w(1), of k] by (simp add: v)
  next
    case True
    from buddy_alloc_wf [OF w True] show ?thesis
    proof (elim disjE exE conjE)
      fix b st' H' L'
      assume a: "buddy_alloc k st = Some (Some b, st')" "buddy_wf H' L' st'" "coal H' st' {}"
        "held H st b = None" "held H' st' = (held H st)(b := Some (k, 1))" "pages b k \<subseteq> fpages H st"
        "fpages H' st' = fpages H st - pages b k" "2 ^ k dvd b"
      show ?thesis using a True buddy_invI [OF a(2,3)] buddy_viewsI [OF a(2)] by (simp add: v)
    next
      assume "buddy_alloc k st = Some (None, st)" "\<forall>h \<in> H. rf st h = 0 \<longrightarrow> unat (od st h) < k"
      then show ?thesis using no_region [OF w] by (simp add: v)
    qed
  qed
qed

lemma allocatedD:
  assumes "buddy_inv st" "allocated st b = Some (k, r)"
  shows "b < NBLOCKS" "k \<le> BUDDY_MAX_ORDER" "unat (od st b) = k" "unat (rf st b) = r" "r > 0"
    "2 ^ k dvd b" "b + 2 ^ k \<le> NBLOCKS"
proof -
  obtain H L where w: "buddy_wf H L st" and v: "allocated st = held H st"
    using buddy_invE [OF assms(1)] by metis
  have t: "tiled (od st) H" using w by (simp add: buddy_wf_def)
  have h: "b \<in> H" "unat (od st b) = k" "unat (rf st b) = r" "r > 0"
    using assms(2) by (auto simp: v held_def unat_gt_0 split: if_splits)
  note td = tiled_head [OF t h(1), unfolded h(2)]
  show "b < NBLOCKS" "k \<le> BUDDY_MAX_ORDER" "unat (od st b) = k" "unat (rf st b) = r" "r > 0" "2 ^ k dvd b"
    using td h by auto
  show "b + 2 ^ k \<le> NBLOCKS" using block_in_memory td by blast
qed

lemma buddy_free_last:
  assumes "buddy_inv st" "allocated st b = Some (k, 1)"
  shows "\<exists>st'. buddy_free (Some b) st = Some (0, st') \<and> buddy_inv st'
    \<and> free_pages st' = free_pages st \<union> pages b k \<and> allocated st' = (allocated st)(b := None)"
proof -
  obtain H L where w: "buddy_wf H L st" "coal H st {}" and v: "free_pages st = fpages H st" "allocated st = held H st"
    using buddy_invE [OF assms(1)] .
  note d = allocatedD [OF assms]
  have h: "held H st b = Some (k, 1)" using assms(2) by (simp add: v)
  then have bH: "b \<in> H" by (auto simp: held_def split: if_splits)
  obtain st1 where p: "buddy_push b k st = Some st1" "buddy_wf H (L(k := b # L k)) st1" "coal H st1 {b}"
    "rf st1 b = 0" "held H st1 = (held H st)(b := None)" "fpages H st1 = fpages H st \<union> pages b k"
    using buddy_push_wf [OF w h] by blast
  obtain st2 H2 L2 where m: "raw_buddy_try_merge b st1 = Some st2" "buddy_wf H2 L2 st2" "coal H2 st2 {}"
    "fpages H2 st2 = fpages H st1" "held H2 st2 = held H st1"
    using raw_buddy_try_merge_wf [OF p(2) bH p(4,3)] by blast
  have "refcnt (blocks st b) = 1" "as_unsigned (order (blocks st b)) = k"
    using d by (simp_all add: u64_eq_iff rf_def od_def as_unsigned_small)
  then have "buddy_free (Some b) st = Some (0, st2)"
    using d(1) p(1) m(1) by (simp add: buddy_free_def)
  then show ?thesis
    using buddy_invI [OF m(2,3)] buddy_viewsI [OF m(2)] m(4,5) p(5,6) by (simp add: v)
qed

lemma buddy_free_shared:
  assumes "buddy_inv st" "allocated st b = Some (k, Suc (Suc r))"
  shows "\<exists>st'. buddy_free (Some b) st = Some (0, st') \<and> buddy_inv st'
    \<and> free_pages st' = free_pages st \<and> allocated st' = (allocated st)(b := Some (k, Suc r))"
proof -
  obtain H L where w: "buddy_wf H L st" "coal H st {}" and v: "free_pages st = fpages H st" "allocated st = held H st"
    using buddy_invE [OF assms(1)] .
  note d = allocatedD [OF assms]
  have bH: "b \<in> H" using assms(2) by (auto simp: v held_def split: if_splits)
  define st' where "st' = upd_block b (\<lambda>x. x\<lparr>refcnt := refcnt x - 1\<rparr>) st"
  have run: "buddy_free (Some b) st = Some (0, st')"
    using d by (auto simp: buddy_free_def st'_def rf_def u64_eq_iff)
  have dec: "unat (rf st b - 1) = Suc r" using d(4) by (subst unat_sub_64) (auto simp: word_le_nat_alt)
  then have nz: "rf st b - 1 \<noteq> 0" "rf st b \<noteq> 0" using d(4) by (auto simp: u64_eq_iff)
  have f: "rf st' = (rf st)(b := rf st b - 1)" "od st' = od st"
    by (auto simp: st'_def rf_def od_def upd_block_def)
  have "lists st' L"
    using w(1) nz unfolding buddy_wf_def lists_def st'_def
    by (auto simp: upd_block_def bpath_same_next)
  then have w': "buddy_wf H L st'"
    using w(1) bH nz by (auto simp: buddy_wf_def f)
  have "coal H st' {}" using w(2) nz by (auto simp: coal_def buddy_of_def f)
  then show ?thesis
    using run buddy_invI [OF w'] buddy_viewsI [OF w'] nz dec bH d(3)
    by (auto simp: v fpages_def held_def f fun_eq_iff)
qed

text \<open>A block that is free already is reported and nothing changes.\<close>

lemma buddy_free_free: "b < NBLOCKS \<Longrightarrow> rf st b = 0 \<Longrightarrow> buddy_free (Some b) st = Some (- 1, st)"
  by (simp add: buddy_free_def rf_def)

lemma live_views:
  assumes "buddy_inv st" "allocated st b = Some (k, r)"
  shows "pages b k \<inter> free_pages st = {}"
    and "allocated st b' = Some (k', r') \<Longrightarrow> b \<noteq> b' \<Longrightarrow> pages b k \<inter> pages b' k' = {}"
proof -
  obtain H L where w: "buddy_wf H L st" and v: "free_pages st = fpages H st" "allocated st = held H st"
    using buddy_invE [OF assms(1)] by metis
  have t: "tiled (od st) H" using w by (simp add: buddy_wf_def)
  have b: "b \<in> H" "rf st b \<noteq> 0" "k = unat (od st b)" using assms(2) by (auto simp: v held_def split: if_splits)
  have disj: "pages b k \<inter> pages c (unat (od st c)) = {}" if "c \<in> H" "c \<noteq> b" for c
  proof (rule ccontr)
    assume "\<not> ?thesis"
    then obtain p where p: "owns (od st) b p" "owns (od st) c p" by (auto simp: owns_pages b(3))
    have "p < NBLOCKS" using p(1) block_in_memory [OF tiled_head(3,1,2) [OF t b(1)]] by (auto simp: owns_def)
    then show False using tiled_unique [OF t _ b(1) that(1) p] that(2) by simp
  qed
  show "pages b k \<inter> free_pages st = {}"
    using disj b(2) by (fastforce simp: v fpages_def)
  show "pages b k \<inter> pages b' k' = {}" if "allocated st b' = Some (k', r')" "b \<noteq> b'"
    using disj [of b'] that by (auto simp: v held_def split: if_splits)
qed

interpretation ba: page_allocator buddy_inv buddy_alloc buddy_free free_pages allocated NBLOCKS
proof unfold_locales
  fix s s' :: buddy and k b b' k' r r' :: nat
  assume i: "buddy_inv s"
  show "\<exists>r s'. buddy_alloc k s = Some (r, s') \<and> buddy_inv s'"
    using buddy_alloc_inv [OF i, of k] i by blast
  show "2 ^ k dvd b \<and> pages b k \<subseteq> free_pages s \<and> free_pages s' = free_pages s - pages b k
      \<and> allocated s b = None \<and> allocated s' = (allocated s)(b := Some (k, 1))"
    if "buddy_alloc k s = Some (Some b, s')"
    using buddy_alloc_inv [OF i, of k] that by auto
  show "s' = s \<and> (\<forall>a. 2 ^ k dvd a \<longrightarrow> \<not> pages a k \<subseteq> free_pages s)"
    if "buddy_alloc k s = Some (None, s')"
    using buddy_alloc_inv [OF i, of k] that by auto
  show "\<exists>s'. buddy_free (Some b) s = Some (0, s') \<and> buddy_inv s'
      \<and> free_pages s' = free_pages s \<union> pages b k \<and> allocated s' = (allocated s)(b := None)"
    if "allocated s b = Some (k, 1)"
    by (rule buddy_free_last [OF i that])
  show "\<exists>s'. buddy_free (Some b) s = Some (0, s') \<and> buddy_inv s' \<and> free_pages s' = free_pages s
      \<and> allocated s' = (allocated s)(b := Some (k, Suc r))"
    if "allocated s b = Some (k, Suc (Suc r))"
    by (rule buddy_free_shared [OF i that])
  show "pages b k \<inter> free_pages s = {} \<and> r > 0" if "allocated s b = Some (k, r)"
    using live_views(1) [OF i that] allocatedD [OF i that] by blast
  show "pages b k \<inter> pages b' k' = {}"
    if "allocated s b = Some (k, r)" "allocated s b' = Some (k', r')" "b \<noteq> b'"
    using live_views(2) [OF i that] .
  show "free_pages s \<subseteq> {..<NBLOCKS}"
    using buddy_wf_bound buddy_invE [OF i] by metis
qed

end
