(* ===== verification/Buddy_Init.thy ===== *)
theory Buddy_Init
  imports Buddy_Spec
begin

text \<open>
  Bringing the allocator up: \<open>__buddy_init\<close> and \<open>buddy_reset\<close> establish the invariant and
  free exactly the pages between the end of the kernel image and the kernel stack. Page
  numbers and blocks are in bijection over physical memory.
\<close>

section \<open>Page numbers and blocks\<close>

lemma phys2block_page:
  assumes "i < NBLOCKS" "r < 4096"
  shows "phys2block (PHYS_MEM_START + of_nat (4096 * i + r)) = i"
proof -
  have "unat (of_nat (4096 * i + r) :: u64) = 4096 * i + r"
    using assms by (intro unat_of_nat_64) simp
  then show ?thesis using assms(2) by (simp add: phys2block_def unat_drop_bit_64)
qed

lemma ppn2block_block2ppn: "b < NBLOCKS \<Longrightarrow> ppn2block (block2ppn b) = Some b"
  by (simp add: ppn2block_def block2ppn_def phys2ppn_def word_less_nat_alt word_le_nat_alt
      unat_add_64 unat_of_nat_64 unat_drop_bit_64)

lemma block2ppn_ppn2block: "ppn2block ppn = Some b \<Longrightarrow> block2ppn b = ppn \<and> b < NBLOCKS"
  by (auto simp: ppn2block_def block2ppn_def phys2ppn_def word_less_nat_alt word_le_nat_alt
      unat_sub_64 unat_drop_bit_64 not_less split: if_splits)

section \<open>The state before the first page is freed\<close>

definition all_used :: "buddy \<Rightarrow> bool" where
  "all_used st \<longleftrightarrow> (\<forall>k \<le> BUDDY_MAX_ORDER. free_lists st k = None)
     \<and> (\<forall>b < NBLOCKS. rf st b = 1 \<and> od st b = 0)"

lemma all_used_wf:
  assumes "all_used st"
  shows "buddy_wf {..<NBLOCKS} (\<lambda>k. []) st" "coal {..<NBLOCKS} st {}"
proof -
  have "tiled (od st) {..<NBLOCKS}"
    using assms by (auto simp: tiled_def owns_def all_used_def)
  then show "buddy_wf {..<NBLOCKS} (\<lambda>k. []) st"
    using assms by (auto simp: buddy_wf_def lists_def all_used_def)
  show "coal {..<NBLOCKS} st {}" using assms by (auto simp: coal_def all_used_def)
qed

definition init_view :: "nat \<Rightarrow> nat \<Rightarrow> nat \<Rightarrow> (nat \<times> nat) option" where
  "init_view lo hi b = (if b < NBLOCKS \<and> \<not> (lo \<le> b \<and> b < hi) then Some (0, 1) else None)"

lemma all_used_views:
  assumes "all_used st"
  shows "buddy_inv st" "free_pages st = {}" "allocated st = init_view n n"
proof -
  note w = all_used_wf [OF assms]
  show "buddy_inv st" by (rule buddy_invI [OF w])
  show "free_pages st = {}" "allocated st = init_view n n"
    using assms by (auto simp: buddy_viewsI [OF w(1)] fpages_def held_def all_used_def init_view_def fun_eq_iff)
qed

section \<open>Freeing memory\<close>

abbreviation (input) page_addr :: "nat \<Rightarrow> nat \<Rightarrow> u64" where
  "page_addr i r \<equiv> PHYS_MEM_START + of_nat (4096 * i + r)"

lemma page_addr_next: "page_addr i r + 0x1000 = page_addr (Suc i) r"
  by simp

lemma page_addr_less:
  assumes "i \<le> 8191" "r < 4096"
  shows "page_addr i r < PHYS_MEM_END - PHYS_MEM_KERNEL_STACK_SIZE \<longleftrightarrow> i < 8191"
proof -
  have u: "unat (of_nat (4096 * i + r) :: u64) = 4096 * i + r"
    using assms by (intro unat_of_nat_64) simp
  have "unat (page_addr i r) = 0x80000000 + 4096 * i + r"
    using assms by (subst unat_add_64) (simp_all only: u, simp_all)
  then show ?thesis using assms by (simp add: word_less_nat_alt) arith
qed

lemma raw_buddy_init_loop_inv:
  assumes "buddy_inv st" "free_pages st = {n..<i}" "allocated st = init_view n i" "n \<le> i" "i \<le> 8191" "r < 4096"
  shows "\<exists>st'. raw_buddy_init_loop (page_addr i r) st = Some st' \<and> buddy_inv st'
    \<and> free_pages st' = {n..<8191} \<and> allocated st' = init_view n 8191"
  using assms(1-5)
proof (induction "8191 - i" arbitrary: i st)
  case 0
  then have i: "i = 8191" by simp
  have "raw_buddy_init_loop (page_addr i r) st = Some st"
    using page_addr_less [of i r] assms(6) i by (subst raw_buddy_init_loop.simps) simp
  then show ?case using 0 i by auto
next
  case (Suc m)
  then have i: "i < 8191" by simp
  have "allocated st i = Some (0, 1)" using Suc.prems(3) i by (simp add: init_view_def)
  then obtain st1 where st1: "buddy_free (Some i) st = Some (0, st1)" "buddy_inv st1"
    "free_pages st1 = free_pages st \<union> pages i 0" "allocated st1 = (allocated st)(i := None)"
    using buddy_free_last [OF Suc.prems(1)] by blast
  have "raw_buddy_init_loop (page_addr i r) st = raw_buddy_init_loop (page_addr (Suc i) r) st1"
    unfolding page_addr_next [symmetric]
    using page_addr_less [of i r] assms(6) i st1(1) phys2block_page [of i r]
    by (subst raw_buddy_init_loop.simps) (simp del: of_nat_add of_nat_mult)
  moreover have "free_pages st1 = {n..<Suc i}" "allocated st1 = init_view n (Suc i)"
    using st1(3,4) Suc.prems(2-4) by (auto simp: pages_def init_view_def fun_eq_iff)
  ultimately show ?case
    using Suc.hyps(1) [of "Suc i" st1] Suc.hyps(2) Suc.prems(4) i st1(2) by simp
qed

text \<open>The linker places \<open>phys_base\<close> behind the kernel image and before the stack.\<close>

lemma raw_buddy_init_inv:
  assumes "\<forall>k \<le> BUDDY_MAX_ORDER. free_lists st k = None"
    and "PHYS_MEM_START \<le> base" "base < PHYS_MEM_END - PHYS_MEM_KERNEL_STACK_SIZE"
  shows "\<exists>st'. raw_buddy_init base st = Some st' \<and> buddy_inv st'
    \<and> free_pages st' = {unat (base - PHYS_MEM_START) div 4096..<8191}
    \<and> allocated st' = init_view (unat (base - PHYS_MEM_START) div 4096) 8191"
proof -
  define d where "d = unat (base - PHYS_MEM_START)"
  define st0 where "st0 = st\<lparr>blocks := (\<lambda>i. if i < NBLOCKS then \<lparr>refcnt = 1, order = 0, bnext = None\<rparr> else blocks st i)\<rparr>"
  have "all_used st0" using assms(1) by (auto simp: all_used_def st0_def rf_def od_def)
  note v = all_used_views [OF this]
  have "d = unat base - 0x80000000"
    using assms(2) by (simp add: d_def unat_sub_64 word_le_nat_alt)
  then have "d < 4096 * 8191" using assms(3) by (simp add: word_less_nat_alt)
  then have dn: "d div 4096 \<le> 8191" by simp
  have "base = PHYS_MEM_START + of_nat d" by (simp add: d_def)
  then have "base = page_addr (d div 4096) (d mod 4096)" by (simp only: mult_div_mod_eq)
  moreover have "raw_buddy_init base st = raw_buddy_init_loop base st0"
    by (simp add: raw_buddy_init_def st0_def)
  ultimately show ?thesis
    using raw_buddy_init_loop_inv [OF v(1) _ v(3) [of "d div 4096"] _ dn, of "d mod 4096"] v(2)
    by (simp del: of_nat_add of_nat_mult add: d_def)
qed

lemma buddy_reset_inv:
  assumes "PHYS_MEM_START \<le> base" "base < PHYS_MEM_END - PHYS_MEM_KERNEL_STACK_SIZE"
  shows "\<exists>st'. buddy_reset base st = Some st' \<and> buddy_inv st'
    \<and> free_pages st' = {unat (base - PHYS_MEM_START) div 4096..<8191}
    \<and> allocated st' = init_view (unat (base - PHYS_MEM_START) div 4096) 8191"
  unfolding buddy_reset_def by (intro raw_buddy_init_inv assms) simp

section \<open>A freed block that was merged into its buddy can be freed again\<close>

definition used_state :: buddy where
  "used_state = \<lparr>free_lists = (\<lambda>_. None), blocks = (\<lambda>_. \<lparr>refcnt = 1, order = 0, bnext = None\<rparr>)\<rparr>"

lemma used_state_inv: "all_used used_state"
  by (simp add: all_used_def used_state_def rf_def od_def)

lemmas run_simps = buddy_free_def buddy_push_def upd_block_def set_list_def as_unsigned_def is_block_free_def
  raw_buddy_merge_def block2buddy_def buddy_remove_def buddy_pop_def raw_buddy_try_merge.simps
  buddy_remove_loop.simps fun_upd_twist

definition freed01 :: buddy where
  "freed01 = \<lparr>free_lists = [1 \<mapsto> 0], blocks = (\<lambda>_. \<lparr>refcnt = 1, order = 0, bnext = None\<rparr>)
     (0 := \<lparr>refcnt = 0, order = 1, bnext = None\<rparr>)\<rparr>"

lemma free_0: "buddy_free (Some 0) used_state = Some (0, \<lparr>free_lists = [0 \<mapsto> 0],
    blocks = (\<lambda>_. \<lparr>refcnt = 1, order = 0, bnext = None\<rparr>)(0 := \<lparr>refcnt = 0, order = 0, bnext = None\<rparr>)\<rparr>)"
  by (simp add: used_state_def run_simps)

lemma free_01: "buddy_free (Some 1) \<lparr>free_lists = [0 \<mapsto> 0],
    blocks = (\<lambda>_. \<lparr>refcnt = 1, order = 0, bnext = None\<rparr>)(0 := \<lparr>refcnt = 0, order = 0, bnext = None\<rparr>)\<rparr>
   = Some (0, freed01)"
  apply (simp add: used_state_def run_simps)
  apply (simp add: freed01_def fun_eq_iff)
  done

lemma free_011: "buddy_free (Some 1) freed01 = Some (0, freed01\<lparr>free_lists := [0 \<mapsto> 1, 1 \<mapsto> 0],
  blocks := (blocks freed01)(1 := \<lparr>refcnt = 0, order = 0, bnext = None\<rparr>)\<rparr>)"
  by (simp add: freed01_def run_simps)

lemma alloc_0: "buddy_alloc 0 (freed01\<lparr>free_lists := [0 \<mapsto> 1, 1 \<mapsto> 0],
    blocks := (blocks freed01)(1 := \<lparr>refcnt = 0, order = 0, bnext = None\<rparr>)\<rparr>)
  = Some (Some 1, freed01)"
  apply (simp add: freed01_def buddy_alloc_def raw_buddy_find_smallest_free_order.simps is_list_empty_def buddy_split.simps buddy_pop_def
     run_simps)
  apply (auto simp: fun_eq_iff)
  done

lemma alloc_1: "buddy_alloc 1 freed01 = Some (Some 0, freed01\<lparr>free_lists := Map.empty,
    blocks := (blocks freed01)(0 := \<lparr>refcnt = 1, order = 1, bnext = None\<rparr>)\<rparr>)"
  by (simp add: freed01_def buddy_alloc_def raw_buddy_find_smallest_free_order.simps is_list_empty_def
      buddy_split.simps buddy_pop_def run_simps)

text \<open>(C36) Double frees are not always detected. A block that was merged into its lower buddy keeps
  the reference count 1, so freeing it a second time returns 0 instead of -1, and two later
  allocations receive overlapping blocks.\<close>
theorem merged_double_free:
  "\<exists>s s1 s2 s3 s4. buddy_inv s \<and> allocated s 1 = Some (0, 1)
     \<and> buddy_free (Some 1) s = Some (0, s1) \<and> buddy_inv s1 \<and> 1 \<in> free_pages s1
     \<and> buddy_free (Some 1) s1 = Some (0, s2)
     \<and> buddy_alloc 0 s2 = Some (Some 1, s3) \<and> buddy_alloc 1 s3 = Some (Some 0, s4)
     \<and> pages 1 0 \<subseteq> pages 0 1"
proof -
  note u = all_used_views [OF used_state_inv]
  obtain s where s: "buddy_free (Some 0) used_state = Some (0, s)" "buddy_inv s"
    "allocated s = (allocated used_state)(0 := None)"
    using buddy_free_last [OF u(1), of 0 0] u(3) [of 0] by (auto simp: init_view_def)
  have a: "allocated s 1 = Some (0, 1)" using s(3) u(3) [of 0] by (simp add: init_view_def)
  obtain s1 where s1: "buddy_free (Some 1) s = Some (0, s1)" "buddy_inv s1"
    "free_pages s1 = free_pages s \<union> pages 1 0"
    using buddy_free_last [OF s(2) a] by blast
  have "s1 = freed01" using s(1) s1(1) free_0 free_01 by simp
  moreover have "pages 1 0 \<subseteq> pages 0 1" by (auto simp: pages_def)
  ultimately show ?thesis
    using s(2) a s1 free_011 alloc_0 alloc_1 by (fastforce simp: pages_def)
qed

end
