(* ===== verification/Buddy_Migrate.thy ===== *)
theory Buddy_Migrate
  imports Buddy_Init Util
begin

text \<open>
  The operations of \<^verbatim>\<open>buddy.c\<close> that work on the pointers themselves: \<open>buddy_migrate\<close>, which
  shifts every pointer when the kernel moves to the high half, and \<open>buddy_print_status\<close>.
  \<open>ptrs_inside\<close> (every pointer of the two arrays points into \<open>buddy_blocks\<close>) holds in every
  state \<open>buddy_reach\<close> reaches, together with the invariant.
\<close>

section \<open>Moving to the high half\<close>

text \<open>
  \<open>buddy_migrate\<close> works on the pointers themselves. \<open>pfree_lists\<close> and \<open>pnext\<close> are the pointer
  words of the two arrays; \<open>rendering base st\<close> holds the words that represent \<open>st\<close> when
  \<open>buddy_blocks\<close> is addressed at \<open>base\<close>.
\<close>

record buddy_ptrs =
  pfree_lists :: "nat \<Rightarrow> u64"
  pnext :: "nat \<Rightarrow> u64"

function migrate_lists_loop :: "nat \<Rightarrow> u64 \<Rightarrow> buddy_ptrs \<Rightarrow> buddy_ptrs" where
  "migrate_lists_loop i offset m =
     (if i < BUDDY_MAX_ORDER + 1 then
        migrate_lists_loop (i + 1) offset
          (if pfree_lists m i = NULL then m
           else m\<lparr>pfree_lists := (pfree_lists m)(i := pfree_lists m i + offset)\<rparr>)
      else m)"
  by pat_completeness auto
termination
  by (relation "measure (\<lambda>(i, _). 14 - i)") auto

function migrate_blocks_loop :: "nat \<Rightarrow> u64 \<Rightarrow> buddy_ptrs \<Rightarrow> buddy_ptrs" where
  "migrate_blocks_loop i offset m =
     (if i < NBLOCKS then
        migrate_blocks_loop (i + 1) offset
          (if pnext m i \<noteq> NULL then m\<lparr>pnext := (pnext m)(i := pnext m i + offset)\<rparr> else m)
      else m)"
  by pat_completeness auto
termination
  by (relation "measure (\<lambda>(i, _). NBLOCKS - i)") auto

declare migrate_lists_loop.simps [simp del] migrate_blocks_loop.simps [simp del]

definition buddy_migrate :: "u64 \<Rightarrow> buddy_ptrs \<Rightarrow> buddy_ptrs" where
  "buddy_migrate offset m = migrate_blocks_loop 0 offset (migrate_lists_loop 0 offset m)"

definition shift :: "u64 \<Rightarrow> u64 \<Rightarrow> u64" where
  "shift offset p = (if p = NULL then NULL else p + offset)"

lemma migrate_lists_loop_apply:
  "migrate_lists_loop i offset m =
     m\<lparr>pfree_lists := (\<lambda>j. if i \<le> j \<and> j \<le> BUDDY_MAX_ORDER then shift offset (pfree_lists m j) else pfree_lists m j)\<rparr>"
proof (induction i offset m rule: migrate_lists_loop.induct)
  case (1 i offset m)
  show ?case
  proof (cases "i < BUDDY_MAX_ORDER + 1")
    case True
    then show ?thesis
      by (subst migrate_lists_loop.simps, simp only: 1 [OF True])
        (auto simp: shift_def fun_eq_iff not_less_eq_eq dest: le_antisym intro!: buddy_ptrs.equality)
  next
    case False
    then show ?thesis
      by (subst migrate_lists_loop.simps) (auto simp: fun_eq_iff intro!: buddy_ptrs.equality)
  qed
qed

lemma migrate_blocks_loop_apply:
  "migrate_blocks_loop i offset m =
     m\<lparr>pnext := (\<lambda>j. if i \<le> j \<and> j < NBLOCKS then shift offset (pnext m j) else pnext m j)\<rparr>"
proof (induction i offset m rule: migrate_blocks_loop.induct)
  case (1 i offset m)
  show ?case
  proof (cases "i < NBLOCKS")
    case True
    then show ?thesis
      by (subst migrate_blocks_loop.simps, simp only: 1 [OF True])
        (auto simp: shift_def fun_eq_iff not_less_eq_eq dest: le_antisym intro!: buddy_ptrs.equality)
  next
    case False
    then show ?thesis
      by (subst migrate_blocks_loop.simps) (auto simp: fun_eq_iff intro!: buddy_ptrs.equality)
  qed
qed

definition block_ptr :: "u64 \<Rightarrow> nat option \<Rightarrow> u64" where
  "block_ptr base p = (case p of None \<Rightarrow> NULL | Some b \<Rightarrow> base + 24 * of_nat b)"

definition renders :: "u64 \<Rightarrow> buddy \<Rightarrow> buddy_ptrs \<Rightarrow> bool" where
  "renders base st m \<longleftrightarrow>
     (\<forall>k \<le> BUDDY_MAX_ORDER. pfree_lists m k = block_ptr base (free_lists st k))
     \<and> (\<forall>b < NBLOCKS. pnext m b = block_ptr base (bnext (blocks st b)))"

text \<open>The pointers of a state stay inside \<open>buddy_blocks\<close>.\<close>

definition ptrs_inside :: "buddy \<Rightarrow> bool" where
  "ptrs_inside st \<longleftrightarrow> (\<forall>k \<le> BUDDY_MAX_ORDER. \<forall>b. free_lists st k = Some b \<longrightarrow> b < NBLOCKS)
     \<and> (\<forall>b < NBLOCKS. \<forall>c. bnext (blocks st b) = Some c \<longrightarrow> c < NBLOCKS)"

lemma shift_block_ptr:
  assumes "unat base + 24 * NBLOCKS \<le> 2 ^ 64" "base \<noteq> 0" "\<And>b. p = Some b \<Longrightarrow> b < NBLOCKS"
  shows "shift offset (block_ptr base p) = block_ptr (base + offset) p"
proof (cases p)
  case (Some b)
  then have b: "b < NBLOCKS" using assms(3) by blast
  have "unat (24 * of_nat b :: u64) = 24 * b"
    using unat_of_nat_64 [of "24 * b"] b by simp
  then have "unat (base + 24 * of_nat b) = unat base + 24 * b"
    using assms(1) b by (subst unat_add_64) auto
  moreover have "unat base > 0" using assms(2) by (simp add: unat_gt_0)
  ultimately have "base + 24 * of_nat b \<noteq> 0" by (metis add_gr_0 less_numeral_extra(3) unat_0)
  then show ?thesis using Some by (simp add: shift_def block_ptr_def)
qed (simp add: shift_def block_ptr_def)

lemma buddy_migrate_renders:
  assumes "renders base st m" "ptrs_inside st" "base \<noteq> 0" "unat base + 24 * NBLOCKS \<le> 2 ^ 64"
  shows "renders (base + offset) st (buddy_migrate offset m)"
  using assms by (auto simp: renders_def ptrs_inside_def buddy_migrate_def migrate_lists_loop_apply
      migrate_blocks_loop_apply shift_block_ptr)

section \<open>Printing the free lists\<close>

text \<open>
  \<open>buddy_print_status\<close> means to count the blocks of every list, but its loop tests
  \<open>block->next\<close> without advancing \<open>block\<close>.
\<close>

partial_function (option) count_free_loop :: "buddy \<Rightarrow> nat \<Rightarrow> u64 \<Rightarrow> u64 option" where
  "count_free_loop st b free_blocks =
     (if \<not> b < NBLOCKS then None
      else if bnext (blocks st b) \<noteq> None then count_free_loop st b (free_blocks + 1)
      else Some (free_blocks + 1))"

function print_status_loop :: "nat \<Rightarrow> buddy \<Rightarrow> uart \<Rightarrow> uart option" where
  "print_status_loop i st out =
     (if i < BUDDY_MAX_ORDER + 1 then
        do { out \<leftarrow> printptr (of_nat i) 10 out;
             free_blocks \<leftarrow> (case free_lists st i of None \<Rightarrow> Some 0 | Some b \<Rightarrow> count_free_loop st b 0);
             out \<leftarrow> printptr free_blocks 10 out;
             out \<leftarrow> raw_printstr (at_array (replicate 16 45 @ [10, 0]) 0) out;
             print_status_loop (i + 1) st out }
      else Some out)"
  by pat_completeness auto
termination
  by (relation "measure (\<lambda>(i, _). 14 - i)") auto

definition buddy_print_status :: "buddy \<Rightarrow> uart \<Rightarrow> uart option" where
  "buddy_print_status st out = print_status_loop 0 st out"


declare print_status_loop.simps [simp del]

lemma count_free_loop_stuck:
  assumes "bnext (blocks st b) \<noteq> None"
  shows "count_free_loop st b n = None"
proof (rule ccontr)
  assume "count_free_loop st b n \<noteq> None"
  then obtain r where "count_free_loop st b n = Some r" by blast
  then have "bnext (blocks st b) = None"
  proof (induction rule: count_free_loop.raw_induct [rotated 1, consumes 1])
    case (1 f st b n r)
    then show ?case by (auto split: if_splits)
  qed
  with assms show False by simp
qed


section \<open>Pointers stay inside the block array\<close>

lemma ptrs_inside_upd:
  "ptrs_inside st \<Longrightarrow> (case bnext (f (blocks st b)) of None \<Rightarrow> True | Some c \<Rightarrow> c < NBLOCKS) \<Longrightarrow>
     ptrs_inside (upd_block b f st)"
  by (auto simp: ptrs_inside_def buddy_upd split: option.splits)

lemma ptrs_inside_next: "ptrs_inside st \<Longrightarrow> b < NBLOCKS \<Longrightarrow>
    (case bnext (blocks st b) of None \<Rightarrow> True | Some c \<Rightarrow> c < NBLOCKS)"
  by (auto simp: ptrs_inside_def split: option.splits)

lemma ptrs_inside_set_list:
  "ptrs_inside st \<Longrightarrow> (case p of None \<Rightarrow> True | Some c \<Rightarrow> c < NBLOCKS) \<Longrightarrow> ptrs_inside (set_list k p st)"
  by (auto simp: ptrs_inside_def buddy_upd split: option.splits)

lemma ensure_bind [simp]: "(ensure P \<bind> f = Some x) \<longleftrightarrow> P \<and> f () = Some x"
  by (simp add: ensure_def)

lemma ptrs_inside_push: "ptrs_inside st \<Longrightarrow> buddy_push b k st = Some st' \<Longrightarrow> ptrs_inside st'"
  by (auto simp: buddy_push_def ptrs_inside_def buddy_upd split: if_splits)

lemma ptrs_inside_pop: "ptrs_inside st \<Longrightarrow> buddy_pop k st = Some (p, st') \<Longrightarrow> ptrs_inside st'"
  by (auto simp: buddy_pop_def ptrs_inside_def buddy_upd split: option.splits if_splits)

lemma buddy_remove_loop_bound:
  assumes "buddy_remove_loop st b t p = Some r"
  shows "t < NBLOCKS \<and> fst r < NBLOCKS \<and> (snd r \<noteq> p \<longrightarrow> b < NBLOCKS)"
  using assms
proof (induction rule: buddy_remove_loop.raw_induct [rotated 1, consumes 1])
  case (1 f st b t p r)
  show ?case
  proof (cases "bnext (blocks st t)")
    case None
    then show ?thesis using 1(2) by (auto split: if_splits)
  next
    case (Some nx)
    then have "t < NBLOCKS" "f st b nx (if nx = b then Some t else p) = Some r"
      using 1(2) by (auto split: if_splits)
    then show ?thesis using 1(1) by (fastforce split: if_splits)
  qed
qed

lemma ptrs_inside_remove:
  assumes "ptrs_inside st" "buddy_remove b k st = Some (p, st')"
  shows "ptrs_inside st'"
proof -
  have k: "k \<le> BUDDY_MAX_ORDER" using assms(2) by (auto simp: buddy_remove_def)
  show ?thesis
  proof (cases "free_lists st k")
    case None
    then show ?thesis using assms by (auto simp: buddy_remove_def)
  next
    case (Some hd)
    have hd: "hd < NBLOCKS" using Some assms(1) k by (auto simp: ptrs_inside_def)
    consider "buddy_pop k st = Some (p, st')" | "st' = st"
      | t q where "buddy_remove_loop st b hd None = Some (t, Some q)"
        "buddy_pop k (upd_block t (\<lambda>x. x\<lparr>bnext := Some hd\<rparr>)
           (upd_block q (\<lambda>x. x\<lparr>bnext := None\<rparr>) (set_list k (Some b) st))) = Some (p, st')"
      using assms(2) Some by (auto simp: buddy_remove_def split: if_splits option.splits Option.bind_splits)
    then show ?thesis
    proof cases
      case 3
      have "b < NBLOCKS" using buddy_remove_loop_bound [OF 3(1)] by simp
      then show ?thesis
        using assms(1) hd by (intro ptrs_inside_pop [OF _ 3(2)] ptrs_inside_upd ptrs_inside_set_list) auto
    qed (use assms(1) ptrs_inside_pop in auto)
  qed
qed

lemma ptrs_inside_order: "ptrs_inside (upd_block b (\<lambda>x. x\<lparr>order := g x\<rparr>) st) \<longleftrightarrow> ptrs_inside st"
  by (auto simp: ptrs_inside_def buddy_upd split: if_splits)

lemma ptrs_inside_refcnt: "ptrs_inside (upd_block b (\<lambda>x. x\<lparr>refcnt := g x\<rparr>) st) \<longleftrightarrow> ptrs_inside st"
  by (auto simp: ptrs_inside_def buddy_upd split: if_splits)

lemma ptrs_inside_merge:
  assumes "ptrs_inside st" "raw_buddy_merge b c st = Some (d, st')"
  shows "ptrs_inside st'"
proof -
  obtain lo hi where "(if c < b then (c, b) else (b, c)) = (lo, hi)" by (metis surj_pair)
  then obtain k st1 r1 st2 r2 where st1: "buddy_remove hi k st = Some (r1, st1)"
    and st2: "buddy_remove lo k st1 = Some (r2, st2)"
    and st': "buddy_push lo (as_unsigned (order (blocks st2 lo) + 1))
        (upd_block lo (\<lambda>x. x\<lparr>order := order x + 1\<rparr>) st2) = Some st'"
    using assms(2) by (auto simp: raw_buddy_merge_def Let_def bind_eq_Some_conv buddy_upd)
  have "ptrs_inside st2" using ptrs_inside_remove st1 st2 assms(1) by blast
  then show ?thesis using ptrs_inside_push [OF _ st'] by (simp add: ptrs_inside_order)
qed

lemma ptrs_inside_try_merge:
  assumes "raw_buddy_try_merge b st = Some st'"
  shows "ptrs_inside st \<longrightarrow> ptrs_inside st'"
  using assms
proof (induction rule: raw_buddy_try_merge.raw_induct [rotated 1, consumes 1])
  case (1 f b st st')
  then show ?case
    by (auto simp: bind_eq_Some_conv split: if_splits dest: ptrs_inside_merge)
qed

lemma ptrs_inside_free: "ptrs_inside st \<Longrightarrow> buddy_free p st = Some (r, st') \<Longrightarrow> ptrs_inside st'"
  by (auto simp: buddy_free_def bind_eq_Some_conv ptrs_inside_refcnt split: if_splits
      dest: ptrs_inside_push ptrs_inside_try_merge)

lemma ptrs_inside_raw_split:
  assumes "ptrs_inside st" "raw_buddy_split k st = Some (r, st')"
  shows "ptrs_inside st'"
proof -
  consider "st' = st" | p where "buddy_pop k st = Some (p, st')"
    | b c st1 st2 j where "buddy_pop k st = Some (Some b, st1)"
      "buddy_push b j (upd_block b (\<lambda>x. x\<lparr>order := order x - 1\<rparr>) st1) = Some st2"
      "buddy_push c (as_unsigned (order (blocks st2 b))) st2 = Some st'"
    using assms(2) by (auto simp: raw_buddy_split_def Let_def bind_eq_Some_conv split: if_splits option.splits)
  then show ?thesis
  proof cases
    case 3
    then show ?thesis
      using ptrs_inside_pop [OF assms(1) 3(1)] ptrs_inside_push [OF _ 3(2)] ptrs_inside_push [OF _ 3(3)]
      by (simp add: ptrs_inside_order)
  qed (use assms(1) ptrs_inside_pop in auto)
qed

lemma ptrs_inside_split: "ptrs_inside st \<Longrightarrow> buddy_split i d st = Some (r, st') \<Longrightarrow> ptrs_inside st'"
proof (induction i d st rule: buddy_split.induct)
  case (1 i d st)
  show ?case
  proof (cases "i > d")
    case True
    then obtain r1 st1 where "raw_buddy_split i st = Some (r1, st1)"
      "if r1 \<noteq> 0 then st' = st1 else buddy_split (i - 1) d st1 = Some (r, st')"
      using 1(3) by (subst (asm) buddy_split.simps) (auto simp: bind_eq_Some_conv split: if_splits)
    then show ?thesis using 1(1) [OF True] ptrs_inside_raw_split [OF 1(2)] by (auto split: if_splits)
  next
    case False
    then show ?thesis using 1(2,3) by (subst (asm) buddy_split.simps) simp
  qed
qed

lemma ptrs_inside_alloc: "ptrs_inside st \<Longrightarrow> buddy_alloc k st = Some (p, st') \<Longrightarrow> ptrs_inside st'"
  by (auto simp: buddy_alloc_def Let_def bind_eq_Some_conv split: if_splits
      dest: ptrs_inside_split ptrs_inside_pop)


text \<open>The states that \<open>__buddy_init\<close> and any sequence of calls reach.\<close>

inductive_set buddy_reach :: "u64 \<Rightarrow> buddy set" for base :: u64 where
  init: "raw_buddy_init base \<lparr>free_lists = (\<lambda>_. None), blocks = (\<lambda>_. \<lparr>refcnt = 0, order = 0, bnext = None\<rparr>)\<rparr> = Some st
    \<Longrightarrow> st \<in> buddy_reach base"
| alloc: "st \<in> buddy_reach base \<Longrightarrow> buddy_alloc k st = Some (p, st') \<Longrightarrow> st' \<in> buddy_reach base"
| free: "st \<in> buddy_reach base \<Longrightarrow> buddy_free (Some b) st = Some (r, st') \<Longrightarrow> allocated st b \<noteq> None
    \<Longrightarrow> st' \<in> buddy_reach base"

lemma ptrs_inside_init_loop:
  "ptrs_inside st \<Longrightarrow> raw_buddy_init_loop phys st = Some st' \<Longrightarrow> ptrs_inside st'"
proof (induction phys st rule: raw_buddy_init_loop.induct)
  case (1 phys st)
  show ?case
  proof (cases "phys < PHYS_MEM_END - PHYS_MEM_KERNEL_STACK_SIZE")
    case True
    then obtain r st1 where "buddy_free (Some (phys2block phys)) st = Some (r, st1)"
      "raw_buddy_init_loop (phys + 0x1000) st1 = Some st'"
      using 1(3) by (subst (asm) raw_buddy_init_loop.simps) (auto simp: bind_eq_Some_conv)
    then show ?thesis using 1(1) [OF True] ptrs_inside_free [OF 1(2)] by auto
  next
    case False
    then show ?thesis using 1(2,3) by (subst (asm) raw_buddy_init_loop.simps) simp
  qed
qed

lemma buddy_reach_inv:
  assumes "st \<in> buddy_reach base" "PHYS_MEM_START \<le> base" "base < PHYS_MEM_END - PHYS_MEM_KERNEL_STACK_SIZE"
  shows "buddy_inv st \<and> ptrs_inside st"
  using assms(1)
proof induction
  case (init st)
  have "buddy_inv st"
    using raw_buddy_init_inv [OF _ assms(2,3), of "\<lparr>free_lists = (\<lambda>_. None), blocks = (\<lambda>_. \<lparr>refcnt = 0, order = 0, bnext = None\<rparr>)\<rparr>"] init
    by auto
  moreover have "ptrs_inside st"
    using init unfolding raw_buddy_init_def
    by (elim ptrs_inside_init_loop [rotated]) (simp add: ptrs_inside_def)
  ultimately show ?case by blast
next
  case (alloc st k p st')
  then show ?case using ba.alloc_total [of st k] ptrs_inside_alloc by fastforce
next
  case (free st b r st')
  then obtain k n where a: "allocated st b = Some (k, n)" by auto
  have "buddy_inv st'"
  proof (cases "n = 1")
    case True
    then show ?thesis using ba.free_last [of st b k] free a by auto
  next
    case False
    then obtain m where "n = Suc (Suc m)" using allocatedD(5) [of st b k n] free.IH a
      by (cases n; cases "n - 1") auto
    then show ?thesis using ba.free_shared [of st b k m] free a by auto
  qed
  then show ?case using free ptrs_inside_free by blast
qed

end
