(* ===== verification/Buddy_Props.thy ===== *)
theory Buddy_Props
  imports Buddy_Migrate
begin

text \<open>
  The properties of \<^verbatim>\<open>buddy.c\<close>. \<open>buddy_inv\<close> is the invariant, \<open>free_pages\<close> the set of free pages
  and \<open>allocated\<close> the order and reference count of every block in use.
\<close>

section \<open>A concrete state\<close>

lemma freed01_inv: "buddy_inv freed01" "free_pages freed01 = {0, 1}" "allocated freed01 2 = Some (0, 1)"
proof -
  note u = all_used_views [OF used_state_inv]
  obtain s where s: "buddy_free (Some 0) used_state = Some (0, s)" "buddy_inv s"
    "free_pages s = free_pages used_state \<union> pages 0 0" "allocated s = (allocated used_state)(0 := None)"
    using buddy_free_last [OF u(1), of 0 0] u(3) [of 0] by (auto simp: init_view_def)
  have a: "allocated s 1 = Some (0, 1)" "allocated s 2 = Some (0, 1)"
    using s(4) u(3) [of 0] by (simp_all add: init_view_def)
  obtain s1 where s1: "buddy_free (Some 1) s = Some (0, s1)" "buddy_inv s1"
    "free_pages s1 = free_pages s \<union> pages 1 0" "allocated s1 = (allocated s)(1 := None)"
    using buddy_free_last [OF s(2) a(1)] by blast
  have "s1 = freed01" using s(1) s1(1) free_0 free_01 by simp
  then show "buddy_inv freed01" "free_pages freed01 = {0, 1}" "allocated freed01 2 = Some (0, 1)"
    using s1 s(3) u(2) a(2) by (auto simp: pages_def)
qed

section \<open>Allocating and freeing\<close>

text \<open>(C1) \<open>buddy_alloc\<close> terminates and keeps the invariant; a block it returns is aligned to its
  size, was free before, is removed from the free pages and is the only block that changes.\<close>
theorem buddy_alloc_correct:
  assumes "buddy_inv st"
  shows "\<exists>r st'. buddy_alloc k st = Some (r, st') \<and> buddy_inv st'
    \<and> (case r of None \<Rightarrow> st' = st
       | Some b \<Rightarrow> 2 ^ k dvd b \<and> pages b k \<subseteq> free_pages st \<and> free_pages st' = free_pages st - pages b k
           \<and> allocated st b = None \<and> allocated st' = (allocated st)(b := Some (k, 1)))"
proof -
  obtain r st' where r: "buddy_alloc k st = Some (r, st')" "buddy_inv st'"
    using ba.alloc_total [OF assms] by blast
  show ?thesis
  proof (cases r)
    case None
    then show ?thesis using r ba.alloc_None [OF assms, of k st'] by simp
  next
    case (Some b)
    then show ?thesis using r ba.alloc_Some [OF assms, of k b st'] by simp
  qed
qed

theorem buddy_alloc_correct_witness:
  "\<exists>st'. buddy_alloc 1 freed01 = Some (Some 0, st') \<and> buddy_inv st' \<and> allocated st' 0 = Some (1, 1)"
  using buddy_alloc_correct [OF freed01_inv(1), of 1] unfolding alloc_1 by simp

text \<open>(C25) \<open>buddy_alloc\<close> returns \<open>NULL\<close> only when no aligned region of the requested size is free:
  free buddies are always merged, so memory is not lost to fragmentation of blocks.\<close>
theorem buddy_alloc_complete:
  assumes "buddy_inv st" "2 ^ k dvd a" "pages a k \<subseteq> free_pages st"
  shows "\<exists>b st'. buddy_alloc k st = Some (Some b, st')"
proof -
  obtain r st' where r: "buddy_alloc k st = Some (r, st')" using ba.alloc_total [OF assms(1)] by blast
  show ?thesis using r ba.alloc_None [OF assms(1)] assms(2,3) by (cases r) auto
qed

theorem buddy_alloc_complete_witness: "\<exists>b st'. buddy_alloc 1 freed01 = Some (Some b, st')"
proof -
  have "pages 0 1 \<subseteq> free_pages freed01" unfolding freed01_inv(2) by (auto simp: pages_def)
  then show ?thesis by (intro buddy_alloc_complete [OF freed01_inv(1), of 1 0]) simp_all
qed

text \<open>(C3) \<open>buddy_free\<close> of a block in use terminates, returns 0 and keeps the invariant. It drops
  one reference; with the last one the pages of the block become free.\<close>
theorem buddy_free_correct:
  assumes "buddy_inv st" "allocated st b = Some (k, r)"
  shows "\<exists>st'. buddy_free (Some b) st = Some (0, st') \<and> buddy_inv st'
    \<and> (if r = 1 then free_pages st' = free_pages st \<union> pages b k \<and> allocated st' = (allocated st)(b := None)
       else free_pages st' = free_pages st \<and> allocated st' = (allocated st)(b := Some (k, r - 1)))"
proof (cases "r = 1")
  case True
  then show ?thesis using ba.free_last [OF assms(1), of b k] assms(2) by simp
next
  case False
  then obtain m where "r = Suc (Suc m)" using allocatedD(5) [OF assms] by (cases r; cases "r - 1") auto
  then show ?thesis using ba.free_shared [OF assms(1), of b k m] assms(2) by simp
qed

theorem buddy_free_correct_witness:
  "\<exists>st'. buddy_free (Some 2) freed01 = Some (0, st') \<and> buddy_inv st' \<and> 2 \<in> free_pages st'"
  using buddy_free_correct [OF freed01_inv(1,3)] by (auto simp: pages_def)

text \<open>(C28) Allocating a block and freeing it again restores the free pages and the blocks in use.\<close>
theorem buddy_alloc_free:
  assumes "buddy_inv st" "buddy_alloc k st = Some (Some b, st1)"
  shows "\<exists>st'. buddy_free (Some b) st1 = Some (0, st') \<and> buddy_inv st'
    \<and> free_pages st' = free_pages st \<and> allocated st' = allocated st"
  by (rule ba.alloc_free_restores [OF assms])

theorem buddy_alloc_free_witness:
  "\<exists>b st1 st'. buddy_alloc 1 freed01 = Some (Some b, st1) \<and> buddy_free (Some b) st1 = Some (0, st')
     \<and> free_pages st' = {0, 1}"
  using buddy_alloc_free [OF freed01_inv(1) alloc_1] alloc_1 freed01_inv(2) by fastforce

text \<open>Freeing a block that is free, and was not merged into another, is reported with -1 and
  changes nothing.\<close>
lemma buddy_free_double:
  assumes "buddy_inv st" "b \<in> free_pages st" "b \<in> heads st"
  shows "buddy_free (Some b) st = Some (- 1, st)"
proof -
  obtain H L where w: "buddy_wf H L st" and v: "free_pages st = fpages H st"
    using buddy_invE [OF assms(1)] by metis
  have H: "heads st = H" by (rule wf_heads [OF w])
  have t: "tiled (od st) H" using w by (simp add: buddy_wf_def)
  obtain h where h: "h \<in> H" "rf st h = 0" "owns (od st) h b"
    using assms(2) by (auto simp: v fpages_def owns_pages)
  have bN: "b < NBLOCKS" using tiled_head(1) [OF t] assms(3) H by blast
  have "h = b" using tiled_unique [OF t bN h(1) _ h(3) owns_self] assms(3) H by blast
  then show ?thesis using buddy_free_free [OF bN] h(2) by simp
qed

section \<open>Initialisation and reachable states\<close>

text \<open>(C27) \<open>__buddy_init\<close> terminates for every position of the end of the kernel image and leaves
  free exactly the pages from there to the kernel stack.\<close>
theorem buddy_init_correct:
  assumes "\<forall>k \<le> BUDDY_MAX_ORDER. free_lists st k = None"
    and "PHYS_MEM_START \<le> base" "base < PHYS_MEM_END - PHYS_MEM_KERNEL_STACK_SIZE"
  shows "\<exists>st'. raw_buddy_init base st = Some st' \<and> buddy_inv st'
    \<and> free_pages st' = {unat (base - PHYS_MEM_START) div 4096..<8191}"
  using raw_buddy_init_inv [OF assms] by blast

theorem buddy_init_correct_witness:
  "\<exists>st'. raw_buddy_init 0x80200000 used_state = Some st' \<and> buddy_inv st' \<and> free_pages st' = {512..<8191}"
  using buddy_init_correct [of used_state "0x80200000"]
  by (simp add: used_state_def word_le_nat_alt word_less_nat_alt)

text \<open>(C26) Every state reached from \<open>__buddy_init\<close> by calls of \<open>buddy_alloc\<close> and by frees of blocks in
  use satisfies the invariant, and its pointers stay inside the block array.\<close>
theorem buddy_reachable_inv:
  assumes "st \<in> buddy_reach base" "PHYS_MEM_START \<le> base" "base < PHYS_MEM_END - PHYS_MEM_KERNEL_STACK_SIZE"
  shows "buddy_inv st \<and> ptrs_inside st"
  by (rule buddy_reach_inv [OF assms])

theorem buddy_reachable_inv_witness: "\<exists>st. st \<in> buddy_reach 0x80200000 \<and> buddy_inv st \<and> ptrs_inside st"
proof -
  let ?st = "\<lparr>free_lists = (\<lambda>_. None), blocks = (\<lambda>_. \<lparr>refcnt = 0, order = 0, bnext = None\<rparr>)\<rparr>"
  obtain st where "raw_buddy_init 0x80200000 ?st = Some st"
    using raw_buddy_init_inv [of ?st "0x80200000"] by (auto simp: word_le_nat_alt word_less_nat_alt)
  then have "st \<in> buddy_reach 0x80200000" by (rule buddy_reach.init)
  then show ?thesis using buddy_reachable_inv [of st "0x80200000"] by (auto simp: word_le_nat_alt word_less_nat_alt)
qed

text \<open>(C31) \<open>buddy_migrate\<close> relocates the allocator: pointer words that represent a state with the block
  array at \<open>base\<close> become words that represent the same state at \<open>base + offset\<close>.\<close>
theorem buddy_migrate_relocates:
  assumes "renders base st m" "ptrs_inside st" "base \<noteq> 0" "unat base + 24 * NBLOCKS \<le> 2 ^ 64"
  shows "renders (base + offset) st (buddy_migrate offset m)"
  by (rule buddy_migrate_renders [OF assms])

theorem buddy_migrate_relocates_witness:
  "renders 0xffff800080100000 freed01
     (buddy_migrate 0xffff800000000000
        \<lparr>pfree_lists = (\<lambda>_. 0)(1 := 0x80100000), pnext = (\<lambda>_. 0)\<rparr>)"
  using buddy_migrate_relocates [of "0x80100000" freed01 _ "0xffff800000000000"]
  by (auto simp: renders_def block_ptr_def ptrs_inside_def freed01_def)

section \<open>Deviations\<close>

lemma print_loop_stuck:
  assumes "free_lists st i = Some b" "bnext (blocks st b) = Some c" "i \<le> BUDDY_MAX_ORDER" "j \<le> i"
  shows "print_status_loop j st out = None"
  using assms(4)
proof (induction "i - j" arbitrary: j out)
  case 0
  have "count_free_loop st b 0 = None" using count_free_loop_stuck assms(2) by simp
  moreover have "j = i" using 0 by simp
  ultimately show ?case using assms(1,3) by (subst print_status_loop.simps) (simp add: bind_eq_None_conv)
next
  case (Suc d)
  then have "print_status_loop (j + 1) st out' = None" for out' by simp
  moreover have "j < BUDDY_MAX_ORDER + 1" using Suc.hyps(2) assms(3) by simp
  ultimately show ?case by (subst print_status_loop.simps) (auto simp: Let_def bind_eq_None_conv split: option.splits)
qed

text \<open>(C40) \<open>buddy_print_status\<close> does not return when one of the free lists, of any order, holds two blocks: its loop tests
  \<open>block->next\<close> without moving on.\<close>
theorem print_status_stuck:
  assumes "i \<le> BUDDY_MAX_ORDER" "free_lists st i = Some b" "bnext (blocks st b) = Some c"
  shows "buddy_print_status st out = None"
  unfolding buddy_print_status_def by (rule print_loop_stuck [OF assms(2,3,1)]) simp

theorem print_status_stuck_witness:
  "buddy_print_status (used_state\<lparr>free_lists := [3 \<mapsto> 8], blocks := (blocks used_state)(8 := \<lparr>refcnt = 0, order = 3, bnext = Some 24\<rparr>)\<rparr>) [] = None"
  by (rule print_status_stuck [of 3 _ 8 24]) simp_all

end
