(* ===== verification/Pt_Entry.thy ===== *)
theory Pt_Entry
  imports Prelude
begin

text \<open>
  The macros of \<^verbatim>\<open>pt.h\<close> and \<^verbatim>\<open>pt.c\<close>: fields of page table entries and of \<open>satp\<close>, page
  numbers, page sizes of the four levels of Sv48. Levels and depths are natural numbers; a
  level is at most \<open>PAGE_TERA\<close> wherever the code shifts by it.
\<close>

unbundle bit_operations_syntax

section \<open>Constants\<close>

abbreviation (input) SATP_MODE_BARE :: u64 where "SATP_MODE_BARE \<equiv> 0"
abbreviation (input) SATP_MODE_SV48 :: u64 where "SATP_MODE_SV48 \<equiv> 9"
abbreviation (input) SATP_MODE_SHIFT :: nat where "SATP_MODE_SHIFT \<equiv> 60"
abbreviation (input) SATP_MODE_MASK :: u64 where "SATP_MODE_MASK \<equiv> 0xF"
abbreviation (input) PT_NUM_LEVELS :: nat where "PT_NUM_LEVELS \<equiv> 5"
abbreviation (input) PAGE_SHIFT :: nat where "PAGE_SHIFT \<equiv> 12"
abbreviation (input) PAGE_SIZE :: u64 where "PAGE_SIZE \<equiv> 0x1000"
abbreviation (input) VIRT_MEM_KERNEL_SHIFT :: nat where "VIRT_MEM_KERNEL_SHIFT \<equiv> 47"

definition VIRT_MEM_KERNEL_BASE :: u64 where
  "VIRT_MEM_KERNEL_BASE = push_bit VIRT_MEM_KERNEL_SHIFT 0x1ffff"

abbreviation (input) VMA_READ :: u64 where "VMA_READ \<equiv> 0x1"
abbreviation (input) VMA_WRITE :: u64 where "VMA_WRITE \<equiv> 0x4"
abbreviation (input) VMA_EXEC :: u64 where "VMA_EXEC \<equiv> 0x8"
abbreviation (input) VMA_POPULATE :: u64 where "VMA_POPULATE \<equiv> 0x10"
abbreviation (input) VMA_IDENTITY :: u64 where "VMA_IDENTITY \<equiv> 0x20"
abbreviation (input) VMA_USER :: u64 where "VMA_USER \<equiv> 0x40"

abbreviation (input) PTE_VALID_SHIFT :: nat where "PTE_VALID_SHIFT \<equiv> 0"
abbreviation (input) PTE_READ_SHIFT :: nat where "PTE_READ_SHIFT \<equiv> 1"
abbreviation (input) PTE_WRITE_SHIFT :: nat where "PTE_WRITE_SHIFT \<equiv> 2"
abbreviation (input) PTE_EXEC_SHIFT :: nat where "PTE_EXEC_SHIFT \<equiv> 3"
abbreviation (input) PTE_USER_SHIFT :: nat where "PTE_USER_SHIFT \<equiv> 4"
abbreviation (input) PTE_PPN_SHIFT :: nat where "PTE_PPN_SHIFT \<equiv> 10"
abbreviation (input) PTE_PPN_MASK :: u64 where "PTE_PPN_MASK \<equiv> 0xFFFFFFFFFFF"
abbreviation (input) SATP_PPN_SHIFT :: nat where "SATP_PPN_SHIFT \<equiv> 0"
abbreviation (input) SATP_PPN_MASK :: u64 where "SATP_PPN_MASK \<equiv> 0xFFFFFFFFFFF"

abbreviation (input) EINVALARGS :: int where "EINVALARGS \<equiv> 1"
abbreviation (input) ENORESOURCES :: int where "ENORESOURCES \<equiv> 2"
abbreviation (input) ENOTMAPPED :: int where "ENOTMAPPED \<equiv> 3"
abbreviation (input) EMAPPED :: int where "EMAPPED \<equiv> 4"

abbreviation (input) PAGE_NORMAL :: nat where "PAGE_NORMAL \<equiv> 0"
abbreviation (input) PAGE_MEGA :: nat where "PAGE_MEGA \<equiv> 1"
abbreviation (input) PAGE_GIGA :: nat where "PAGE_GIGA \<equiv> 2"
abbreviation (input) PAGE_TERA :: nat where "PAGE_TERA \<equiv> 3"

section \<open>Entries\<close>

definition pte_get :: "u64 \<Rightarrow> nat \<Rightarrow> u64" where
  "pte_get pte sh = drop_bit sh pte AND 1"

definition pte_set :: "u64 \<Rightarrow> nat \<Rightarrow> u64" where
  "pte_set pte sh = pte OR push_bit sh 1"

definition pte_unset :: "u64 \<Rightarrow> nat \<Rightarrow> u64" where
  "pte_unset pte sh = NOT (pte_set (NOT pte) sh)"

definition pte_get_ppn :: "u64 \<Rightarrow> u64" where
  "pte_get_ppn pte = drop_bit PTE_PPN_SHIFT pte AND PTE_PPN_MASK"

definition pte_clear_ppn :: "u64 \<Rightarrow> u64" where
  "pte_clear_ppn pte = pte XOR push_bit PTE_PPN_SHIFT (pte_get_ppn pte)"

definition pte_set_ppn :: "u64 \<Rightarrow> u64 \<Rightarrow> u64" where
  "pte_set_ppn pte new = pte_clear_ppn pte XOR push_bit PTE_PPN_SHIFT (new AND PTE_PPN_MASK)"

definition satp_get :: "u64 \<Rightarrow> u64 \<Rightarrow> nat \<Rightarrow> u64" where
  "satp_get satp msk sh = drop_bit sh satp AND msk"

definition satp_clear :: "u64 \<Rightarrow> u64 \<Rightarrow> nat \<Rightarrow> u64" where
  "satp_clear satp msk sh = satp XOR push_bit sh (satp_get satp msk sh)"

definition satp_set :: "u64 \<Rightarrow> u64 \<Rightarrow> u64 \<Rightarrow> nat \<Rightarrow> u64" where
  "satp_set satp new msk sh = satp_clear satp msk sh XOR push_bit sh (new AND msk)"

definition satp2pte :: "u64 \<Rightarrow> u64" where
  "satp2pte satp = pte_set_ppn 1 (satp_get satp SATP_PPN_MASK SATP_PPN_SHIFT)"

definition pte_is_leaf :: "u64 \<Rightarrow> bool" where
  "pte_is_leaf pte \<longleftrightarrow> pte_get pte PTE_READ_SHIFT OR pte_get pte PTE_EXEC_SHIFT \<noteq> 0"

definition pte_is_valid :: "u64 \<Rightarrow> bool" where
  "pte_is_valid pte \<longleftrightarrow> pte_get pte PTE_VALID_SHIFT \<noteq> 0"

section \<open>Page numbers and levels\<close>

definition ppn2phys :: "u64 \<Rightarrow> u64" where
  "ppn2phys ppn = push_bit PAGE_SHIFT ppn"

definition phys2ppn_pt :: "u64 \<Rightarrow> u64" where
  "phys2ppn_pt phys = drop_bit PAGE_SHIFT phys"

abbreviation (input) vpn2virt :: "u64 \<Rightarrow> u64" where "vpn2virt \<equiv> ppn2phys"
abbreviation (input) virt2vpn :: "u64 \<Rightarrow> u64" where "virt2vpn \<equiv> phys2ppn_pt"

definition level2depth :: "nat \<Rightarrow> nat" where
  "level2depth level = PT_NUM_LEVELS - 1 - level"

abbreviation (input) depth2level :: "nat \<Rightarrow> nat" where "depth2level \<equiv> level2depth"

definition vpn2vpnlevel :: "u64 \<Rightarrow> nat \<Rightarrow> u64" where
  "vpn2vpnlevel vpn level = drop_bit (9 * level) vpn AND 0x1FF"

definition level2pagen :: "nat \<Rightarrow> u64" where
  "level2pagen level = push_bit (9 * level) 1"

definition level2order :: "nat \<Rightarrow> nat" where
  "level2order level = level * 9"

definition level2size :: "nat \<Rightarrow> u64" where
  "level2size level = level2pagen level * PAGE_SIZE"

definition vpn2prevpageboundary :: "u64 \<Rightarrow> nat \<Rightarrow> u64" where
  "vpn2prevpageboundary vpn level = vpn AND (- 1 * level2pagen level)"

definition vpn2nextpageboundary :: "u64 \<Rightarrow> nat \<Rightarrow> u64" where
  "vpn2nextpageboundary vpn level = (vpn + level2pagen level - 1) AND (- 1 * level2pagen level)"

section \<open>Bits of entries\<close>

lemma mask_44: "(0xFFFFFFFFFFF :: u64) = mask 44" by (simp add: mask_eq_exp_minus_1)
lemma mask_9: "(0x1FF :: u64) = mask 9" by (simp add: mask_eq_exp_minus_1)
lemma mask_4: "(0xF :: u64) = mask 4" by (simp add: mask_eq_exp_minus_1)

lemma pte_get_bit: "pte_get pte sh = of_bool (bit pte sh)"
  by (simp add: pte_get_def and_one_eq mod_2_eq_odd bit_iff_odd_drop_bit)

lemma pte_is_valid_bit: "pte_is_valid pte \<longleftrightarrow> bit pte 0"
  by (simp add: pte_is_valid_def pte_get_bit)

lemma pte_is_leaf_bit: "pte_is_leaf pte \<longleftrightarrow> bit pte 1 \<or> bit pte 3"
  by (simp add: pte_is_leaf_def pte_get_bit)

lemma bit_pte_set: "bit (pte_set pte sh) n \<longleftrightarrow> bit pte n \<or> (n = sh \<and> n < 64)"
  by (auto simp: pte_set_def bit_simps)

lemma bit_pte_unset: "bit (pte_unset pte sh) n \<longleftrightarrow> bit pte n \<and> n \<noteq> sh"
  by (auto simp: pte_unset_def bit_simps bit_pte_set dest: bit_imp_le_length)

lemma bit_pte_set_ppn:
  "bit (pte_set_ppn pte new) n \<longleftrightarrow> (if 10 \<le> n \<and> n < 54 then bit new (n - 10) else bit pte n)"
  by (auto simp: pte_set_ppn_def pte_clear_ppn_def pte_get_ppn_def mask_44 bit_simps dest: bit_imp_le_length)

lemma pte_get_set_ppn: "pte_get_ppn (pte_set_ppn pte new) = new AND mask 44"
  by (rule bit_word_eqI) (auto simp: pte_get_ppn_def mask_44 bit_simps bit_pte_set_ppn)

lemma pte_get_ppn_set: "sh < 10 \<Longrightarrow> pte_get_ppn (pte_set pte sh) = pte_get_ppn pte"
  by (rule bit_word_eqI) (auto simp: pte_get_ppn_def mask_44 bit_simps bit_pte_set)

lemma satp2pte_valid [simp]: "pte_is_valid (satp2pte satp)" "\<not> pte_is_leaf (satp2pte satp)"
  by (simp_all add: satp2pte_def pte_is_valid_bit pte_is_leaf_bit bit_pte_set_ppn)

lemma satp2pte_ppn: "pte_get_ppn (satp2pte satp) = satp AND mask 44"
  by (simp add: satp2pte_def pte_get_set_ppn satp_get_def mask_44 and.assoc)

lemma satp_set_bit:
  "bit (satp_set satp new (mask w) sh) n \<longleftrightarrow>
     (if sh \<le> n \<and> n < sh + w \<and> n < 64 then bit new (n - sh) else bit satp n)"
  by (auto simp: satp_set_def satp_clear_def satp_get_def bit_simps dest: bit_imp_le_length)

lemma satp_get_set_same:
  "sh + w \<le> 64 \<Longrightarrow> satp_get (satp_set satp new (mask w) sh) (mask w) sh = new AND mask w"
  by (rule bit_word_eqI) (auto simp: satp_get_def satp_set_bit bit_simps)

lemma satp_get_set_other:
  "sh + w \<le> sh' \<or> sh' + w' \<le> sh \<Longrightarrow> sh + w \<le> 64 \<Longrightarrow>
   satp_get (satp_set satp new (mask w) sh) (mask w') sh' = satp_get satp (mask w') sh'"
  by (rule bit_word_eqI) (auto simp: satp_get_def satp_set_bit bit_simps)

section \<open>Page boundaries\<close>

lemma unat_level2pagen: "level \<le> 3 \<Longrightarrow> unat (level2pagen level) = 512 ^ level"
proof -
  assume "level \<le> 3"
  then have "level = 0 \<or> level = 1 \<or> level = 2 \<or> level = 3" by auto
  then show ?thesis by (auto simp: level2pagen_def)
qed

lemma prevboundary_mask:
  assumes "level \<le> 3"
  shows "vpn2prevpageboundary vpn level = vpn AND NOT (mask (9 * level))"
proof -
  have "- 1 * level2pagen level = NOT (mask (9 * level))"
    by (simp add: level2pagen_def minus_exp_eq_not_mask)
  then show ?thesis by (simp add: vpn2prevpageboundary_def)
qed

lemma unat_prevboundary:
  assumes "level \<le> 3"
  shows "unat (vpn2prevpageboundary vpn level) = unat vpn div 512 ^ level * 512 ^ level"
proof -
  have "vpn AND NOT (mask (9 * level)) = push_bit (9 * level) (drop_bit (9 * level) vpn)"
    by (rule bit_word_eqI) (auto simp: bit_simps)
  moreover have "unat (push_bit (9 * level) (drop_bit (9 * level) vpn)) = unat vpn div 512 ^ level * 512 ^ level"
  proof -
    have "unat vpn div 2 ^ (9 * level) * 2 ^ (9 * level) < 18446744073709551616"
      using unat_less_64 [of vpn] by (rule le_less_trans [OF div_times_less_eq_dividend])
    then show ?thesis by (simp add: unat_push_bit_64 unat_drop_bit_64 power_mult)
  qed
  ultimately show ?thesis by (simp add: prevboundary_mask [OF assms])
qed

end
