(* ===== verification/Pt_Walk.thy ===== *)
theory Pt_Walk
  imports Pt_Entry Buddy_Init Util Util_List
begin

text \<open>
  The state of virtual memory management and the page table walker of \<^verbatim>\<open>pt.c\<close>. \<open>pmem\<close> is
  physical memory. The kernel reaches it through the identity map of \<open>phys2kvirt\<close>, so an
  access through a kernel pointer \<open>p\<close> goes to \<open>kaddr st p\<close>. A pointer to a page table entry
  is \<open>Satp\<close>, the variable the walk starts from, or \<open>At p\<close>. Flushing the TLB has no effect on
  this state. \<open>None\<close> stands for undefined behaviour (an access outside a local array) and for
  a write through \<open>Satp\<close>, which the walker never performs.
\<close>

unbundle bit_operations_syntax

record pt =
  pmem :: mem
  frames :: buddy
  ksatp :: u64
  salloc_base :: u64
  salloc_cursor :: u64
  vm_nodes :: nodes
  vm_vpn :: "addr \<Rightarrow> u64"
  vm_pagen :: "addr \<Rightarrow> u64"
  vm_flags :: "addr \<Rightarrow> u64"
  kvmas_head :: addr
  layout :: buddy_layout
  csr_satp :: u64
  csr_sstatus :: u64
  console :: uart

datatype pte_ptr = Satp | At u64

definition is_paging_enabled :: "pt \<Rightarrow> bool" where
  "is_paging_enabled st \<longleftrightarrow> drop_bit SATP_MODE_SHIFT (ksatp st) XOR SATP_MODE_SV48 = 0"

definition phys2kvirt :: "pt \<Rightarrow> u64 \<Rightarrow> u64" where
  "phys2kvirt st phys = VIRT_MEM_KERNEL_BASE * of_bool (is_paging_enabled st) + phys"

definition kaddr :: "pt \<Rightarrow> u64 \<Rightarrow> u64" where
  "kaddr st p = p - VIRT_MEM_KERNEL_BASE * of_bool (is_paging_enabled st)"

text \<open>\<open>printstr\<close> and \<open>printerr\<close> of a literal.\<close>

definition printstr :: "string \<Rightarrow> pt \<Rightarrow> pt option" where
  "printstr s st = do { out \<leftarrow> raw_printstr (lit s) (console st); Some (st\<lparr>console := out\<rparr>) }"

definition printerr :: "string \<Rightarrow> pt \<Rightarrow> pt option" where
  "printerr s st = printstr ([CHR 0x1B] @ ''[31m'' @ s @ [CHR 0x1B] @ ''[0m'') st"

section \<open>Memory for the kernel\<close>

definition pt_alloc :: "nat \<Rightarrow> pt \<Rightarrow> (u64 \<times> pt) option" where
  "pt_alloc level st =
     do { (blk, fr) \<leftarrow> buddy_alloc (level2order level) (frames st);
          let st = st\<lparr>frames := fr\<rparr>;
          case blk of
            None \<Rightarrow> Some (0, st)
          | Some b \<Rightarrow>
              do { let phys = ppn2phys (block2ppn b);
                   let st = st\<lparr>pmem := memset (pmem st) (kaddr st (phys2kvirt st phys)) 0
                                 (PAGE_SIZE * push_bit (level2order level) 1)\<rparr>;
                   Some (phys, st) } }"

definition pt_free :: "u64 \<Rightarrow> pt \<Rightarrow> (int \<times> pt) option" where
  "pt_free phys st =
     do { (r, fr) \<leftarrow> buddy_free (ppn2block (phys2ppn_pt phys)) (frames st);
          Some (r, st\<lparr>frames := fr\<rparr>) }"

text \<open>\<open>pt_salloc\<close>: \<open>base\<close> and \<open>cursor\<close> are its static variables.\<close>

partial_function (option) pt_salloc :: "u64 \<Rightarrow> pt \<Rightarrow> (u64 \<times> pt) option" where
  "pt_salloc sz st =
     (if sz = 0 then Some (NULL, st)
      else if sz > level2size PAGE_NORMAL then Some (NULL, st)
      else do {
        st \<leftarrow> (if salloc_base st = 0 then
                 do { (base, st) \<leftarrow> pt_alloc PAGE_NORMAL st;
                      Some (st\<lparr>salloc_base := base\<rparr>) }
               else Some st);
        if salloc_base st = 0 then Some (NULL, st)
        else if salloc_cursor st + sz > level2size PAGE_NORMAL then
          pt_salloc sz (st\<lparr>salloc_base := 0, salloc_cursor := 0\<rparr>)
        else
          Some (phys2kvirt st (salloc_base st + salloc_cursor st),
                st\<lparr>salloc_cursor := salloc_cursor st + sz\<rparr>) })"

section \<open>Walking\<close>

definition load_pte :: "pte_ptr \<Rightarrow> u64 \<Rightarrow> pt \<Rightarrow> u64" where
  "load_pte p satp st = (case p of Satp \<Rightarrow> satp | At a \<Rightarrow> load64 (pmem st) (kaddr st a))"

definition store_pte :: "pte_ptr \<Rightarrow> u64 \<Rightarrow> pt \<Rightarrow> pt option" where
  "store_pte p v st =
     (case p of Satp \<Rightarrow> None | At a \<Rightarrow> Some (st\<lparr>pmem := store64 (pmem st) (kaddr st a) v\<rparr>))"

definition raw_pt_next_pte :: "nat \<Rightarrow> u64 \<Rightarrow> u64 list \<Rightarrow> pt \<Rightarrow> (pte_ptr \<times> u64 list) option" where
  "raw_pt_next_pte depth vpn ptes st =
     do { ensure (depth + 1 < length ptes);
          let phys = ppn2phys (pte_get_ppn (ptes ! depth))
                     + vpn2vpnlevel vpn (depth2level (depth + 1)) * 8;
          let pte = At (phys2kvirt st phys);
          Some (pte, ptes[depth + 1 := load_pte pte 0 st]) }"

text \<open>\<open>pt_get_pte\<close>: the result, the filled array \<open>ptes\<close>, and what was stored through \<open>out\<close>.\<close>

function get_pte_loop ::
    "nat \<Rightarrow> u64 \<Rightarrow> u64 list \<Rightarrow> pte_ptr \<Rightarrow> pt \<Rightarrow> (int \<times> u64 list \<times> pte_ptr option) option" where
  "get_pte_loop depth vpn ptes curr_pte st =
     (if depth < PT_NUM_LEVELS then
        do { ensure (depth < length ptes);
             if pte_is_leaf (ptes ! depth) then Some (int depth, ptes, Some curr_pte)
             else if \<not> pte_is_valid (ptes ! depth) then Some (- ENOTMAPPED, ptes, None)
             else if depth < PT_NUM_LEVELS - 1 then
               do { (curr_pte, ptes) \<leftarrow> raw_pt_next_pte depth vpn ptes st;
                    get_pte_loop (depth + 1) vpn ptes curr_pte st }
             else get_pte_loop (depth + 1) vpn ptes curr_pte st }
      else Some (- EINVALARGS, ptes, None))"
  by pat_completeness auto
termination
  by (relation "measure (\<lambda>(d, _). PT_NUM_LEVELS - d)") auto

declare get_pte_loop.simps [simp del]

definition pt_get_pte :: "u64 \<Rightarrow> u64 \<Rightarrow> u64 list \<Rightarrow> pt \<Rightarrow> (int \<times> u64 list \<times> pte_ptr option) option" where
  "pt_get_pte satp vpn ptes st =
     do { ensure (0 < length ptes); get_pte_loop 0 vpn (ptes[0 := satp2pte satp]) Satp st }"

definition pt_alloc_pt :: "pt \<Rightarrow> (u64 \<times> pt) option" where
  "pt_alloc_pt st =
     do { let pte = 0;
          (phys, st) \<leftarrow> pt_alloc 0 st;
          let ppn = phys2ppn_pt phys;
          if ppn = 0 then Some (0, st)
          else do {
            let pte = pte_set_ppn pte ppn;
            let pte = pte_set pte PTE_VALID_SHIFT;
            Some (pte, st) } }"

definition pt_set_pte_nonleaf :: "pte_ptr \<Rightarrow> pt \<Rightarrow> (int \<times> pt) option" where
  "pt_set_pte_nonleaf pte_ptr st =
     do { (pte, st) \<leftarrow> pt_alloc_pt st;
          if pte = 0 then Some (- ENORESOURCES, st)
          else do { st \<leftarrow> store_pte pte_ptr pte st; Some (0, st) } }"

text \<open>The loop of \<open>pt_set_pte_leaf\<close>: \<open>Inl\<close> an early return, \<open>Inr\<close> the walk so far.\<close>

function set_leaf_loop ::
    "u64 \<Rightarrow> nat \<Rightarrow> nat \<Rightarrow> u64 \<Rightarrow> u64 list \<Rightarrow> pte_ptr \<Rightarrow> pt \<Rightarrow> ((int + u64 list \<times> pte_ptr) \<times> pt) option" where
  "set_leaf_loop satp j depth vpn ptes curr_pte st =
     (if j < depth then
        do { ensure (j < length ptes);
             if pte_is_leaf (ptes ! j) then Some (Inl (- EMAPPED), st)
             else do {
               (ret, ptes, st) \<leftarrow>
                 (if \<not> pte_is_valid (ptes ! j) then
                    do { (ret, st) \<leftarrow> pt_set_pte_nonleaf curr_pte st;
                         Some (ret, if ret = 0 then ptes[j := load_pte curr_pte satp st] else ptes, st) }
                  else Some (0, ptes, st));
               if ret \<noteq> 0 then Some (Inl (- ENORESOURCES), st)
               else do {
                 (curr_pte, ptes) \<leftarrow> raw_pt_next_pte j vpn ptes st;
                 set_leaf_loop satp (j + 1) depth vpn ptes curr_pte st } } }
      else Some (Inr (ptes, curr_pte), st))"
  by pat_completeness auto
termination
  by (relation "measure (\<lambda>(_, j, depth, _). depth - j)") auto

declare set_leaf_loop.simps [simp del]

definition pt_set_pte_leaf :: "u64 \<Rightarrow> u64 \<Rightarrow> u64 \<Rightarrow> nat \<Rightarrow> pt \<Rightarrow> (int \<times> pt) option" where
  "pt_set_pte_leaf satp vpn pte depth st =
     do { let ptes = (replicate PT_NUM_LEVELS 0)[0 := satp2pte satp];
          (r, st) \<leftarrow> set_leaf_loop satp 0 depth vpn ptes Satp st;
          case r of
            Inl err \<Rightarrow> Some (err, st)
          | Inr (ptes, curr_pte) \<Rightarrow>
              do { ensure (depth < length ptes);
                   if pte_is_valid (ptes ! depth) \<and> pte \<noteq> 0 then Some (- EMAPPED, st)
                   else do { st \<leftarrow> store_pte curr_pte pte st; Some (0, st) } } }"

definition pt_unmap_page :: "u64 \<Rightarrow> u64 \<Rightarrow> pt \<Rightarrow> (int \<times> pt) option" where
  "pt_unmap_page satp vpn st =
     do { (depth, ptes, out) \<leftarrow> pt_get_pte satp vpn (replicate PT_NUM_LEVELS 0) st;
          if depth < 0 then Some (depth, st)
          else do {
            p \<leftarrow> out;
            st \<leftarrow> store_pte p 0 st;
            Some (int (unat (level2pagen (depth2level (nat depth)))), st) } }"

function highest_empty_loop :: "nat \<Rightarrow> u64 list \<Rightarrow> int option" where
  "highest_empty_loop depth ptes =
     (if depth < PT_NUM_LEVELS then
        do { ensure (depth < length ptes);
             if ptes ! depth = 0 then Some (int (depth2level depth))
             else highest_empty_loop (depth + 1) ptes }
      else Some (- EINVALARGS))"
  by pat_completeness auto
termination
  by (relation "measure (\<lambda>(d, _). PT_NUM_LEVELS - d)") auto

declare highest_empty_loop.simps [simp del]

definition raw_pt_find_level_of_highest_empty_pte :: "u64 \<Rightarrow> u64 \<Rightarrow> pt \<Rightarrow> int option" where
  "raw_pt_find_level_of_highest_empty_pte satp vpn st =
     do { (r, ptes, _) \<leftarrow> pt_get_pte satp vpn (replicate PT_NUM_LEVELS 0) st;
          if r \<ge> 0 then Some (- EMAPPED) else highest_empty_loop 0 ptes }"

definition get_kvirt :: "u64 \<Rightarrow> u64 \<Rightarrow> pt \<Rightarrow> (u64 \<times> pt) option" where
  "get_kvirt satp user_virtual st =
     do { (pt_index, ptes, _) \<leftarrow> pt_get_pte satp (virt2vpn user_virtual) (replicate PT_NUM_LEVELS 0) st;
          if pt_index < 0 then
            do { st \<leftarrow> printerr (''ERROR: cant find the phys of the app .text segment'' @ [CHR 0x0A]) st;
                 Some (NULL, st) }
          else Some (phys2kvirt st (ppn2phys (pte_get_ppn (ptes ! nat pt_index))), st) }"

end
