(* ===== verification/Pt_Map.thy ===== *)
theory Pt_Map
  imports Pt_Walk
begin

text \<open>
  What a page table in memory maps. \<open>tab m root vpn d\<close> is the table the walk of \<open>vpn\<close> reaches
  at depth \<open>d\<close> (the root table has depth 0), \<open>ent\<close> the entry it finds there and
  \<open>leaf_at m root vpn d e\<close> says that the walk ends at the leaf \<open>e\<close>. \<open>pt_wf\<close> is the invariant
  of an address space: its tables form a tree of allocated pages. The elementary changes of
  memory (clearing a fresh page, installing an empty table, writing a leaf) are described by
  their effect on these functions.
\<close>

unbundle bit_operations_syntax

section \<open>Tables in memory\<close>

definition slot :: "u64 \<Rightarrow> u64 \<Rightarrow> addr" where
  "slot p i = ppn2phys p + i * 8"

definition entry :: "mem \<Rightarrow> u64 \<Rightarrow> u64 \<Rightarrow> u64" where
  "entry m p i = load64 m (slot p i)"

abbreviation idx :: "u64 \<Rightarrow> nat \<Rightarrow> u64" where
  "idx vpn d \<equiv> vpn2vpnlevel vpn (3 - d)"

definition is_table :: "u64 \<Rightarrow> bool" where
  "is_table e \<longleftrightarrow> pte_is_valid e \<and> \<not> pte_is_leaf e"

fun tab :: "mem \<Rightarrow> u64 \<Rightarrow> u64 \<Rightarrow> nat \<Rightarrow> u64 option" where
  "tab m root vpn 0 = Some root"
| "tab m root vpn (Suc d) =
     (case tab m root vpn d of
        None \<Rightarrow> None
      | Some p \<Rightarrow>
          let e = entry m p (idx vpn d)
          in if is_table e then Some (pte_get_ppn e) else None)"

definition ent :: "mem \<Rightarrow> u64 \<Rightarrow> u64 \<Rightarrow> nat \<Rightarrow> u64 option" where
  "ent m root vpn d = map_option (\<lambda>p. entry m p (idx vpn d)) (tab m root vpn d)"

definition leaf_at :: "mem \<Rightarrow> u64 \<Rightarrow> u64 \<Rightarrow> nat \<Rightarrow> u64 \<Rightarrow> bool" where
  "leaf_at m root vpn d e \<longleftrightarrow> d < 4 \<and> ent m root vpn d = Some e \<and> pte_is_leaf e"

text \<open>The bits of the page number that select the table at depth \<open>d\<close>.\<close>

definition pre :: "u64 \<Rightarrow> nat \<Rightarrow> u64" where
  "pre vpn d = drop_bit (9 * (4 - d)) (vpn AND mask 36)"

definition live_page :: "buddy \<Rightarrow> u64 \<Rightarrow> bool" where
  "live_page fr p \<longleftrightarrow> (\<exists>b < NBLOCKS. p = block2ppn b \<and> b \<notin> free_pages fr)"

text \<open>The entries a table may hold: none is a writable pointer to a table, which is reserved.\<close>

definition pte_ok :: "nat \<Rightarrow> u64 \<Rightarrow> bool" where
  "pte_ok d e \<longleftrightarrow> e = 0 \<or> (pte_is_valid e \<and> (d = 3 \<or> bit e 2 \<longrightarrow> pte_is_leaf e))"

definition pt_wf :: "mem \<Rightarrow> buddy \<Rightarrow> u64 \<Rightarrow> bool" where
  "pt_wf m fr root \<longleftrightarrow>
     (\<forall>vpn d p. d < 4 \<longrightarrow> tab m root vpn d = Some p \<longrightarrow> live_page fr p)
     \<and> (\<forall>vpn vpn' d d' p. d < 4 \<longrightarrow> d' < 4 \<longrightarrow> tab m root vpn d = Some p \<longrightarrow> tab m root vpn' d' = Some p \<longrightarrow>
          d = d' \<and> pre vpn d = pre vpn' d)
     \<and> (\<forall>vpn d e. d < 4 \<longrightarrow> ent m root vpn d = Some e \<longrightarrow> pte_ok d e)"

section \<open>Addresses of entries\<close>

lemma unat_idx: "unat (vpn2vpnlevel vpn l) < 512"
  by (simp add: vpn2vpnlevel_def mask_9 unat_and_mask_64)

lemma unat_slot:
  assumes "unat p < 2 ^ 44" "unat i < 512"
  shows "unat (slot p i) = 4096 * unat p + 8 * unat i"
proof -
  have p: "unat (ppn2phys p) = 4096 * unat p"
    using assms(1) by (simp add: ppn2phys_def unat_push_bit_64)
  have i: "unat (i * 8) = 8 * unat i"
    using assms(2) by (subst unat_mult_lem [THEN iffD1]) auto
  show ?thesis unfolding slot_def using assms p i by (subst unat_add_64) auto
qed

lemma slot_aligned: "unat p < 2 ^ 44 \<Longrightarrow> unat i < 512 \<Longrightarrow> aligned8 (slot p i)"
  by (simp add: unat_slot)

lemma page_offset_unique:
  fixes a b c d :: nat
  assumes "4096 * a + b = 4096 * c + d" "b < 4096" "d < 4096"
  shows "a = c \<and> b = d"
  using assms by (cases a c rule: linorder_cases) auto

lemma slot_eq_iff:
  assumes "unat p < 2 ^ 44" "unat i < 512" "unat q < 2 ^ 44" "unat j < 512"
  shows "slot p i = slot q j \<longleftrightarrow> p = q \<and> i = j"
proof
  assume "slot p i = slot q j"
  then have "4096 * unat p + 8 * unat i = 4096 * unat q + 8 * unat j"
    using unat_slot assms by metis
  then have "unat p = unat q \<and> unat i = unat j" 
    using page_offset_unique [of "unat p" "8 * unat i" "unat q" "8 * unat j"] assms(2,4) by simp
  then show "p = q \<and> i = j" by (simp add: u64_eq_iff)
qed simp

lemma entry_store:
  assumes "unat p < 2 ^ 44" "unat i < 512" "unat q < 2 ^ 44" "unat j < 512"
  shows "entry (store64 m (slot p i) v) q j = (if q = p \<and> j = i then v else entry m q j)"
  using load64_store64_other [OF slot_aligned [OF assms(1,2)] slot_aligned [OF assms(3,4)], of m v]
  by (auto simp: entry_def slot_eq_iff [OF assms])

lemma unat_page_offset:
  assumes "unat p < 2 ^ 44" "x < 4096"
  shows "unat (ppn2phys p + of_nat x) = 4096 * unat p + x"
proof -
  have "unat (ppn2phys p) = 4096 * unat p"
    using assms(1) by (simp add: ppn2phys_def unat_push_bit_64)
  then show ?thesis using assms by (subst unat_add_of_nat_64) auto
qed

lemma entry_memset_page:
  assumes "unat p < 2 ^ 44" "unat q < 2 ^ 44" "unat j < 512"
  shows "entry (memset m (ppn2phys p) 0 0x1000) q j = (if q = p then 0 else entry m q j)"
proof -
  let ?m = "memset m (ppn2phys p) 0 0x1000"
  have a: "unat (slot q j + of_nat i) = 4096 * unat q + 8 * unat j + i" if "i < 8" for i
    using aligned8_offset [OF slot_aligned [OF assms(2,3)] that] unat_slot [OF assms(2,3)] by simp
  have pp: "unat (ppn2phys p) = 4096 * unat p"
    using assms(1) by (simp add: ppn2phys_def unat_push_bit_64)
  have inside: "slot q j + of_nat i - ppn2phys p < 0x1000 \<longleftrightarrow> q = p" if i: "i < 8" for i
  proof
    assume lt: "slot q j + of_nat i - ppn2phys p < 0x1000"
    define o' where "o' = unat (slot q j + of_nat i - ppn2phys p)"
    have o: "o' < 4096" using lt by (simp add: o'_def word_less_nat_alt)
    have "slot q j + of_nat i = ppn2phys p + of_nat o'" by (simp add: o'_def)
    then have "4096 * unat q + 8 * unat j + i = 4096 * unat p + o'"
      using a [OF i] pp o assms(1) by (metis (no_types) unat_page_offset)
    then have "unat q = unat p"
      using page_offset_unique [of "unat q" "8 * unat j + i" "unat p" o'] o i assms(3) by simp
    then show "q = p" by (simp add: u64_eq_iff)
  next
    assume "q = p"
    then have "unat (slot q j + of_nat i - ppn2phys p) = 8 * unat j + i"
      using a [OF i] pp by (subst unat_sub_64) (auto simp: word_le_nat_alt)
    then show "slot q j + of_nat i - ppn2phys p < 0x1000"
      using assms(3) i by (simp add: word_less_nat_alt)
  qed
  have "load_le 8 ?m (slot q j) = (if q = p then load_le 8 (\<lambda>_. 0) (slot q j) else load_le 8 m (slot q j))"
    using inside by (auto simp: memset_apply intro!: load_le_cong)
  moreover have "load_le k (\<lambda>_. 0) x = 0" for k x by (induction k arbitrary: x) auto
  ultimately show ?thesis by (simp add: entry_def load64_def)
qed


section \<open>Walks\<close>

lemma pte_get_ppn_bound: "unat (pte_get_ppn e) < 2 ^ 44"
  by (simp add: pte_get_ppn_def mask_44 unat_and_mask_64)

lemma tab_bound: "unat root < 2 ^ 44 \<Longrightarrow> tab m root vpn d = Some p \<Longrightarrow> unat p < 2 ^ 44"
  using pte_get_ppn_bound by (cases d) (auto simp: Let_def split: option.splits if_splits)

lemma pre_Suc:
  assumes "d < 4"
  shows "pre vpn (Suc d) = pre vpn' (Suc d) \<longleftrightarrow> pre vpn d = pre vpn' d \<and> idx vpn d = idx vpn' d"
proof
  assume eq: "pre vpn (Suc d) = pre vpn' (Suc d)"
  have b: "bit vpn n = bit vpn' n" if "9 * (3 - d) \<le> n" "n < 36" for n
  proof -
    have "bit (pre vpn (Suc d)) (n - 9 * (3 - d)) = bit (pre vpn' (Suc d)) (n - 9 * (3 - d))" by (simp only: eq)
    then show ?thesis using that by (simp add: pre_def bit_simps)
  qed
  have "bit (pre vpn d) n = bit (pre vpn' d) n" for n
    using b [of "9 * (4 - d) + n"] assms by (auto simp: pre_def bit_simps)
  then have "pre vpn d = pre vpn' d" by (intro bit_word_eqI)
  moreover have "bit (idx vpn d) n = bit (idx vpn' d) n" for n
    using b [of "9 * (3 - d) + n"] assms by (auto simp: vpn2vpnlevel_def mask_9 bit_simps)
  then have "idx vpn d = idx vpn' d" by (intro bit_word_eqI)
  ultimately show "pre vpn d = pre vpn' d \<and> idx vpn d = idx vpn' d" by blast
next
  assume eq: "pre vpn d = pre vpn' d \<and> idx vpn d = idx vpn' d"
  have hi: "bit vpn n = bit vpn' n" if "9 * (4 - d) \<le> n" "n < 36" for n
  proof -
    have "bit (pre vpn d) (n - 9 * (4 - d)) = bit (pre vpn' d) (n - 9 * (4 - d))" using eq by simp
    then show ?thesis using that by (simp add: pre_def bit_simps)
  qed
  have lo: "bit vpn n = bit vpn' n" if "9 * (3 - d) \<le> n" "n < 9 * (4 - d)" for n
  proof -
    have "bit (idx vpn d) (n - 9 * (3 - d)) = bit (idx vpn' d) (n - 9 * (3 - d))" using eq by simp
    moreover have "n - 9 * (3 - d) < 9" using that assms by auto
    ultimately show ?thesis using that by (simp add: vpn2vpnlevel_def mask_9 bit_simps)
  qed
  have "bit vpn n = bit vpn' n" if "9 * (3 - d) \<le> n" "n < 36" for n
    using hi [of n] lo [of n] that by linarith
  then show "pre vpn (Suc d) = pre vpn' (Suc d)"
    by (intro bit_word_eqI) (auto simp: pre_def bit_simps)
qed

lemma pre_mono:
  assumes "d' \<le> d" "d \<le> 4" "pre vpn d = pre vpn' d"
  shows "pre vpn d' = pre vpn' d'"
  using assms
proof (induction d)
  case (Suc d)
  then show ?case using pre_Suc [of d vpn vpn'] by (cases "d' = Suc d") auto
qed simp

lemma tab_cong: "d \<le> 4 \<Longrightarrow> pre vpn d = pre vpn' d \<Longrightarrow> tab m root vpn d = tab m root vpn' d"
proof (induction d)
  case (Suc d)
  then show ?case using pre_Suc [of d vpn vpn'] by (auto split: option.splits)
qed simp

lemma ent_cong:
  "d < 4 \<Longrightarrow> pre vpn (Suc d) = pre vpn' (Suc d) \<Longrightarrow> ent m root vpn d = ent m root vpn' d"
  using pre_Suc [of d vpn vpn'] tab_cong [of d vpn vpn'] by (simp add: ent_def)

lemma tab_prefix:
  assumes "tab m root vpn d = Some p" "d' < d"
  shows "\<exists>e. ent m root vpn d' = Some e \<and> is_table e"
  using assms
proof (induction d arbitrary: p)
  case (Suc d)
  then obtain q where q: "tab m root vpn d = Some q" "is_table (entry m q (idx vpn d))"
    by (auto simp: Let_def split: option.splits if_splits)
  then show ?case using Suc.IH [OF q(1)] Suc.prems(2) by (cases "d' = d") (auto simp: ent_def)
qed simp

text \<open>A walk ends at one leaf at most.\<close>

lemma leaf_at_unique:
  assumes "leaf_at m root vpn d e" "leaf_at m root vpn d' e'"
  shows "d = d' \<and> e = e'"
proof -
  have "\<not> x < y" if "leaf_at m root vpn x a" "leaf_at m root vpn y b" for x y a b
    using that tab_prefix [of m root vpn y _ x] by (auto simp: leaf_at_def ent_def is_table_def)
  then have "d = d'" using assms by (meson linorder_neqE_nat)
  then show ?thesis using assms by (simp add: leaf_at_def)
qed

section \<open>Elementary changes\<close>

text \<open>Tables are untouched when a page that is no table changes.\<close>

lemma tab_frame:
  assumes "\<And>d p j. d < 4 \<Longrightarrow> tab m root vpn d = Some p \<Longrightarrow> entry m' p (idx vpn d) = entry m p (idx vpn d)"
  shows "d \<le> 4 \<Longrightarrow> tab m' root vpn d = tab m root vpn d" "d < 4 \<Longrightarrow> ent m' root vpn d = ent m root vpn d"
proof -
  show t: "tab m' root vpn d = tab m root vpn d" if "d \<le> 4" for d
    using that
  proof (induction d)
    case (Suc d)
    then show ?case using assms [of d] by (auto split: option.splits)
  qed simp
  show "d < 4 \<Longrightarrow> ent m' root vpn d = ent m root vpn d"
    using t [of d] assms [of d] by (auto simp: ent_def map_option_case split: option.splits)
qed

text \<open>Writing an entry that is no table over one that is no table.\<close>

lemma write_leaf:
  assumes root: "unat root < 2 ^ 44" and d: "d < 4" and t: "tab m root vpn d = Some p"
    and inj: "\<And>vpn' d'. d' < 4 \<Longrightarrow> tab m root vpn' d' = Some p \<Longrightarrow> d' = d \<and> pre vpn' d = pre vpn d"
    and old: "\<not> is_table (entry m p (idx vpn d))" and new: "\<not> is_table v"
    and m': "m' = store64 m (slot p (idx vpn d)) v"
  shows "d' \<le> 4 \<Longrightarrow> tab m' root vpn' d' = tab m root vpn' d'"
    and "d' < 4 \<Longrightarrow> ent m' root vpn' d' =
      (if d' = d \<and> pre vpn' (Suc d) = pre vpn (Suc d) then Some v else ent m root vpn' d')"
proof -
  have e: "entry m' q (idx vpn' k) = (if q = p \<and> idx vpn' k = idx vpn d then v else entry m q (idx vpn' k))"
    if "tab m root vpn' k = Some q" for q vpn' k
    unfolding m' by (intro entry_store tab_bound [OF root t] tab_bound [OF root that] unat_idx)
  show T: "tab m' root vpn' d' = tab m root vpn' d'" if "d' \<le> 4" for vpn' d'
    using that
  proof (induction d')
    case (Suc d')
    then show ?case using e [of vpn' d'] old new
      by (cases "tab m root vpn' d'") (auto simp: Let_def)
  qed simp
  show "ent m' root vpn' d' =
      (if d' = d \<and> pre vpn' (Suc d) = pre vpn (Suc d) then Some v else ent m root vpn' d')" if d': "d' < 4"
  proof (cases "tab m root vpn' d'")
    case None
    then have "\<not> (d' = d \<and> pre vpn' (Suc d) = pre vpn (Suc d))"
      using t tab_cong [of d vpn vpn' m root] pre_Suc [OF d, of vpn vpn'] d by auto
    then show ?thesis using None T [of d' vpn'] d' by (auto simp: ent_def)
  next
    case (Some q)
    have "q = p \<and> idx vpn' d' = idx vpn d \<longleftrightarrow> d' = d \<and> pre vpn' (Suc d) = pre vpn (Suc d)"
      using inj [OF d', of vpn'] Some t tab_cong [of d vpn' vpn m root] pre_Suc [OF d, of vpn' vpn] d by auto
    then show ?thesis using Some T [of d' vpn'] d' e [OF Some] by (auto simp: ent_def)
  qed
qed

text \<open>Installing an empty table at an empty entry.\<close>

lemma install_table:
  assumes root: "unat root < 2 ^ 44" and d: "d < 3" and t: "tab m root vpn d = Some p"
    and inj: "\<And>vpn' d'. d' < 4 \<Longrightarrow> tab m root vpn' d' = Some p \<Longrightarrow> d' = d \<and> pre vpn' d = pre vpn d"
    and old: "\<not> is_table (entry m p (idx vpn d))" and new: "is_table v" "pte_get_ppn v = q"
    and fresh: "\<And>vpn' d'. d' < 4 \<Longrightarrow> tab m root vpn' d' \<noteq> Some q"
    and zero: "\<And>j. unat j < 512 \<Longrightarrow> entry m q j = 0"
    and m': "m' = store64 m (slot p (idx vpn d)) v"
  shows "d' \<le> 4 \<Longrightarrow> tab m' root vpn' d' =
      (if d' = Suc d \<and> pre vpn' (Suc d) = pre vpn (Suc d) then Some q else tab m root vpn' d')"
    and "d' < 4 \<Longrightarrow> ent m' root vpn' d' =
      (if d' = d \<and> pre vpn' (Suc d) = pre vpn (Suc d) then Some v
       else if d' = Suc d \<and> pre vpn' (Suc d) = pre vpn (Suc d) then Some 0
       else ent m root vpn' d')"
proof -
  have e: "entry m' r (vpn2vpnlevel vpn' l) =
      (if r = p \<and> vpn2vpnlevel vpn' l = idx vpn d then v else entry m r (vpn2vpnlevel vpn' l))"
    if "unat r < 2 ^ 44" for r vpn' l
    unfolding m' by (intro entry_store tab_bound [OF root t] that unat_idx)
  have pq: "p \<noteq> q" using fresh [of d vpn] t d by auto
  have zq: "entry m' q (vpn2vpnlevel vpn' l) = 0" for vpn' l
    using e [of q] zero [OF unat_idx] pq pte_get_ppn_bound [of v] new(2) by simp
  have hit: "r = p \<and> idx vpn' k = idx vpn d \<longleftrightarrow> k = d \<and> pre vpn' (Suc d) = pre vpn (Suc d)"
    if "k < 4" "tab m root vpn' k = Some r" for vpn' k r
    using inj [OF that(1), of vpn'] that(2) t tab_cong [of d vpn' vpn m root] pre_Suc [of d vpn' vpn] d by auto
  have same: "tab m root vpn' (Suc d) = None" if "pre vpn' (Suc d) = pre vpn (Suc d)" for vpn'
    using that t old tab_cong [of d vpn' vpn m root] pre_Suc [of d vpn' vpn] d by (auto simp: Let_def)
  have nt: "\<not> is_table 0" by (simp add: is_table_def pte_is_valid_bit)
  show T: "tab m' root vpn' d' =
      (if d' = Suc d \<and> pre vpn' (Suc d) = pre vpn (Suc d) then Some q else tab m root vpn' d')"
    if "d' \<le> 4" for vpn' d'
    using that
  proof (induction d')
    case (Suc k)
    show ?case
    proof (cases "k = Suc d \<and> pre vpn' (Suc d) = pre vpn (Suc d)")
      case True
      then show ?thesis using Suc same [of vpn'] zq nt by simp
    next
      case False
      then have IH: "tab m' root vpn' k = tab m root vpn' k" using Suc by auto
      show ?thesis
      proof (cases "tab m root vpn' k")
        case None
        then have "\<not> (k = d \<and> pre vpn' (Suc d) = pre vpn (Suc d))"
          using t tab_cong [of d vpn' vpn m root] pre_Suc [of d vpn' vpn] d by auto
        then show ?thesis using None IH by auto
      next
        case (Some r)
        note h = hit [OF _ Some] and er = e [OF tab_bound [OF root Some]]
        show ?thesis
        proof (cases "k = d \<and> pre vpn' (Suc d) = pre vpn (Suc d)")
          case True
          then show ?thesis using h er Some IH Suc.prems new by simp
        next
          case False
          then have "entry m' r (idx vpn' k) = entry m r (idx vpn' k)" using h er Suc.prems by auto
          then show ?thesis using Some IH False by auto
        qed
      qed
    qed
  qed simp
  show "ent m' root vpn' d' =
      (if d' = d \<and> pre vpn' (Suc d) = pre vpn (Suc d) then Some v
       else if d' = Suc d \<and> pre vpn' (Suc d) = pre vpn (Suc d) then Some 0
       else ent m root vpn' d')" if d': "d' < 4"
  proof (cases "d' = Suc d \<and> pre vpn' (Suc d) = pre vpn (Suc d)")
    case True
    then show ?thesis using T [of d' vpn'] d' zq by (simp add: ent_def)
  next
    case no: False
    then have Td: "tab m' root vpn' d' = tab m root vpn' d'" using T [of d' vpn'] d' by auto
    show ?thesis
    proof (cases "tab m root vpn' d'")
      case None
      then have "\<not> (d' = d \<and> pre vpn' (Suc d) = pre vpn (Suc d))"
        using t tab_cong [of d vpn' vpn m root] pre_Suc [of d vpn' vpn] d by auto
      then show ?thesis using None Td no by (auto simp: ent_def)
    next
      case (Some r)
      then show ?thesis using hit [OF d' Some] e [OF tab_bound [OF root Some]] Td no by (auto simp: ent_def)
    qed
  qed
qed

end
