(* ===== verification/Pt_Ops.thy ===== *)
theory Pt_Ops
  imports Pt_Map
begin

text \<open>
  The walker of \<^verbatim>\<open>pt.c\<close> against \<^theory_text>\<open>Pt_Map\<close>: \<open>pt_get_pte\<close> finds the leaf of a page number
  if there is one, \<open>pt_set_pte_leaf\<close> maps exactly the pages of one leaf, \<open>pt_unmap_page\<close>
  unmaps exactly those, and every operation keeps the tables a tree of allocated pages.
\<close>

unbundle bit_operations_syntax

abbreviation root_of :: "u64 \<Rightarrow> u64" where
  "root_of satp \<equiv> satp AND mask 44"

definition pt_inv :: "u64 \<Rightarrow> pt \<Rightarrow> bool" where
  "pt_inv satp st \<longleftrightarrow> buddy_inv (frames st) \<and> pt_wf (pmem st) (frames st) (root_of satp)"

abbreviation pte_at :: "pt \<Rightarrow> u64 \<Rightarrow> u64 \<Rightarrow> nat \<Rightarrow> pte_ptr" where
  "pte_at st p vpn d \<equiv> At (phys2kvirt st (slot p (idx vpn d)))"

lemma kaddr_phys2kvirt [simp]: "kaddr st (phys2kvirt st x) = x"
  by (simp add: kaddr_def phys2kvirt_def)

lemma root_bound: "unat (root_of satp) < 2 ^ 44"
  by (simp add: unat_and_mask_64)

section \<open>Looking up\<close>

text \<open>The array \<open>ptes\<close> after a walk.\<close>

definition walk_array :: "mem \<Rightarrow> u64 \<Rightarrow> u64 \<Rightarrow> u64 list" where
  "walk_array m satp vpn =
     satp2pte satp # map (\<lambda>k. case ent m (root_of satp) vpn k of None \<Rightarrow> 0 | Some e \<Rightarrow> e) [0..<4]"

lemma next_pte:
  assumes "length ptes = 5" "depth < 4" "pte_get_ppn (ptes ! depth) = p"
  shows "raw_pt_next_pte depth vpn ptes st =
    Some (pte_at st p vpn depth, ptes[Suc depth := entry (pmem st) p (idx vpn depth)])"
  using assms by (simp add: raw_pt_next_pte_def load_pte_def level2depth_def slot_def entry_def Let_def)

lemma tab_none_beyond: "tab m root vpn d = None \<Longrightarrow> d \<le> k \<Longrightarrow> tab m root vpn k = None"
  using tab_prefix [of m root vpn k _ d] by (cases "d = k") (fastforce simp: ent_def)+

lemma walk_array_nth:
  "walk_array m satp vpn ! 0 = satp2pte satp"
  "k < 4 \<Longrightarrow> walk_array m satp vpn ! Suc k = (case ent m (root_of satp) vpn k of None \<Rightarrow> 0 | Some e \<Rightarrow> e)"
  "length (walk_array m satp vpn) = 5"
  by (simp_all add: walk_array_def)

lemma get_pte_loop_spec:
  assumes "d < 4" "length ptes = 5" "tab m (root_of satp) vpn d = Some p" "m = pmem st"
    "\<And>i. i \<le> Suc d \<Longrightarrow> ptes ! i = walk_array m satp vpn ! i" "\<And>i. Suc d < i \<Longrightarrow> i < 5 \<Longrightarrow> ptes ! i = 0"
  shows "(\<exists>d' e q. leaf_at m (root_of satp) vpn d' e \<and> tab m (root_of satp) vpn d' = Some q
      \<and> get_pte_loop (Suc d) vpn ptes (pte_at st p vpn d) st
        = Some (int (Suc d'), walk_array m satp vpn, Some (pte_at st q vpn d')))
    \<or> ((\<forall>d' \<ge> d. \<forall>e. \<not> leaf_at m (root_of satp) vpn d' e)
      \<and> (\<exists>r < 0. get_pte_loop (Suc d) vpn ptes (pte_at st p vpn d) st = Some (r, walk_array m satp vpn, None)))"
  using assms
proof (induction "4 - d" arbitrary: d ptes p)
  case 0
  then show ?case by simp
next
  case (Suc n)
  let ?e = "entry m p (idx vpn d)"
  let ?W = "walk_array m satp vpn"
  have ent: "ent m (root_of satp) vpn d = Some ?e" using Suc.prems by (simp add: ent_def)
  have pe: "ptes ! Suc d = ?e"
    using Suc.prems(1) Suc.prems(5) [of "Suc d"] ent by (simp add: walk_array_nth)
  have beyond: "ptes = ?W" if "\<not> is_table ?e"
  proof (rule nth_equalityI)
    fix i assume "i < length ptes"
    then have i: "i < 5" using Suc.prems(2) by simp
    show "ptes ! i = ?W ! i"
    proof (cases "i \<le> Suc d")
      case False
      then obtain k where k: "i = Suc k" "Suc d \<le> k" by (cases i) auto
      have "tab m (root_of satp) vpn (Suc d) = None" using that Suc.prems(3) by simp
      then have "tab m (root_of satp) vpn k = None" by (rule tab_none_beyond [OF _ k(2)])
      then have "ent m (root_of satp) vpn k = None" by (simp add: ent_def)
      then show ?thesis using Suc.prems(6) [of i] False i k by (simp add: walk_array_nth)
    qed (use Suc.prems(5) in auto)
  qed (simp add: Suc.prems walk_array_nth)
  have noleaf: "\<forall>d' \<ge> d. \<forall>e. \<not> leaf_at m (root_of satp) vpn d' e"
    if "\<not> is_table ?e" "\<not> pte_is_leaf ?e"
  proof (intro allI impI notI)
    fix d' e assume d': "d \<le> d'" "leaf_at m (root_of satp) vpn d' e"
    have "\<not> d < d'"
    proof
      assume "d < d'"
      then show False using tab_prefix [of m "root_of satp" vpn d' _ d] that(1) ent d'(2)
        by (auto simp: leaf_at_def ent_def)
    qed
    then show False using d' that(2) ent by (auto simp: leaf_at_def)
  qed
  consider "pte_is_leaf ?e" | "\<not> pte_is_leaf ?e" "\<not> pte_is_valid ?e"
    | "is_table ?e" "d = 3" | "is_table ?e" "d < 3"
    using Suc.prems(1) unfolding is_table_def by linarith
  then show ?case
  proof cases
    case 1
    then have "leaf_at m (root_of satp) vpn d ?e" using ent Suc.prems(1) by (simp add: leaf_at_def)
    moreover have "get_pte_loop (Suc d) vpn ptes (pte_at st p vpn d) st
        = Some (int (Suc d), ?W, Some (pte_at st p vpn d))"
      using 1 Suc.prems(1,2) pe beyond
      by (subst get_pte_loop.simps) (simp add: is_table_def)
    ultimately show ?thesis using Suc.prems(3) by blast
  next
    case 2
    then have "get_pte_loop (Suc d) vpn ptes (pte_at st p vpn d) st = Some (- 3, ?W, None)"
      using Suc.prems(1,2) pe beyond by (subst get_pte_loop.simps) (simp add: is_table_def)
    then show ?thesis using noleaf 2 by (auto simp: is_table_def)
  next
    case 3
    have "ptes = ?W"
      using Suc.prems(2,5) 3(2) by (intro nth_equalityI) (auto simp: walk_array_nth)
    then have "get_pte_loop (Suc d) vpn ptes (pte_at st p vpn d) st = Some (- 1, ?W, None)"
      using 3 Suc.prems(2) pe by (subst get_pte_loop.simps, subst get_pte_loop.simps) (simp add: is_table_def)
    moreover have "\<not> leaf_at m (root_of satp) vpn d' e" if "d' \<ge> d" for d' e
    proof
      assume l: "leaf_at m (root_of satp) vpn d' e"
      then have "d' = d" using that 3(2) by (simp add: leaf_at_def)
      then show False using l 3(1) ent by (simp add: leaf_at_def is_table_def)
    qed
    ultimately show ?thesis by auto
  next
    case 4
    let ?q = "pte_get_ppn ?e"
    let ?ptes = "ptes[Suc (Suc d) := entry m ?q (idx vpn (Suc d))]"
    have t: "tab m (root_of satp) vpn (Suc d) = Some ?q" using 4 Suc.prems(3) by (simp add: Let_def)
    have run: "get_pte_loop (Suc d) vpn ptes (pte_at st p vpn d) st
        = get_pte_loop (Suc (Suc d)) vpn ?ptes (pte_at st ?q vpn (Suc d)) st"
      using 4 Suc.prems(2) pe next_pte [of ptes "Suc d" ?q vpn st] Suc.prems(4)
      by (subst get_pte_loop.simps) (simp add: is_table_def)
    have "?ptes ! i = ?W ! i" if "i \<le> Suc (Suc d)" for i
      using that Suc.prems(2) Suc.prems(5) [of i] 4(2) t by (cases "i = Suc (Suc d)") (auto simp: walk_array_nth ent_def)
    moreover have "?ptes ! i = 0" if "Suc (Suc d) < i" "i < 5" for i
      using that Suc.prems(6) [of i] by simp
    ultimately have "(\<exists>d' e q. leaf_at m (root_of satp) vpn d' e \<and> tab m (root_of satp) vpn d' = Some q
        \<and> get_pte_loop (Suc (Suc d)) vpn ?ptes (pte_at st ?q vpn (Suc d)) st
          = Some (int (Suc d'), ?W, Some (pte_at st q vpn d')))
      \<or> ((\<forall>d' \<ge> Suc d. \<forall>e. \<not> leaf_at m (root_of satp) vpn d' e)
        \<and> (\<exists>r < 0. get_pte_loop (Suc (Suc d)) vpn ?ptes (pte_at st ?q vpn (Suc d)) st = Some (r, ?W, None)))"
      using Suc.hyps(2) 4(2) Suc.prems(2,4) t by (intro Suc.hyps(1)) auto
    moreover have "\<not> leaf_at m (root_of satp) vpn d e" for e
      using 4(1) ent by (auto simp: leaf_at_def is_table_def)
    ultimately show ?thesis unfolding run by (metis Suc_leI le_neq_implies_less)
  qed
qed

lemma pt_get_pte_spec:
  "(\<exists>d e q. leaf_at (pmem st) (root_of satp) vpn d e \<and> tab (pmem st) (root_of satp) vpn d = Some q
     \<and> pt_get_pte satp vpn (replicate 5 0) st
       = Some (int (Suc d), walk_array (pmem st) satp vpn, Some (pte_at st q vpn d)))
   \<or> ((\<forall>d e. \<not> leaf_at (pmem st) (root_of satp) vpn d e)
     \<and> (\<exists>r < 0. pt_get_pte satp vpn (replicate 5 0) st = Some (r, walk_array (pmem st) satp vpn, None)))"
proof -
  let ?ptes = "(replicate 5 0)[0 := satp2pte satp]"
  let ?ptes1 = "?ptes[1 := entry (pmem st) (root_of satp) (idx vpn 0)]"
  have l: "length ?ptes = 5" by simp
  have run: "pt_get_pte satp vpn (replicate 5 0) st = get_pte_loop (Suc 0) vpn ?ptes1 (pte_at st (root_of satp) vpn 0) st"
    using next_pte [OF l, of 0 "root_of satp" vpn st]
    by (simp add: pt_get_pte_def satp2pte_ppn, subst get_pte_loop.simps) simp
  have "?ptes1 ! i = walk_array (pmem st) satp vpn ! i" if "i \<le> Suc 0" for i
    using that by (cases i) (auto simp: walk_array_nth ent_def)
  moreover have "?ptes1 ! i = 0" if "Suc 0 < i" "i < 5" for i using that by simp
  ultimately show ?thesis
    unfolding run using get_pte_loop_spec [of 0 ?ptes1 "pmem st" satp vpn "root_of satp" st] by auto
qed


section \<open>Allocating tables\<close>

lemma block2ppn_unat: "b < NBLOCKS \<Longrightarrow> unat (block2ppn b) = 0x80000 + b"
  by (simp add: block2ppn_def phys2ppn_def unat_add_64 unat_of_nat_64)

lemma block2ppn_inj: "b < NBLOCKS \<Longrightarrow> c < NBLOCKS \<Longrightarrow> block2ppn b = block2ppn c \<longleftrightarrow> b = c"
  using block2ppn_unat by (auto simp: u64_eq_iff)

lemma phys2ppn_ppn2phys: "unat p < 2 ^ 44 \<Longrightarrow> phys2ppn_pt (ppn2phys p) = p"
  by (simp add: u64_eq_iff phys2ppn_pt_def ppn2phys_def unat_drop_bit_64 unat_push_bit_64)

lemma free_pages_bound: "buddy_inv fr \<Longrightarrow> b \<in> free_pages fr \<Longrightarrow> b < NBLOCKS"
  using ba.in_memory by blast

lemma pt_alloc_page:
  assumes "buddy_inv (frames st)"
  shows "(pt_alloc 0 st = Some (0, st) \<and> free_pages (frames st) = {})
    \<or> (\<exists>b fr. b \<in> free_pages (frames st) \<and> buddy_inv fr \<and> free_pages fr = free_pages (frames st) - {b}
      \<and> allocated (frames st) b = None \<and> allocated fr = (allocated (frames st))(b := Some (0, 1))
      \<and> pt_alloc 0 st = Some (ppn2phys (block2ppn b),
          st\<lparr>frames := fr, pmem := memset (pmem st) (ppn2phys (block2ppn b)) 0 0x1000\<rparr>))"
proof -
  obtain r fr where a: "buddy_alloc 0 (frames st) = Some (r, fr)" "buddy_inv fr"
    using ba.alloc_total [OF assms] by blast
  show ?thesis
  proof (cases r)
    case None
    then have n: "fr = frames st" "\<forall>a. \<not> pages a 0 \<subseteq> free_pages (frames st)"
      using ba.alloc_None [OF assms, of 0] a(1) by auto
    then have "free_pages (frames st) = {}" by (auto simp: pages_def)
    then show ?thesis using a(1) None n(1) by (simp add: pt_alloc_def level2order_def)
  next
    case (Some b)
    then have "pages b 0 \<subseteq> free_pages (frames st)" "free_pages fr = free_pages (frames st) - pages b 0"
      "allocated (frames st) b = None" "allocated fr = (allocated (frames st))(b := Some (0, 1))"
      using ba.alloc_Some [OF assms, of 0 b fr] a(1) by auto
    then show ?thesis using a Some
      by (auto simp: pt_alloc_def level2order_def pages_def Let_def kaddr_def phys2kvirt_def is_paging_enabled_def)
  qed
qed

lemma pt_alloc_pt_spec:
  assumes "buddy_inv (frames st)"
  shows "(pt_alloc_pt st = Some (0, st) \<and> free_pages (frames st) = {})
    \<or> (\<exists>b fr v. b \<in> free_pages (frames st) \<and> buddy_inv fr \<and> free_pages fr = free_pages (frames st) - {b}
      \<and> allocated (frames st) b = None \<and> allocated fr = (allocated (frames st))(b := Some (0, 1))
      \<and> is_table v \<and> v \<noteq> 0 \<and> pte_get_ppn v = block2ppn b \<and> \<not> bit v 2
      \<and> pt_alloc_pt st = Some (v, st\<lparr>frames := fr, pmem := memset (pmem st) (ppn2phys (block2ppn b)) 0 0x1000\<rparr>))"
  using pt_alloc_page [OF assms]
proof (elim disjE conjE exE)
  assume "pt_alloc 0 st = Some (0, st)" "free_pages (frames st) = {}"
  then show ?thesis by (simp add: pt_alloc_pt_def phys2ppn_pt_def)
next
  fix b fr
  assume b: "b \<in> free_pages (frames st)" "buddy_inv fr" "free_pages fr = free_pages (frames st) - {b}"
    "allocated (frames st) b = None" "allocated fr = (allocated (frames st))(b := Some (0, 1))"
    "pt_alloc 0 st = Some (ppn2phys (block2ppn b),
        st\<lparr>frames := fr, pmem := memset (pmem st) (ppn2phys (block2ppn b)) 0 0x1000\<rparr>)"
  have u: "unat (block2ppn b) = 0x80000 + b" "b < NBLOCKS"
    using free_pages_bound [OF assms b(1)] block2ppn_unat by auto
  then have nz: "block2ppn b \<noteq> 0" by (auto simp: u64_eq_iff)
  define v where "v = pte_set (pte_set_ppn 0 (block2ppn b)) PTE_VALID_SHIFT"
  have "block2ppn b AND mask 44 = block2ppn b"
    using u by (simp add: u64_eq_iff unat_and_mask_64)
  then have v: "pte_get_ppn v = block2ppn b" "is_table v" "v \<noteq> 0" "\<not> bit v 2"
    unfolding v_def by (auto simp: pte_get_ppn_set pte_get_set_ppn is_table_def pte_is_valid_bit pte_is_leaf_bit
        bit_pte_set bit_pte_set_ppn dest: arg_cong [of _ _ "\<lambda>w. bit w 0"])
  have "pt_alloc_pt st = Some (v, st\<lparr>frames := fr, pmem := memset (pmem st) (ppn2phys (block2ppn b)) 0 0x1000\<rparr>)"
    using b(6) nz u by (simp add: pt_alloc_pt_def phys2ppn_ppn2phys v_def Let_def)
  then show ?thesis using b v by blast
qed

section \<open>What a walker may change\<close>

definition pt_pages :: "mem \<Rightarrow> u64 \<Rightarrow> u64 set" where
  "pt_pages m root = {p. \<exists>vpn d. d < 4 \<and> tab m root vpn d = Some p}"

definition owned :: "u64 \<Rightarrow> pt \<Rightarrow> u64 set" where
  "owned satp st = pt_pages (pmem st) (root_of satp) \<union> block2ppn ` free_pages (frames st)"

text \<open>
  \<open>pt_grows satp st st'\<close>: from \<open>st\<close> to \<open>st'\<close> only page tables of this address space and pages that
  were free have changed, and no page is given up.
\<close>

definition pt_grows :: "u64 \<Rightarrow> pt \<Rightarrow> pt \<Rightarrow> bool" where
  "pt_grows satp st st' \<longleftrightarrow> st' = st\<lparr>pmem := pmem st', frames := frames st'\<rparr>
     \<and> owned satp st' \<subseteq> owned satp st
     \<and> (\<forall>b x. allocated (frames st) b = Some x \<longrightarrow> allocated (frames st') b = Some x)
     \<and> (\<forall>a. drop_bit 12 a \<notin> owned satp st \<longrightarrow> pmem st' a = pmem st a)"

lemma pt_grows_refl [simp]: "pt_grows satp st st"
  by (simp add: pt_grows_def)

lemma pt_rest_trans:
  "st1 = st\<lparr>pmem := pmem st1, frames := frames st1\<rparr> \<Longrightarrow> st2 = st1\<lparr>pmem := pmem st2, frames := frames st2\<rparr>
   \<Longrightarrow> st2 = st\<lparr>pmem := pmem st2, frames := frames st2\<rparr>"
  by (cases st; cases st1; cases st2) simp

lemma pt_grows_trans: "pt_grows satp st st1 \<Longrightarrow> pt_grows satp st1 st2 \<Longrightarrow> pt_grows satp st st2"
  unfolding pt_grows_def
  by (intro conjI; elim conjE) (rule pt_rest_trans, assumption+, (blast | metis subsetD)+)

lemma pt_grows_same: "pt_grows satp st st' \<Longrightarrow> ksatp st' = ksatp st"
  unfolding pt_grows_def by (cases st; cases st') simp

lemma page_of_offset: "unat p < 2 ^ 44 \<Longrightarrow> x < 4096 \<Longrightarrow> drop_bit 12 (ppn2phys p + of_nat x) = p"
  by (simp add: u64_eq_iff unat_drop_bit_64 unat_page_offset)

lemma store_outside:
  assumes "unat p < 2 ^ 44" "unat i < 512" "drop_bit 12 a \<noteq> p"
  shows "store64 m (slot p i) v a = m a"
proof -
  have "a \<noteq> slot p i + of_nat k" if "k < 8" for k
  proof
    assume "a = slot p i + of_nat k"
    then have "a = ppn2phys p + of_nat (8 * unat i + k)" by (simp add: slot_def add.assoc mult.commute)
    then show False using assms page_of_offset [of p "8 * unat i + k"] that by simp
  qed
  then show ?thesis by (simp add: store64_def store_le_other)
qed

lemma memset_outside:
  assumes "unat p < 2 ^ 44" "drop_bit 12 a \<noteq> p"
  shows "memset m (ppn2phys p) 0 0x1000 a = m a"
proof (rule ccontr)
  assume "\<not> ?thesis"
  then have lt: "a - ppn2phys p < 0x1000" by (auto simp: memset_apply split: if_splits)
  have "a = ppn2phys p + of_nat (unat (a - ppn2phys p))" by simp
  then show False using assms page_of_offset [of p "unat (a - ppn2phys p)"] lt
    by (simp add: word_less_nat_alt)
qed


section \<open>Setting a leaf\<close>

definition same_leaves :: "mem \<Rightarrow> mem \<Rightarrow> u64 \<Rightarrow> bool" where
  "same_leaves m m' root \<longleftrightarrow> (\<forall>vpn d e. leaf_at m' root vpn d e \<longleftrightarrow> leaf_at m root vpn d e)"

lemma same_leaves_refl [simp]: "same_leaves m m root"
  by (simp add: same_leaves_def)

lemma pt_wfD:
  assumes "pt_wf m fr root" "d < 4"
  shows "tab m root vpn d = Some p \<Longrightarrow> live_page fr p"
    and "tab m root vpn d = Some p \<Longrightarrow> d' < 4 \<Longrightarrow> tab m root vpn' d' = Some p \<Longrightarrow> d' = d \<and> pre vpn' d = pre vpn d"
    and "ent m root vpn d = Some e \<Longrightarrow> pte_ok d e"
  using assms unfolding pt_wf_def by metis+

lemma pt_wfI:
  assumes "\<And>vpn d p. d < 4 \<Longrightarrow> tab m root vpn d = Some p \<Longrightarrow> live_page fr p"
    "\<And>vpn vpn' d d' p. d < 4 \<Longrightarrow> d' < 4 \<Longrightarrow> tab m root vpn d = Some p \<Longrightarrow> tab m root vpn' d' = Some p \<Longrightarrow>
      d = d' \<and> pre vpn d = pre vpn' d"
    "\<And>vpn d e. d < 4 \<Longrightarrow> ent m root vpn d = Some e \<Longrightarrow> pte_ok d e"
  shows "pt_wf m fr root"
  unfolding pt_wf_def using assms by blast

lemma live_page_mono: "live_page fr p \<Longrightarrow> free_pages fr' \<subseteq> free_pages fr \<Longrightarrow> live_page fr' p"
  by (auto simp: live_page_def)

lemma free_not_live: "buddy_inv fr \<Longrightarrow> b \<in> free_pages fr \<Longrightarrow> \<not> live_page fr (block2ppn b)"
  using free_pages_bound [of fr b] block2ppn_inj by (auto simp: live_page_def)

text \<open>Zeroing a page that was free leaves every table as it was.\<close>

lemma zero_free_page:
  assumes "pt_wf m fr root" "buddy_inv fr" "b \<in> free_pages fr" "unat root < 2 ^ 44"
    "m' = memset m (ppn2phys (block2ppn b)) 0 0x1000"
  shows "d \<le> 4 \<Longrightarrow> tab m' root vpn d = tab m root vpn d" "d < 4 \<Longrightarrow> ent m' root vpn d = ent m root vpn d"
    "unat j < 512 \<Longrightarrow> entry m' (block2ppn b) j = 0"
    "d < 4 \<Longrightarrow> tab m root vpn d \<noteq> Some (block2ppn b)"
proof -
  have u: "unat (block2ppn b) < 2 ^ 44"
    using block2ppn_unat [OF free_pages_bound [OF assms(2,3)]] free_pages_bound [OF assms(2,3)] by simp
  show ne: "tab m root vpn d \<noteq> Some (block2ppn b)" if "d < 4" for vpn d
    using pt_wfD(1) [OF assms(1) that] free_not_live [OF assms(2,3)] by blast
  have e: "entry m' p (idx vpn d) = entry m p (idx vpn d)" if "d < 4" "tab m root vpn d = Some p" for d p vpn
    unfolding assms(5)
    using entry_memset_page [OF u tab_bound [OF assms(4) that(2)] unat_idx] ne [OF that(1)] that(2) by auto
  show "d \<le> 4 \<Longrightarrow> tab m' root vpn d = tab m root vpn d" "d < 4 \<Longrightarrow> ent m' root vpn d = ent m root vpn d"
    using tab_frame [OF e] by blast+
  show "unat j < 512 \<Longrightarrow> entry m' (block2ppn b) j = 0"
    unfolding assms(5) using entry_memset_page [OF u u] by simp
qed

text \<open>
  \<open>pt_extends satp vpn st st'\<close>: tables stay, tables are only added on the way to \<open>vpn\<close>, empty, and the pages taken from
  the allocator are these tables.
\<close>

definition pt_extends :: "u64 \<Rightarrow> u64 \<Rightarrow> pt \<Rightarrow> pt \<Rightarrow> bool" where
  "pt_extends satp vpn st st' \<longleftrightarrow>
     (\<forall>v d q. d \<le> 4 \<longrightarrow> tab (pmem st) (root_of satp) v d = Some q \<longrightarrow> tab (pmem st') (root_of satp) v d = Some q)
     \<and> (\<forall>v d. d < 4 \<longrightarrow> pre v (Suc d) \<noteq> pre vpn (Suc d) \<longrightarrow>
          ent (pmem st') (root_of satp) v d = ent (pmem st) (root_of satp) v d
          \<or> ent (pmem st) (root_of satp) v d = None \<and> ent (pmem st') (root_of satp) v d = Some 0)
     \<and> (\<forall>b \<in> free_pages (frames st) - free_pages (frames st'). \<exists>d \<in> {1..3}. tab (pmem st') (root_of satp) vpn d = Some (block2ppn b))"

lemma pt_extends_refl [simp]: "pt_extends satp vpn st st"
  by (simp add: pt_extends_def)

lemma pt_extends_trans:
  assumes "pt_extends satp vpn st st1" "pt_extends satp vpn st1 st2"
  shows "pt_extends satp vpn st st2"
proof -
  let ?root = "root_of satp"
  have mono: "tab (pmem st2) ?root v d = Some q" if "d \<le> 4" "tab (pmem st) ?root v d = Some q" for v d q
    using assms that unfolding pt_extends_def by blast
  moreover have "ent (pmem st2) ?root v d = ent (pmem st) ?root v d \<or> ent (pmem st) ?root v d = None \<and> ent (pmem st2) ?root v d = Some 0"
    if "d < 4" "pre v (Suc d) \<noteq> pre vpn (Suc d)" for v d
    using assms that unfolding pt_extends_def by metis
  moreover have "\<exists>d \<in> {1..3}. tab (pmem st2) ?root vpn d = Some (block2ppn b)"
    if b: "b \<in> free_pages (frames st) - free_pages (frames st2)" for b
  proof (cases "b \<in> free_pages (frames st1)")
    case True
    then show ?thesis using assms(2) b unfolding pt_extends_def by blast
  next
    case False
    then obtain d where d: "d \<in> {1..3}" "tab (pmem st1) ?root vpn d = Some (block2ppn b)"
      using assms(1) b unfolding pt_extends_def by blast
    then have "tab (pmem st2) ?root vpn d = Some (block2ppn b)" using assms(2) unfolding pt_extends_def by auto
    then show ?thesis using d(1) by blast
  qed
  ultimately show ?thesis unfolding pt_extends_def by blast
qed

lemma pt_inv_install:
  assumes inv: "pt_inv satp st" and d: "d < 3" and t: "tab (pmem st) (root_of satp) vpn d = Some p"
    and e: "ent (pmem st) (root_of satp) vpn d = Some 0"
    and b: "b \<in> free_pages (frames st)" "buddy_inv fr" "free_pages fr = free_pages (frames st) - {b}"
      "allocated (frames st) b = None" "allocated fr = (allocated (frames st))(b := Some (0, 1))"
    and v: "is_table v" "pte_get_ppn v = block2ppn b" "\<not> bit v 2"
    and st': "st' = st\<lparr>frames := fr, pmem := store64 (memset (pmem st) (ppn2phys (block2ppn b)) 0 0x1000) (slot p (idx vpn d)) v\<rparr>"
  shows "pt_inv satp st'" "same_leaves (pmem st) (pmem st') (root_of satp)" "pt_grows satp st st'"
    "tab (pmem st') (root_of satp) vpn (Suc d) = Some (block2ppn b)"
    "entry (pmem st') p (idx vpn d) = v" "tab (pmem st') (root_of satp) vpn d = Some p"
    "k \<le> 4 \<Longrightarrow> k \<noteq> Suc d \<Longrightarrow> tab (pmem st') (root_of satp) vpn' k = tab (pmem st) (root_of satp) vpn' k"
    "pt_extends satp vpn st st'"
proof -
  let ?root = "root_of satp" and ?q = "block2ppn b"
  define m1 where "m1 = memset (pmem st) (ppn2phys ?q) 0 0x1000"
  have binv: "buddy_inv (frames st)" and wf: "pt_wf (pmem st) (frames st) ?root"
    using inv by (auto simp: pt_inv_def)
  note z = zero_free_page [OF wf binv b(1) root_bound m1_def]
  have m': "pmem st' = store64 m1 (slot p (idx vpn d)) v" by (simp add: st' m1_def)
  have t1: "tab m1 ?root vpn d = Some p" using z(1) [of d] t d by simp
  have "ent m1 ?root vpn d = Some 0" using z(2) [of d vpn] e d by simp
  then have e1: "entry m1 p (idx vpn d) = 0" using t1 by (simp add: ent_def)
  have inj: "d' = d \<and> pre vpn' d = pre vpn d" if "d' < 4" "tab m1 ?root vpn' d' = Some p" for vpn' d'
    using pt_wfD(2) [OF wf _ t that(1), of vpn'] that z(1) [of d' vpn'] d by simp
  have fresh: "tab m1 ?root vpn' d' \<noteq> Some ?q" if "d' < 4" for vpn' d'
    using z(4) [OF that] z(1) [of d' vpn'] that by simp
  have nt: "\<not> is_table (entry m1 p (idx vpn d))" by (simp add: e1 is_table_def pte_is_valid_bit)
  note I = install_table [OF root_bound d t1 inj nt v(1,2) fresh z(3) m']
  have I1: "tab (pmem st') ?root vpn' d' =
      (if d' = Suc d \<and> pre vpn' (Suc d) = pre vpn (Suc d) then Some ?q else tab m1 ?root vpn' d')"
    if "d' \<le> 4" for vpn' d'
    by (rule I(1)) (fact that | assumption)+
  have I2: "ent (pmem st') ?root vpn' d' =
      (if d' = d \<and> pre vpn' (Suc d) = pre vpn (Suc d) then Some v
       else if d' = Suc d \<and> pre vpn' (Suc d) = pre vpn (Suc d) then Some 0
       else ent m1 ?root vpn' d')" if "d' < 4" for vpn' d'
    by (rule I(2)) (fact that | assumption)+
  have T: "tab (pmem st') ?root vpn' d' =
      (if d' = Suc d \<and> pre vpn' (Suc d) = pre vpn (Suc d) then Some ?q else tab (pmem st) ?root vpn' d')"
    if "d' \<le> 4" for vpn' d'
    using I1 [OF that] z(1) [OF that] by simp
  have E: "ent (pmem st') ?root vpn' d' =
      (if d' = d \<and> pre vpn' (Suc d) = pre vpn (Suc d) then Some v
       else if d' = Suc d \<and> pre vpn' (Suc d) = pre vpn (Suc d) then Some 0
       else ent (pmem st) ?root vpn' d')" if "d' < 4" for vpn' d'
    using I2 [OF that] z(2) [OF that] by simp
  show "tab (pmem st') ?root vpn' k = tab (pmem st) ?root vpn' k" if "k \<le> 4" "k \<noteq> Suc d"
    using T [OF that(1)] that(2) by simp
  have fq: "frames st' = fr" by (simp add: st')
  have qlive: "live_page fr ?q"
    using b(3) free_pages_bound [OF binv b(1)] by (auto simp: live_page_def)
  have "pt_wf (pmem st') fr ?root"
  proof (rule pt_wfI)
    fix vpn' d' p' assume "d' < (4::nat)" "tab (pmem st') ?root vpn' d' = Some p'"
    then show "live_page fr p'"
      using T [of d' vpn'] qlive pt_wfD(1) [OF wf, of d' vpn' p'] live_page_mono [of "frames st" p' fr] b(3)
      by (auto split: if_splits)
  next
    fix vpn1 vpn2 d1 d2 p' assume a: "d1 < (4::nat)" "d2 < (4::nat)" "tab (pmem st') ?root vpn1 d1 = Some p'"
      "tab (pmem st') ?root vpn2 d2 = Some p'"
    then show "d1 = d2 \<and> pre vpn1 d1 = pre vpn2 d1"
      using T [of d1 vpn1] T [of d2 vpn2] z(4) [of d1 vpn1] z(4) [of d2 vpn2]
        pt_wfD(2) [OF wf a(2), of vpn2 p' d1 vpn1]
      by (auto split: if_splits)
  next
    fix vpn' d' e' assume "d' < (4::nat)" "ent (pmem st') ?root vpn' d' = Some e'"
    then show "pte_ok d' e'"
      using E [of d' vpn'] pt_wfD(3) [OF wf, of d' vpn' e'] v d by (auto simp: is_table_def pte_ok_def split: if_splits)
  qed
  then show "pt_inv satp st'" using b(2) by (simp add: pt_inv_def fq)
  have old: "ent (pmem st) ?root vpn' d = Some 0" "ent (pmem st) ?root vpn' (Suc d) = None"
    if "pre vpn' (Suc d) = pre vpn (Suc d)" for vpn'
  proof -
    show e0: "ent (pmem st) ?root vpn' d = Some 0" using ent_cong [of d vpn' vpn] that e d by simp
    show "ent (pmem st) ?root vpn' (Suc d) = None"
    proof (rule ccontr)
      assume "ent (pmem st) ?root vpn' (Suc d) \<noteq> None"
      then obtain p' where "tab (pmem st) ?root vpn' (Suc d) = Some p'" by (auto simp: ent_def)
      then show False using tab_prefix [of "pmem st" ?root vpn' "Suc d" p' d] e0
        by (auto simp: is_table_def pte_is_valid_bit)
    qed
  qed
  have "tab (pmem st') ?root v' d' = Some q" if "d' \<le> 4" "tab (pmem st) ?root v' d' = Some q" for v' d' q
    using T [OF that(1), of v'] that(2) old(2) [of v'] by (auto simp: ent_def)
  moreover have "ent (pmem st') ?root v' d' = ent (pmem st) ?root v' d'
      \<or> ent (pmem st) ?root v' d' = None \<and> ent (pmem st') ?root v' d' = Some 0"
    if "d' < 4" "pre v' (Suc d') \<noteq> pre vpn (Suc d')" for v' d'
    using E [OF that(1), of v'] that(2) old(2) [of v'] by auto
  moreover have "c = b" if "c \<in> free_pages (frames st) - free_pages (frames st')" for c
    using that b(3) by (auto simp: fq)
  moreover have "Suc d \<in> {1..3}" "tab (pmem st') ?root vpn (Suc d) = Some ?q" using T [of "Suc d" vpn] d by simp_all
  ultimately show "pt_extends satp vpn st st'" unfolding pt_extends_def by blast
  have "\<not> pte_is_leaf v" using v(1) by (simp add: is_table_def)
  moreover have "\<not> pte_is_leaf 0" by (simp add: pte_is_leaf_bit)
  ultimately have "leaf_at (pmem st') ?root vpn' d' e' \<longleftrightarrow> leaf_at (pmem st) ?root vpn' d' e'" for vpn' d' e'
    using E [of d' vpn'] old [of vpn'] by (auto simp: leaf_at_def split: if_splits)
  then show "same_leaves (pmem st) (pmem st') ?root" by (simp add: same_leaves_def)
  show "tab (pmem st') ?root vpn (Suc d) = Some ?q" "tab (pmem st') ?root vpn d = Some p"
    using T [of _ vpn] d t by (simp_all del: tab.simps)
  then show "entry (pmem st') p (idx vpn d) = v" using E [of d vpn] d by (simp add: ent_def)
  have pp: "p \<in> owned satp st" "?q \<in> owned satp st" using t d b(1) by (auto simp: owned_def pt_pages_def)
  have ub: "unat p < 2 ^ 44" "unat ?q < 2 ^ 44"
    using tab_bound [OF root_bound t] pte_get_ppn_bound [of v] v(2) by auto
  have "owned satp st' \<subseteq> owned satp st"
  proof
    fix x assume "x \<in> owned satp st'"
    then show "x \<in> owned satp st"
      using T b(1,3) by (auto simp: owned_def pt_pages_def fq split: if_splits)
  qed
  moreover have "pmem st' a = pmem st a" if "drop_bit 12 a \<notin> owned satp st" for a
    unfolding m' m1_def using that pp store_outside [OF ub(1) unat_idx] memset_outside [OF ub(2)] by metis
  ultimately show "pt_grows satp st st'"
    using b(4,5) by (auto simp: pt_grows_def st')
qed


text \<open>Writing or clearing a leaf.\<close>

lemma pt_inv_write:
  assumes inv: "pt_inv satp st" and d: "d < 4" and t: "tab (pmem st) (root_of satp) vpn d = Some p"
    and e: "ent (pmem st) (root_of satp) vpn d = Some e" "\<not> is_table e"
    and v: "v = 0 \<or> (pte_is_valid v \<and> pte_is_leaf v)"
    and st': "st' = st\<lparr>pmem := store64 (pmem st) (slot p (idx vpn d)) v\<rparr>"
  shows "pt_inv satp st'" "pt_grows satp st st'"
    "leaf_at (pmem st') (root_of satp) vpn' d' e' \<longleftrightarrow>
      (if d' = d \<and> pre vpn' (Suc d) = pre vpn (Suc d) then e' = v \<and> v \<noteq> 0
       else leaf_at (pmem st) (root_of satp) vpn' d' e')"
    "pt_extends satp vpn st st'"
proof -
  let ?root = "root_of satp"
  have binv: "buddy_inv (frames st)" and wf: "pt_wf (pmem st) (frames st) ?root"
    using inv by (auto simp: pt_inv_def)
  have m': "pmem st' = store64 (pmem st) (slot p (idx vpn d)) v" by (simp add: st')
  have old: "\<not> is_table (entry (pmem st) p (idx vpn d))" using e t by (simp add: ent_def)
  have nz: "\<not> pte_is_leaf 0" "\<not> is_table 0" by (simp_all add: pte_is_leaf_bit is_table_def pte_is_valid_bit)
  have new: "\<not> is_table v" using v nz(2) by (auto simp: is_table_def)
  note inj = pt_wfD(2) [OF wf d t]
  have T: "tab (pmem st') ?root vpn' d' = tab (pmem st) ?root vpn' d'" if "d' \<le> 4" for vpn' d'
    by (rule write_leaf(1) [OF root_bound d t inj old new m']) (fact that | assumption)+
  have E: "ent (pmem st') ?root vpn' d' =
      (if d' = d \<and> pre vpn' (Suc d) = pre vpn (Suc d) then Some v else ent (pmem st) ?root vpn' d')"
    if "d' < 4" for vpn' d'
    by (rule write_leaf(2) [OF root_bound d t inj old new m']) (fact that | assumption)+
  have fr: "frames st' = frames st" by (simp add: st')
  show "pt_extends satp vpn st st'" unfolding pt_extends_def using T E by (auto simp: fr)
  have "pt_wf (pmem st') (frames st) ?root"
  proof (rule pt_wfI)
    fix vpn' d' e' assume "d' < (4::nat)" "ent (pmem st') ?root vpn' d' = Some e'"
    then show "pte_ok d' e'"
      using E [of d' vpn'] pt_wfD(3) [OF wf, of d' vpn' e'] v by (auto simp: pte_ok_def split: if_splits)
  next
    fix vpn1 d1 p' assume "d1 < (4::nat)" "tab (pmem st') ?root vpn1 d1 = Some p'"
    then show "live_page (frames st) p'" using T [of d1 vpn1] pt_wfD(1) [OF wf] by auto
  next
    fix vpn1 vpn2 d1 d2 p' assume a: "d1 < (4::nat)" "d2 < (4::nat)" "tab (pmem st') ?root vpn1 d1 = Some p'"
      "tab (pmem st') ?root vpn2 d2 = Some p'"
    then show "d1 = d2 \<and> pre vpn1 d1 = pre vpn2 d1"
      using T [of d1 vpn1] T [of d2 vpn2] pt_wfD(2) [OF wf a(2), of vpn2 p' d1 vpn1] by auto
  qed
  then show "pt_inv satp st'" using binv by (simp add: pt_inv_def fr)
  have "d < 4 \<and> pte_is_leaf v \<longleftrightarrow> v \<noteq> 0" using v d nz by auto
  then show "leaf_at (pmem st') ?root vpn' d' e' \<longleftrightarrow>
      (if d' = d \<and> pre vpn' (Suc d) = pre vpn (Suc d) then e' = v \<and> v \<noteq> 0
       else leaf_at (pmem st) ?root vpn' d' e')"
    using E [of d' vpn'] d by (auto simp: leaf_at_def)
  have pp: "p \<in> owned satp st" using t d by (auto simp: owned_def pt_pages_def)
  have "owned satp st' = owned satp st"
    using T by (auto simp: owned_def pt_pages_def fr)
  moreover have "pmem st' a = pmem st a" if "drop_bit 12 a \<notin> owned satp st" for a
    unfolding m' using that pp store_outside [OF tab_bound [OF root_bound t] unat_idx] by metis
  ultimately show "pt_grows satp st st'" by (auto simp: pt_grows_def st')
qed

lemma set_nonleaf_spec:
  assumes inv: "pt_inv satp st" and d: "d < 3" and t: "tab (pmem st) (root_of satp) vpn d = Some p"
    and e: "ent (pmem st) (root_of satp) vpn d = Some 0"
  shows "(pt_set_pte_nonleaf (pte_at st p vpn d) st = Some (- ENORESOURCES, st) \<and> free_pages (frames st) = {})
    \<or> (\<exists>st'. pt_set_pte_nonleaf (pte_at st p vpn d) st = Some (0, st') \<and> pt_inv satp st'
      \<and> same_leaves (pmem st) (pmem st') (root_of satp) \<and> pt_grows satp st st' \<and> pt_extends satp vpn st st'
      \<and> is_table (entry (pmem st') p (idx vpn d)) \<and> tab (pmem st') (root_of satp) vpn d = Some p
      \<and> (\<forall>k. k \<le> 4 \<longrightarrow> k \<noteq> Suc d \<longrightarrow> tab (pmem st') (root_of satp) vpn k = tab (pmem st) (root_of satp) vpn k))"
proof -
  have binv: "buddy_inv (frames st)" using inv by (simp add: pt_inv_def)
  from pt_alloc_pt_spec [OF binv] show ?thesis
  proof (elim disjE conjE exE)
    assume "pt_alloc_pt st = Some (0, st)" "free_pages (frames st) = {}"
    then show ?thesis by (simp add: pt_set_pte_nonleaf_def)
  next
    fix b fr v
    let ?m = "memset (pmem st) (ppn2phys (block2ppn b)) 0 0x1000"
    assume b: "b \<in> free_pages (frames st)" "buddy_inv fr" "free_pages fr = free_pages (frames st) - {b}"
      "allocated (frames st) b = None" "allocated fr = (allocated (frames st))(b := Some (0, 1))"
      and v: "is_table v" "pte_get_ppn v = block2ppn b" "\<not> bit v 2"
      and run: "v \<noteq> 0" "pt_alloc_pt st = Some (v, st\<lparr>frames := fr, pmem := ?m\<rparr>)"
    define st' where "st' = st\<lparr>frames := fr, pmem := store64 ?m (slot p (idx vpn d)) v\<rparr>"
    note I = pt_inv_install [OF inv d t e b v st'_def]
    have "kaddr (st\<lparr>frames := fr, pmem := ?m\<rparr>) (phys2kvirt st x) = x" for x
      by (simp add: kaddr_def phys2kvirt_def is_paging_enabled_def)
    then have "pt_set_pte_nonleaf (pte_at st p vpn d) st = Some (0, st')"
      using run by (simp add: pt_set_pte_nonleaf_def store_pte_def st'_def)
    then show ?thesis using I v(1) by blast
  qed
qed


lemma phys2kvirt_grows: "pt_grows satp st st' \<Longrightarrow> phys2kvirt st' x = phys2kvirt st x"
  using pt_grows_same by (simp add: phys2kvirt_def is_paging_enabled_def)

lemma same_leaves_trans: "same_leaves m m1 root \<Longrightarrow> same_leaves m1 m2 root \<Longrightarrow> same_leaves m m2 root"
  by (simp add: same_leaves_def)

text \<open>The three ways the walk of \<open>pt_set_pte_leaf\<close> ends.\<close>

definition walk_result :: "u64 \<Rightarrow> u64 \<Rightarrow> nat \<Rightarrow> pt \<Rightarrow> ((int + u64 list \<times> pte_ptr) \<times> pt) option \<Rightarrow> bool" where
  "walk_result satp vpn depth st res \<longleftrightarrow>
     (\<exists>r st'. res = Some (r, st') \<and> pt_inv satp st' \<and> pt_grows satp st st'
       \<and> same_leaves (pmem st) (pmem st') (root_of satp) \<and> pt_extends satp vpn st st'
       \<and> tab (pmem st') (root_of satp) vpn depth = tab (pmem st) (root_of satp) vpn depth
       \<and> ((r = Inl (- EMAPPED) \<and> (\<exists>d e. leaf_at (pmem st) (root_of satp) vpn d e \<and> Suc d < depth))
          \<or> (r = Inl (- ENORESOURCES) \<and> free_pages (frames st') = {} \<and> tab (pmem st) (root_of satp) vpn (depth - 1) = None)
          \<or> (\<exists>ptes q. r = Inr (ptes, pte_at st' q vpn (depth - 1)) \<and> length ptes = 5
              \<and> tab (pmem st') (root_of satp) vpn (depth - 1) = Some q
              \<and> ptes ! depth = entry (pmem st') q (idx vpn (depth - 1)))))"

lemma walk_result_trans:
  assumes "pt_grows satp st st1" "same_leaves (pmem st) (pmem st1) (root_of satp)"
    "tab (pmem st1) (root_of satp) vpn depth = tab (pmem st) (root_of satp) vpn depth"
    "tab (pmem st) (root_of satp) vpn (depth - 1) = None" "walk_result satp vpn depth st1 res" "pt_extends satp vpn st st1"
  shows "walk_result satp vpn depth st res"
proof -
  obtain r st' where r: "res = Some (r, st')" "pt_inv satp st'" "pt_grows satp st1 st'"
    "same_leaves (pmem st1) (pmem st') (root_of satp)"
    "tab (pmem st') (root_of satp) vpn depth = tab (pmem st1) (root_of satp) vpn depth" "pt_extends satp vpn st1 st'"
    and o: "(r = Inl (- EMAPPED) \<and> (\<exists>d e. leaf_at (pmem st1) (root_of satp) vpn d e \<and> Suc d < depth))
          \<or> (r = Inl (- ENORESOURCES) \<and> free_pages (frames st') = {} \<and> tab (pmem st1) (root_of satp) vpn (depth - 1) = None)
          \<or> (\<exists>ptes q. r = Inr (ptes, pte_at st' q vpn (depth - 1)) \<and> length ptes = 5
              \<and> tab (pmem st') (root_of satp) vpn (depth - 1) = Some q
              \<and> ptes ! depth = entry (pmem st') q (idx vpn (depth - 1)))"
    using assms(5) unfolding walk_result_def by blast
  have o': "(r = Inl (- EMAPPED) \<and> (\<exists>d e. leaf_at (pmem st) (root_of satp) vpn d e \<and> Suc d < depth))
          \<or> (r = Inl (- ENORESOURCES) \<and> free_pages (frames st') = {} \<and> tab (pmem st) (root_of satp) vpn (depth - 1) = None)
          \<or> (\<exists>ptes q. r = Inr (ptes, pte_at st' q vpn (depth - 1)) \<and> length ptes = 5
              \<and> tab (pmem st') (root_of satp) vpn (depth - 1) = Some q
              \<and> ptes ! depth = entry (pmem st') q (idx vpn (depth - 1)))"
    using o assms(2,4) by (auto simp: same_leaves_def)
  show ?thesis
    unfolding walk_result_def
    using r(1,2) pt_grows_trans [OF assms(1) r(3)] same_leaves_trans [OF assms(2) r(4)] r(5) assms(3) o'
      pt_extends_trans [OF assms(6) r(6)] by metis
qed

lemma set_leaf_loop_spec:
  assumes "pt_inv satp st" "Suc d \<le> depth" "depth \<le> 4" "tab (pmem st) (root_of satp) vpn d = Some p"
    "length ptes = 5" "ptes ! Suc d = entry (pmem st) p (idx vpn d)"
  shows "walk_result satp vpn depth st (set_leaf_loop satp (Suc d) depth vpn ptes (pte_at st p vpn d) st)"
  using assms
proof (induction "depth - d" arbitrary: d st ptes p)
  case 0
  then show ?case by simp
next
  case (Suc n)
  let ?e = "entry (pmem st) p (idx vpn d)"
  have ent: "ent (pmem st) (root_of satp) vpn d = Some ?e" using Suc.prems(4) by (simp add: ent_def)
  show ?case
  proof (cases "Suc d < depth")
    case False
    then have "depth = Suc d" using Suc.prems(2) by simp
    then show ?thesis using Suc.prems
      by (subst set_leaf_loop.simps) (auto simp: walk_result_def)
  next
    case True
    then have d: "d < 3" using Suc.prems(3) by simp
    show ?thesis
    proof (cases "pte_is_leaf ?e")
      case leaf: True
      then have "leaf_at (pmem st) (root_of satp) vpn d ?e" using ent d by (simp add: leaf_at_def)
      then show ?thesis using leaf True Suc.prems
        by (subst set_leaf_loop.simps) (auto simp: walk_result_def)
    next
      case noleaf: False
      have step: "walk_result satp vpn depth st1
          (raw_pt_next_pte (Suc d) vpn ptes1 st1 \<bind>
            (\<lambda>(curr, ptes). set_leaf_loop satp (Suc (Suc d)) depth vpn ptes curr st1))"
        if i: "pt_inv satp st1" and t: "tab (pmem st1) (root_of satp) vpn d = Some p" and l: "length ptes1 = 5"
          and e: "ptes1 ! Suc d = entry (pmem st1) p (idx vpn d)" "is_table (entry (pmem st1) p (idx vpn d))"
        for st1 ptes1
      proof -
        let ?q = "pte_get_ppn (entry (pmem st1) p (idx vpn d))"
        let ?ptes = "ptes1[Suc (Suc d) := entry (pmem st1) ?q (idx vpn (Suc d))]"
        have "tab (pmem st1) (root_of satp) vpn (Suc d) = Some ?q" using t e(2) by (simp add: Let_def)
        then have "walk_result satp vpn depth st1
            (set_leaf_loop satp (Suc (Suc d)) depth vpn ?ptes (pte_at st1 ?q vpn (Suc d)) st1)"
          using Suc.hyps(2) Suc.prems(3) True i l d by (intro Suc.hyps(1)) auto
        then show ?thesis using next_pte [OF l, of "Suc d" ?q vpn st1] e(1) d by simp
      qed
      show ?thesis
      proof (cases "pte_is_valid ?e")
        case valid: True
        have "walk_result satp vpn depth st
            (raw_pt_next_pte (Suc d) vpn ptes st \<bind>
              (\<lambda>(curr, ptes). set_leaf_loop satp (Suc (Suc d)) depth vpn ptes curr st))"
          using step [OF Suc.prems(1,4,5,6)] valid noleaf by (simp add: is_table_def)
        then show ?thesis using valid noleaf True d Suc.prems(5,6)
          by (subst set_leaf_loop.simps) simp
      next
        case invalid: False
        then have e0: "ent (pmem st) (root_of satp) vpn d = Some 0"
          using pt_wfD(3) [of "pmem st" "frames st" "root_of satp" d vpn ?e] Suc.prems(1) ent d
          by (auto simp: pt_inv_def pte_ok_def)
        have "tab (pmem st) (root_of satp) vpn (Suc d) = None"
          using Suc.prems(4) invalid by (simp add: is_table_def)
        then have missing: "tab (pmem st) (root_of satp) vpn (depth - 1) = None"
          by (rule tab_none_beyond) (use True in simp)
        from set_nonleaf_spec [OF Suc.prems(1) d Suc.prems(4) e0] show ?thesis
        proof (elim disjE conjE exE)
          assume "pt_set_pte_nonleaf (pte_at st p vpn d) st = Some (- ENORESOURCES, st)" "free_pages (frames st) = {}"
          then show ?thesis using invalid noleaf True d Suc.prems(1,5,6) missing
            by (subst set_leaf_loop.simps) (simp add: walk_result_def)
        next
          fix st1
          assume st1: "pt_set_pte_nonleaf (pte_at st p vpn d) st = Some (0, st1)" "pt_inv satp st1"
            "same_leaves (pmem st) (pmem st1) (root_of satp)" "pt_grows satp st st1"
            "is_table (entry (pmem st1) p (idx vpn d))" "tab (pmem st1) (root_of satp) vpn d = Some p"
            "\<forall>k. k \<le> 4 \<longrightarrow> k \<noteq> Suc d \<longrightarrow> tab (pmem st1) (root_of satp) vpn k = tab (pmem st) (root_of satp) vpn k"
            "pt_extends satp vpn st st1"
          let ?ptes = "ptes[Suc d := entry (pmem st1) p (idx vpn d)]"
          have ld: "load_pte (pte_at st p vpn d) satp st1 = entry (pmem st1) p (idx vpn d)"
            using phys2kvirt_grows [OF st1(4)] by (simp add: load_pte_def entry_def flip: phys2kvirt_grows [OF st1(4)])
          have "walk_result satp vpn depth st1
              (raw_pt_next_pte (Suc d) vpn ?ptes st1 \<bind>
                (\<lambda>(curr, ptes). set_leaf_loop satp (Suc (Suc d)) depth vpn ptes curr st1))"
            using step [OF st1(2,6), of ?ptes] st1(5) Suc.prems(5) d by simp
          moreover have "set_leaf_loop satp (Suc d) depth vpn ptes (pte_at st p vpn d) st =
              raw_pt_next_pte (Suc d) vpn ?ptes st1 \<bind>
                (\<lambda>(curr, ptes). set_leaf_loop satp (Suc (Suc d)) depth vpn ptes curr st1)"
            using invalid noleaf True d Suc.prems(5,6) st1(1) ld
            by (subst set_leaf_loop.simps) simp
          ultimately show ?thesis using walk_result_trans [OF st1(4,3) _ missing _ st1(8)] st1(7) True Suc.prems(3) by simp
        qed
      qed
    qed
  qed
qed

lemma pt_set_walk:
  assumes inv: "pt_inv satp st" and depth: "1 \<le> depth" "depth \<le> 4"
  shows "walk_result satp vpn depth st
    (set_leaf_loop satp 0 depth vpn ((replicate 5 0)[0 := satp2pte satp]) Satp st)"
proof -
  let ?root = "root_of satp"
  let ?ptes = "(replicate 5 0)[0 := satp2pte satp]"
  let ?ptes1 = "?ptes[1 := entry (pmem st) ?root (idx vpn 0)]"
  have run: "set_leaf_loop satp 0 depth vpn ?ptes Satp st
      = set_leaf_loop satp (Suc 0) depth vpn ?ptes1 (pte_at st ?root vpn 0) st"
    using next_pte [of ?ptes 0 ?root vpn st] depth
    by (subst set_leaf_loop.simps) (simp add: satp2pte_ppn)
  show ?thesis unfolding run using inv depth by (intro set_leaf_loop_spec) auto
qed

text \<open>
  \<open>blocked\<close>: the address space has a leaf above or at the requested depth, or tables below it.
\<close>

definition blocked :: "mem \<Rightarrow> u64 \<Rightarrow> u64 \<Rightarrow> nat \<Rightarrow> bool" where
  "blocked m root vpn depth \<longleftrightarrow>
     (\<exists>d < depth. \<exists>e. leaf_at m root vpn d e) \<or> tab m root vpn depth \<noteq> None"

lemma pt_set_pte_leaf_spec:
  assumes inv: "pt_inv satp st" and depth: "1 \<le> depth" "depth \<le> 4" and pte: "pte_is_valid pte" "pte_is_leaf pte"
  shows "\<exists>r st'. pt_set_pte_leaf satp vpn pte depth st = Some (r, st') \<and> pt_inv satp st' \<and> pt_grows satp st st'
    \<and> pt_extends satp vpn st st'
    \<and> (r = 0 \<and> (\<forall>vpn' d e. leaf_at (pmem st') (root_of satp) vpn' d e \<longleftrightarrow>
            (if pre vpn' depth = pre vpn depth then d = depth - 1 \<and> e = pte
             else leaf_at (pmem st) (root_of satp) vpn' d e))
          \<and> (\<forall>vpn' d e. pre vpn' depth = pre vpn depth \<longrightarrow> \<not> leaf_at (pmem st) (root_of satp) vpn' d e)
      \<or> r = - EMAPPED \<and> same_leaves (pmem st) (pmem st') (root_of satp)
          \<and> blocked (pmem st) (root_of satp) vpn depth
      \<or> r = - ENORESOURCES \<and> same_leaves (pmem st) (pmem st') (root_of satp) \<and> free_pages (frames st') = {}
          \<and> tab (pmem st) (root_of satp) vpn (depth - 1) = None)"
proof -
  let ?root = "root_of satp"
  let ?ptes = "(replicate 5 0)[0 := satp2pte satp]"
  obtain k where k: "depth = Suc k" "k < 4" using depth by (cases depth) auto
  have "walk_result satp vpn depth st (set_leaf_loop satp 0 depth vpn ?ptes Satp st)"
    by (rule pt_set_walk [OF inv depth])
  then obtain r st' where r: "set_leaf_loop satp 0 depth vpn ?ptes Satp st = Some (r, st')" "pt_inv satp st'"
    "pt_grows satp st st'" "same_leaves (pmem st) (pmem st') ?root"
    "tab (pmem st') ?root vpn depth = tab (pmem st) ?root vpn depth" "pt_extends satp vpn st st'"
    and o: "(r = Inl (- EMAPPED) \<and> (\<exists>d e. leaf_at (pmem st) ?root vpn d e \<and> Suc d < depth))
          \<or> (r = Inl (- ENORESOURCES) \<and> free_pages (frames st') = {} \<and> tab (pmem st) ?root vpn (depth - 1) = None)
          \<or> (\<exists>ptes q. r = Inr (ptes, pte_at st' q vpn (depth - 1)) \<and> length ptes = 5
              \<and> tab (pmem st') ?root vpn (depth - 1) = Some q
              \<and> ptes ! depth = entry (pmem st') q (idx vpn (depth - 1)))"
    unfolding walk_result_def by blast
  from o show ?thesis
  proof (elim disjE conjE exE)
    fix d e assume "r = Inl (- EMAPPED)" "leaf_at (pmem st) ?root vpn d e" "Suc d < depth"
    moreover have "blocked (pmem st) ?root vpn depth"
      unfolding blocked_def using calculation(2,3) Suc_lessD by blast
    ultimately show ?thesis using r by (simp add: pt_set_pte_leaf_def)
  next
    assume "r = Inl (- ENORESOURCES)" "free_pages (frames st') = {}" "tab (pmem st) ?root vpn (depth - 1) = None"
    then show ?thesis using r by (simp add: pt_set_pte_leaf_def)
  next
    fix ptes q
    assume q: "r = Inr (ptes, pte_at st' q vpn (depth - 1))" "length ptes = 5"
      "tab (pmem st') ?root vpn (depth - 1) = Some q" "ptes ! depth = entry (pmem st') q (idx vpn (depth - 1))"
    let ?e = "entry (pmem st') q (idx vpn k)"
    have t: "tab (pmem st') ?root vpn k = Some q" and e: "ent (pmem st') ?root vpn k = Some ?e"
      using q(3) k(1) by (auto simp: ent_def)
    show ?thesis
    proof (cases "pte_is_valid ?e")
      case True
      have "blocked (pmem st) ?root vpn depth"
      proof (cases "pte_is_leaf ?e")
        case True
        then have "leaf_at (pmem st') ?root vpn k ?e" using e k(2) by (simp add: leaf_at_def)
        then have "leaf_at (pmem st) ?root vpn k ?e" using r(4) by (simp add: same_leaves_def)
        then show ?thesis using k(1) by (auto simp: blocked_def)
      next
        case False
        then have "tab (pmem st') ?root vpn depth \<noteq> None"
          using t k(1) True by (simp add: is_table_def)
        then show ?thesis using r(5) by (simp add: blocked_def)
      qed
      moreover have "pte \<noteq> 0" using pte(1) by (auto simp: pte_is_valid_bit)
      then have "pt_set_pte_leaf satp vpn pte depth st = Some (- EMAPPED, st')"
        using True q k depth r(1) by (simp add: pt_set_pte_leaf_def)
      ultimately show ?thesis using r by simp
    next
      case False
      then have e0: "?e = 0"
        using pt_wfD(3) [OF _ k(2) e, of "frames st'"] r(2) by (auto simp: pt_inv_def pte_ok_def)
      define st2 where "st2 = st'\<lparr>pmem := store64 (pmem st') (slot q (idx vpn k)) pte\<rparr>"
      have nt: "\<not> is_table ?e" using False by (simp add: is_table_def)
      have pte0: "pte \<noteq> 0" using pte(1) by (auto simp: pte_is_valid_bit)
      note w = pt_inv_write [OF r(2) k(2) t e nt _ st2_def]
      have "pt_set_pte_leaf satp vpn pte depth st = Some (0, st2)"
        using False q k depth r(1) by (simp add: pt_set_pte_leaf_def store_pte_def st2_def)
      moreover have inv2: "pt_inv satp st2" "pt_grows satp st st2" "pt_extends satp vpn st st2"
        using w(1,2,4) pte pt_grows_trans [OF r(3)] pt_extends_trans [OF r(6)] by auto
      moreover have "leaf_at (pmem st2) ?root vpn' d e' \<longleftrightarrow>
          (if pre vpn' depth = pre vpn depth then d = depth - 1 \<and> e' = pte
           else leaf_at (pmem st) ?root vpn' d e')" for vpn' d e'
      proof -
        have W: "leaf_at (pmem st2) ?root vpn' d e' \<longleftrightarrow>
            (if d = k \<and> pre vpn' depth = pre vpn depth then e' = pte else leaf_at (pmem st) ?root vpn' d e')" for d e'
          using w(3) pte pte0 r(4) k(1) by (simp add: same_leaves_def)
        show ?thesis
        proof (cases "pre vpn' depth = pre vpn depth")
          case True
          then have "leaf_at (pmem st2) ?root vpn' k pte" using W by simp
          then show ?thesis using True leaf_at_unique [of "pmem st2" ?root vpn' d e' k pte] k(1) by auto
        qed (use W in auto)
      qed
      moreover have "\<not> leaf_at (pmem st) ?root vpn' d e'" if p: "pre vpn' depth = pre vpn depth" for vpn' d e'
      proof
        assume "leaf_at (pmem st) ?root vpn' d e'"
        then have l: "leaf_at (pmem st') ?root vpn' d e'" using r(4) by (simp add: same_leaves_def)
        have tk: "tab (pmem st') ?root vpn' k = Some q" "ent (pmem st') ?root vpn' k = Some 0"
          using tab_cong [of k vpn' vpn "pmem st'" ?root] pre_mono [OF _ depth(2) p, of k] k t
            ent_cong [of k vpn' vpn "pmem st'" ?root] p e e0 by auto
        have "d \<noteq> k" using l tk(2) by (auto simp: leaf_at_def pte_is_leaf_bit)
        moreover have "\<not> k < d" using tab_prefix [of "pmem st'" ?root vpn' d _ k] l tk(2)
          by (auto simp: leaf_at_def ent_def is_table_def pte_is_valid_bit)
        moreover have "\<not> d < k" using tab_prefix [OF tk(1), of d] l by (auto simp: leaf_at_def is_table_def)
        ultimately show False by linarith
      qed
      ultimately show ?thesis by (metis (no_types, lifting))
    qed
  qed
qed


section \<open>Unmapping\<close>

text \<open>An empty entry at the lowest level unmaps a page, whatever was there.\<close>

lemma pt_set_pte_zero:
  assumes inv: "pt_inv satp st"
  shows "\<exists>r st'. pt_set_pte_leaf satp vpn 0 4 st = Some (r, st') \<and> pt_inv satp st' \<and> pt_grows satp st st'
    \<and> (r = 0 \<and> (\<forall>vpn' d e. leaf_at (pmem st') (root_of satp) vpn' d e \<longleftrightarrow>
          pre vpn' 4 \<noteq> pre vpn 4 \<and> leaf_at (pmem st) (root_of satp) vpn' d e)
      \<or> r < 0 \<and> same_leaves (pmem st) (pmem st') (root_of satp) \<and> (\<forall>e. \<not> leaf_at (pmem st) (root_of satp) vpn 3 e))"
proof -
  let ?root = "root_of satp"
  have w: "walk_result satp vpn 4 st (set_leaf_loop satp 0 4 vpn ((replicate 5 0)[0 := satp2pte satp]) Satp st)"
    by (rule pt_set_walk [OF inv]) simp_all
  then obtain r st' where r: "set_leaf_loop satp 0 4 vpn ((replicate 5 0)[0 := satp2pte satp]) Satp st = Some (r, st')"
    "pt_inv satp st'" "pt_grows satp st st'" "same_leaves (pmem st) (pmem st') ?root"
    and o: "(r = Inl (- EMAPPED) \<and> (\<exists>d e. leaf_at (pmem st) ?root vpn d e \<and> Suc d < 4))
          \<or> (r = Inl (- ENORESOURCES) \<and> free_pages (frames st') = {} \<and> tab (pmem st) ?root vpn (4 - 1) = None)
          \<or> (\<exists>ptes q. r = Inr (ptes, pte_at st' q vpn (4 - 1)) \<and> length ptes = 5
              \<and> tab (pmem st') ?root vpn (4 - 1) = Some q
              \<and> ptes ! 4 = entry (pmem st') q (idx vpn (4 - 1)))"
    unfolding walk_result_def by blast
  from o show ?thesis
  proof (elim disjE conjE exE)
    fix ptes q
    assume q: "r = Inr (ptes, pte_at st' q vpn (4 - 1))" "length ptes = 5" "tab (pmem st') ?root vpn (4 - 1) = Some q"
    let ?e = "entry (pmem st') q (idx vpn 3)"
    have t: "tab (pmem st') ?root vpn 3 = Some q" and e: "ent (pmem st') ?root vpn 3 = Some ?e"
      using q(3) by (auto simp: ent_def)
    have "pte_ok 3 ?e" using pt_wfD(3) [OF _ _ e, of "frames st'"] r(2) by (simp add: pt_inv_def)
    then have nt: "\<not> is_table ?e" by (auto simp: pte_ok_def is_table_def pte_is_valid_bit)
    define st2 where "st2 = st'\<lparr>pmem := store64 (pmem st') (slot q (idx vpn 3)) 0\<rparr>"
    have three: "(3::nat) < 4" by simp
    note w = pt_inv_write [OF r(2) three t e nt _ st2_def]
    have run: "pt_set_pte_leaf satp vpn 0 4 st = Some (0, st2)"
      using q r(1) by (simp add: pt_set_pte_leaf_def store_pte_def st2_def)
    have "leaf_at (pmem st2) ?root vpn' d e' \<longleftrightarrow> pre vpn' 4 \<noteq> pre vpn 4 \<and> leaf_at (pmem st) ?root vpn' d e'" for vpn' d e'
    proof -
      have W: "leaf_at (pmem st2) ?root vpn' d e' \<longleftrightarrow> \<not> (d = 3 \<and> pre vpn' 4 = pre vpn 4) \<and> leaf_at (pmem st) ?root vpn' d e'"
        using w(3) r(4) by (simp add: same_leaves_def)
      have "d = 3" if "pre vpn' 4 = pre vpn 4" "leaf_at (pmem st) ?root vpn' d e'"
      proof (rule ccontr)
        assume "d \<noteq> 3"
        then have d: "d < 3" "leaf_at (pmem st') ?root vpn' d e'"
          using that(2) r(4) by (auto simp: leaf_at_def same_leaves_def)
        have "tab (pmem st') ?root vpn' 3 = Some q"
          using tab_cong [of 3 vpn' vpn "pmem st'" ?root] pre_mono [OF _ _ that(1), of 3] t by simp
        then show False using tab_prefix [of "pmem st'" ?root vpn' 3 q d] d by (auto simp: leaf_at_def is_table_def)
      qed
      then show ?thesis using W by blast
    qed
    then show ?thesis using run w(1,2) pt_grows_trans [OF r(3)] by (metis (no_types, lifting))
  next
    fix d e assume l: "r = Inl (- EMAPPED)" "leaf_at (pmem st) ?root vpn d e" "Suc d < 4"
    then have "\<not> leaf_at (pmem st) ?root vpn 3 e'" for e'
      using leaf_at_unique [OF l(2), of 3 e'] by auto
    then show ?thesis using r l(1) by (simp add: pt_set_pte_leaf_def)
  next
    assume "r = Inl (- ENORESOURCES)" "tab (pmem st) ?root vpn (4 - 1) = None"
    then show ?thesis using r by (simp add: pt_set_pte_leaf_def leaf_at_def ent_def)
  qed
qed

lemma pt_unmap_page_spec:
  assumes "pt_inv satp st"
  shows "(\<exists>d e st'. leaf_at (pmem st) (root_of satp) vpn d e \<and> pt_inv satp st' \<and> pt_grows satp st st'
      \<and> pt_unmap_page satp vpn st = Some (512 ^ (3 - d), st')
      \<and> (\<forall>vpn' d' e'. leaf_at (pmem st') (root_of satp) vpn' d' e' \<longleftrightarrow>
          pre vpn' (Suc d) \<noteq> pre vpn (Suc d) \<and> leaf_at (pmem st) (root_of satp) vpn' d' e'))
    \<or> ((\<forall>d e. \<not> leaf_at (pmem st) (root_of satp) vpn d e) \<and> (\<exists>r < 0. pt_unmap_page satp vpn st = Some (r, st)))"
  using pt_get_pte_spec [of st satp vpn]
proof (elim disjE conjE exE)
  fix d e q
  assume l: "leaf_at (pmem st) (root_of satp) vpn d e" "tab (pmem st) (root_of satp) vpn d = Some q"
    and g: "pt_get_pte satp vpn (replicate 5 0) st
      = Some (int (Suc d), walk_array (pmem st) satp vpn, Some (pte_at st q vpn d))"
  have d: "d < 4" "ent (pmem st) (root_of satp) vpn d = Some e" "pte_is_leaf e" using l(1) by (auto simp: leaf_at_def)
  have nt: "\<not> is_table e" using d(3) by (simp add: is_table_def)
  define st' where "st' = st\<lparr>pmem := store64 (pmem st) (slot q (idx vpn d)) 0\<rparr>"
  note w = pt_inv_write [OF assms d(1) l(2) d(2) nt _ st'_def]
  have "pt_unmap_page satp vpn st = Some (512 ^ (3 - d), st')"
    using d(1) by (simp add: pt_unmap_page_def g store_pte_def st'_def level2depth_def unat_level2pagen)
  moreover have "leaf_at (pmem st') (root_of satp) vpn' d' e' \<longleftrightarrow>
      pre vpn' (Suc d) \<noteq> pre vpn (Suc d) \<and> leaf_at (pmem st) (root_of satp) vpn' d' e'" for vpn' d' e'
  proof (cases "pre vpn' (Suc d) = pre vpn (Suc d)")
    case True
    then have "leaf_at (pmem st) (root_of satp) vpn' d e"
      using d ent_cong [OF d(1) True] by (simp add: leaf_at_def)
    then have "leaf_at (pmem st) (root_of satp) vpn' d' e' \<Longrightarrow> d' = d"
      using leaf_at_unique by blast
    then show ?thesis using True w(3) by auto
  qed (use w(3) in auto)
  ultimately show ?thesis using l(1) w(1,2) by blast
next
  fix r assume n: "\<forall>d e. \<not> leaf_at (pmem st) (root_of satp) vpn d e" "r < 0"
    "pt_get_pte satp vpn (replicate 5 0) st = Some (r, walk_array (pmem st) satp vpn, None)"
  then have "pt_unmap_page satp vpn st = Some (r, st)" by (simp add: pt_unmap_page_def)
  then show ?thesis using n by blast
qed

end
