(* ===== verification/Sv48.thy ===== *)
theory Sv48
  imports Pt_Ops
begin

text \<open>
  The address translation of the hardware, as the RISC-V privileged architecture describes it
  for Sv48 (page-fault causes that depend on the kind of access apart), and its agreement with
  the tables the kernel builds: the pages \<open>pt_get_pte\<close> finds are the pages the processor finds.
  Two checks of the processor are left out: that the address is canonical, so that the translation is the processor's
  for page numbers whose upper bits repeat bit 35, and the accessed and dirty bits, which the processor here sets itself.
\<close>

unbundle bit_operations_syntax

text \<open>One step at level \<open>i\<close> in the table with page number \<open>a\<close>; \<open>None\<close> is a page fault.\<close>

fun sv48_walk :: "mem \<Rightarrow> u64 \<Rightarrow> nat \<Rightarrow> u64 \<Rightarrow> (nat \<times> u64) option" where
  "sv48_walk m vpn i a =
     (let pte = load64 m (push_bit 12 a + 8 * (drop_bit (9 * i) vpn AND mask 9))
      in if \<not> bit pte 0 \<or> (\<not> bit pte 1 \<and> bit pte 2) then None
         else if bit pte 1 \<or> bit pte 3 then
           (if drop_bit 10 pte AND mask (9 * i) \<noteq> 0 then None else Some (i, pte))
         else if i = 0 then None
         else sv48_walk m vpn (i - 1) (drop_bit 10 pte AND mask 44))"

declare sv48_walk.simps [simp del]

text \<open>The physical page number of the page with number \<open>vpn\<close>.\<close>

definition sv48_translate :: "mem \<Rightarrow> u64 \<Rightarrow> u64 \<Rightarrow> u64 option" where
  "sv48_translate m satp vpn =
     (case sv48_walk m vpn 3 (satp AND mask 44) of
        None \<Rightarrow> None
      | Some (i, pte) \<Rightarrow> Some ((drop_bit 10 pte AND mask 44) OR (vpn AND mask (9 * i))))"

text \<open>A leaf the hardware accepts: no reserved permissions, an aligned superpage.\<close>

definition hw_leaf :: "nat \<Rightarrow> u64 \<Rightarrow> bool" where
  "hw_leaf d e \<longleftrightarrow> (bit e 2 \<longrightarrow> bit e 1) \<and> pte_get_ppn e AND mask (9 * (3 - d)) = 0"

lemma ppn_low_mask: "w \<le> 44 \<Longrightarrow> pte_get_ppn e AND mask w = drop_bit 10 e AND mask w"
  by (rule bit_word_eqI) (auto simp: pte_get_ppn_def mask_44 bit_simps)

lemma sv48_walk_tab:
  assumes "pt_wf m fr root" "d < 4" "tab m root vpn d = Some p"
  shows "sv48_walk m vpn (3 - d) p = Some (i, e) \<longleftrightarrow>
    i \<le> 3 - d \<and> leaf_at m root vpn (3 - i) e \<and> hw_leaf (3 - i) e"
  using assms(2,3)
proof (induction "3 - d" arbitrary: d p)
  case 0
  then have d: "d = 3" by simp
  let ?e = "entry m p (idx vpn 3)"
  have e: "ent m root vpn 3 = Some ?e" using 0 d by (simp add: ent_def)
  have ok: "pte_ok 3 ?e" using pt_wfD(3) [OF assms(1) _ e] by simp
  have "load64 m (push_bit 12 p + 8 * (drop_bit (9 * 0) vpn AND mask 9)) = ?e"
    by (simp add: entry_def slot_def ppn2phys_def vpn2vpnlevel_def mask_9 mult.commute)
  then have "sv48_walk m vpn 0 p = Some (i, e) \<longleftrightarrow> i = 0 \<and> e = ?e \<and> bit ?e 0 \<and> (bit ?e 1 \<or> bit ?e 3) \<and> (bit ?e 2 \<longrightarrow> bit ?e 1)"
    by (subst sv48_walk.simps) (auto simp: Let_def)
  also have "\<dots> \<longleftrightarrow> i = 0 \<and> leaf_at m root vpn 3 e \<and> hw_leaf 3 e"
    using e ok by (auto simp: leaf_at_def hw_leaf_def pte_is_leaf_bit pte_ok_def pte_is_valid_bit)
  finally show ?case by (auto simp: d)
next
  case (Suc n)
  let ?e = "entry m p (idx vpn d)"
  have e: "ent m root vpn d = Some ?e" using Suc.prems by (simp add: ent_def)
  have ok: "pte_ok d ?e" using pt_wfD(3) [OF assms(1) Suc.prems(1) e] .
  have ld: "load64 m (push_bit 12 p + 8 * (drop_bit (9 * (3 - d)) vpn AND mask 9)) = ?e"
    by (simp add: entry_def slot_def ppn2phys_def vpn2vpnlevel_def mask_9 mult.commute)
  have d3: "d < 3" using Suc.hyps(2) by simp
  show ?case
  proof (cases "is_table ?e")
    case True
    then have t: "tab m root vpn (Suc d) = Some (pte_get_ppn ?e)" using Suc.prems(2) by (simp add: Let_def)
    have b: "bit ?e 0" "\<not> bit ?e 1" "\<not> bit ?e 2" "\<not> bit ?e 3"
      using True ok by (auto simp: is_table_def pte_is_valid_bit pte_is_leaf_bit pte_ok_def)
    have "sv48_walk m vpn (3 - d) p = sv48_walk m vpn (3 - Suc d) (pte_get_ppn ?e)"
      using b d3 by (subst sv48_walk.simps) (simp add: ld Let_def pte_get_ppn_def mask_44)
    moreover have "\<not> leaf_at m root vpn d e" for e
      using e b by (auto simp: leaf_at_def pte_is_leaf_bit)
    then have "i \<le> 3 - Suc d \<and> leaf_at m root vpn (3 - i) e \<longleftrightarrow> i \<le> 3 - d \<and> leaf_at m root vpn (3 - i) e"
      using d3 by (cases "i = 3 - d") auto
    ultimately show ?thesis using Suc.hyps(1) [of "Suc d", OF _ _ t] Suc.hyps(2) d3 by auto
  next
    case False
    have only: "leaf_at m root vpn k e \<Longrightarrow> k \<ge> d \<Longrightarrow> k = d" for k e
      using tab_prefix [of m root vpn k _ d] False e by (fastforce simp: leaf_at_def ent_def)
    have "sv48_walk m vpn (3 - d) p = Some (i, e) \<longleftrightarrow> i = 3 - d \<and> e = ?e \<and> bit ?e 0 \<and> (bit ?e 1 \<or> bit ?e 3)
        \<and> (bit ?e 2 \<longrightarrow> bit ?e 1) \<and> drop_bit 10 ?e AND mask (9 * (3 - d)) = 0"
      using False by (subst sv48_walk.simps) (auto simp: ld Let_def is_table_def pte_is_valid_bit pte_is_leaf_bit)
    also have "\<dots> \<longleftrightarrow> i = 3 - d \<and> leaf_at m root vpn d e \<and> hw_leaf d e"
      using e ok Suc.prems(1)
      by (auto simp: leaf_at_def hw_leaf_def ppn_low_mask pte_is_leaf_bit pte_ok_def pte_is_valid_bit)
    also have "\<dots> \<longleftrightarrow> i \<le> 3 - d \<and> leaf_at m root vpn (3 - i) e \<and> hw_leaf (3 - i) e"
    proof
      assume "i \<le> 3 - d \<and> leaf_at m root vpn (3 - i) e \<and> hw_leaf (3 - i) e"
      moreover from this have "3 - i = d" using only [of "3 - i" e] d3 by auto
      ultimately show "i = 3 - d \<and> leaf_at m root vpn d e \<and> hw_leaf d e" using d3 by auto
    qed (use d3 in auto)
    finally show ?thesis .
  qed
qed

lemma sv48_translate_leaf:
  assumes "pt_wf m fr (root_of satp)"
  shows "sv48_translate m satp vpn = Some ppn \<longleftrightarrow>
    (\<exists>d e. leaf_at m (root_of satp) vpn d e \<and> hw_leaf d e
       \<and> ppn = (pte_get_ppn e OR (vpn AND mask (9 * (3 - d)))))"
proof -
  have w: "sv48_walk m vpn 3 (root_of satp) = Some (i, e) \<longleftrightarrow>
      i \<le> 3 \<and> leaf_at m (root_of satp) vpn (3 - i) e \<and> hw_leaf (3 - i) e" for i e
    using sv48_walk_tab [OF assms, of 0 vpn "root_of satp" i e] by simp
  show ?thesis
  proof
    assume "sv48_translate m satp vpn = Some ppn"
    then obtain i e where "sv48_walk m vpn 3 (root_of satp) = Some (i, e)"
      "ppn = (pte_get_ppn e OR (vpn AND mask (9 * i)))"
      by (auto simp: sv48_translate_def pte_get_ppn_def mask_44 split: option.splits)
    then show "\<exists>d e. leaf_at m (root_of satp) vpn d e \<and> hw_leaf d e
       \<and> ppn = (pte_get_ppn e OR (vpn AND mask (9 * (3 - d))))"
      using w by (intro exI [of _ "3 - i"] exI [of _ e]) auto
  next
    assume "\<exists>d e. leaf_at m (root_of satp) vpn d e \<and> hw_leaf d e
       \<and> ppn = (pte_get_ppn e OR (vpn AND mask (9 * (3 - d))))"
    then obtain d e where d: "leaf_at m (root_of satp) vpn d e" "hw_leaf d e"
      "ppn = (pte_get_ppn e OR (vpn AND mask (9 * (3 - d))))" by blast
    then have "sv48_walk m vpn 3 (root_of satp) = Some (3 - d, e)" using w by (simp add: leaf_at_def)
    then show "sv48_translate m satp vpn = Some ppn"
      using d(3) by (simp add: sv48_translate_def pte_get_ppn_def mask_44)
  qed
qed

end
