(* ===== verification/Vma.thy ===== *)
theory Vma
  imports Sv48
begin

text \<open>
  Virtual memory areas (\<^verbatim>\<open>pt.c\<close>, from \<open>__pt_page_pte_set_perm\<close> on). A \<open>struct vma\<close> lives in
  memory from \<open>pt_salloc\<close>; its fields are kept in one map per field (\<open>vm_vpn\<close>, \<open>vm_pagen\<close>,
  \<open>vm_flags\<close>) and its list node, at offset 24, in \<open>vm_nodes\<close>. Functions that only read a VMA
  take its value. \<open>ssize_t\<close> and \<open>int\<close> are integers, converted to 64 bits where the code
  converts them. Because the walker never writes the \<open>satp\<close> it starts from, functions take
  its value instead of its address.
\<close>

unbundle bit_operations_syntax

record vma =
  v_vpn :: u64
  v_pagen :: u64
  v_flags :: u64

record page =
  pg_vpn :: u64
  pg_level :: nat
  pg_ppn :: u64
  pg_pte :: u64

definition vma_at :: "pt \<Rightarrow> addr \<Rightarrow> vma" where
  "vma_at st p = \<lparr>v_vpn = vm_vpn st p, v_pagen = vm_pagen st p, v_flags = vm_flags st p\<rparr>"

abbreviation (input) node_of :: "addr \<Rightarrow> addr" where "node_of p \<equiv> p + 24"
abbreviation (input) vma_of :: "addr \<Rightarrow> addr" where "vma_of node \<equiv> node - 24"

section \<open>Pages\<close>

definition raw_pt_page_pte_set_perm :: "page \<Rightarrow> u64 \<Rightarrow> page" where
  "raw_pt_page_pte_set_perm page flags =
     (let page = page\<lparr>pg_pte := if flags AND VMA_READ \<noteq> 0 then pte_set (pg_pte page) PTE_READ_SHIFT else pg_pte page\<rparr>;
          page = page\<lparr>pg_pte := if flags AND VMA_WRITE \<noteq> 0 then pte_set (pg_pte page) PTE_WRITE_SHIFT else pg_pte page\<rparr>;
          page = page\<lparr>pg_pte := if flags AND VMA_EXEC \<noteq> 0 then pte_set (pg_pte page) PTE_EXEC_SHIFT else pg_pte page\<rparr>
      in page\<lparr>pg_pte := if flags AND VMA_USER \<noteq> 0 then pte_set (pg_pte page) PTE_USER_SHIFT else pg_pte page\<rparr>)"

definition raw_pt_page_needs_pte :: "vma \<Rightarrow> u64 \<Rightarrow> page \<Rightarrow> pt \<Rightarrow> (int \<times> page \<times> pt) option" where
  "raw_pt_page_needs_pte vma ppn out st =
     do { let out = raw_pt_page_pte_set_perm out (v_flags vma);
          if v_flags vma AND VMA_POPULATE \<noteq> 0 \<and> v_flags vma AND VMA_IDENTITY \<noteq> 0 then
            Some (- EINVALARGS, out, st)
          else do {
            (ret, out, st) \<leftarrow>
              (if v_flags vma AND VMA_IDENTITY \<noteq> 0 then Some (0, out\<lparr>pg_ppn := ppn\<rparr>, st)
               else do { (phys, st) \<leftarrow> pt_alloc (pg_level out) st;
                         let out = out\<lparr>pg_ppn := phys2ppn_pt phys\<rparr>;
                         Some (if pg_ppn out = 0 then - ENORESOURCES else 0, out, st) });
            if ret \<noteq> 0 then Some (ret, out, st)
            else do {
              let out = out\<lparr>pg_pte := pte_set_ppn (pg_pte out) (pg_ppn out)\<rparr>;
              let out = out\<lparr>pg_pte := pte_set (pg_pte out) PTE_VALID_SHIFT\<rparr>;
              Some (0, out, st) } } }"

definition pt_vma_new_page_at_vpn_of_level ::
    "vma \<Rightarrow> u64 \<Rightarrow> u64 \<Rightarrow> nat \<Rightarrow> page \<Rightarrow> pt \<Rightarrow> (int \<times> page \<times> pt) option" where
  "pt_vma_new_page_at_vpn_of_level vma vpn ppn level out st =
     raw_pt_page_needs_pte vma ppn (out\<lparr>pg_vpn := vpn, pg_level := level\<rparr>) st"

text \<open>The two loops of \<open>pt_vma_new_page_at_vpn\<close>; \<open>None\<close> when the level drops below zero.\<close>

fun fit_level :: "vma \<Rightarrow> u64 \<Rightarrow> nat \<Rightarrow> nat option" where
  "fit_level vma vpn level =
     (if \<not> v_vpn vma \<le> vpn2prevpageboundary vpn level
         \<or> \<not> vpn2prevpageboundary vpn level + level2pagen level \<le> v_vpn vma + v_pagen vma
      then (if level = 0 then None else fit_level vma vpn (level - 1))
      else Some level)"

fun back_level :: "vma \<Rightarrow> u64 \<Rightarrow> u64 \<Rightarrow> nat \<Rightarrow> page \<Rightarrow> pt \<Rightarrow> (nat option \<times> page \<times> pt) option" where
  "back_level vma vpn ppn level out st =
     do { (ret, out, st) \<leftarrow>
            pt_vma_new_page_at_vpn_of_level vma (vpn2prevpageboundary vpn level) ppn level out st;
          if ret \<noteq> 0 then
            (if level = 0 then Some (None, out, st) else back_level vma vpn ppn (level - 1) out st)
          else Some (Some level, out, st) }"

declare fit_level.simps [simp del] back_level.simps [simp del]

definition pt_vma_new_page_at_vpn ::
    "u64 \<Rightarrow> vma \<Rightarrow> u64 \<Rightarrow> u64 \<Rightarrow> page \<Rightarrow> pt \<Rightarrow> (int \<times> page \<times> pt) option" where
  "pt_vma_new_page_at_vpn satp vma vpn ppn out st =
     (case fit_level vma vpn PAGE_TERA of
        None \<Rightarrow> Some (0, out, st)
      | Some level \<Rightarrow>
          do { maxlevel \<leftarrow> raw_pt_find_level_of_highest_empty_pte satp (vpn2prevpageboundary vpn level) st;
               if maxlevel < 0 then Some (maxlevel, out, st)
               else do {
                 let level = (if int level > maxlevel then nat maxlevel else level);
                 (r, out, st) \<leftarrow> back_level vma vpn ppn level out st;
                 case r of
                   None \<Rightarrow> Some (0, out, st)
                 | Some level \<Rightarrow>
                     Some (sint (vpn2prevpageboundary vpn level + level2pagen level - vpn), out, st) } })"

definition raw_pt_map_page :: "u64 \<Rightarrow> page \<Rightarrow> pt \<Rightarrow> (int \<times> pt) option" where
  "raw_pt_map_page satp page st =
     (if pg_level page > PAGE_TERA then Some (- EINVALARGS, st)
      else pt_set_pte_leaf satp (pg_vpn page) (pg_pte page) (level2depth (pg_level page)) st)"

definition pt_vma_map_page_at_vpn :: "u64 \<Rightarrow> vma \<Rightarrow> u64 \<Rightarrow> u64 \<Rightarrow> pt \<Rightarrow> (int \<times> pt) option" where
  "pt_vma_map_page_at_vpn satp vma vpn ppn st =
     do { (pagen, page, st) \<leftarrow>
            pt_vma_new_page_at_vpn satp vma vpn ppn \<lparr>pg_vpn = 0, pg_level = 0, pg_ppn = 0, pg_pte = 0\<rparr> st;
          if pagen = 0 then Some (0, st)
          else do {
            (ret, st) \<leftarrow> raw_pt_map_page satp page st;
            Some (if ret \<noteq> 0 then ret else pagen, st) } }"

section \<open>Areas\<close>

text \<open>
  The loop of \<open>__pt_vma_new\<close>. The result is stored in the \<open>size_t\<close> \<open>pagen\<close>, so an error is a
  large number and the test \<open>pagen < 0\<close> never holds.
\<close>

partial_function (option) vma_new_loop :: "u64 \<Rightarrow> addr \<Rightarrow> u64 \<Rightarrow> u64 \<Rightarrow> pt \<Rightarrow> pt option" where
  "vma_new_loop satp out vpn ppn st =
     do { (r, st) \<leftarrow> pt_vma_map_page_at_vpn satp (vma_at st out) vpn ppn st;
          let pagen = (of_int r :: u64);
          if pagen > 0 then vma_new_loop satp out (vpn + pagen) (ppn + pagen) st else Some st }"

definition raw_pt_vma_new :: "u64 \<Rightarrow> u64 \<Rightarrow> u64 \<Rightarrow> u64 \<Rightarrow> u64 \<Rightarrow> addr \<Rightarrow> pt \<Rightarrow> (int \<times> pt) option" where
  "raw_pt_vma_new satp vpn ppn pagen flags out st =
     do { let st = st\<lparr>vm_vpn := (vm_vpn st)(out := vpn), vm_pagen := (vm_pagen st)(out := pagen),
                     vm_flags := (vm_flags st)(out := flags)\<rparr>;
          if \<not> is_node_init (node_of out) (vm_nodes st) then Some (- EINVALARGS, st)
          else do {
            st \<leftarrow> (if flags AND VMA_IDENTITY \<noteq> 0 \<or> flags AND VMA_POPULATE \<noteq> 0
                   then vma_new_loop satp out vpn ppn st else Some st);
            Some (0, st) } }"

definition pt_vma_new :: "u64 \<Rightarrow> u64 \<Rightarrow> u64 \<Rightarrow> u64 \<Rightarrow> addr \<Rightarrow> pt \<Rightarrow> (int \<times> pt) option" where
  "pt_vma_new satp vpn pagen flags out st =
     (if flags AND VMA_IDENTITY \<noteq> 0 then Some (- EINVALARGS, st)
      else raw_pt_vma_new satp vpn 0 pagen flags out st)"

partial_function (option) unmap_pages_loop :: "u64 \<Rightarrow> u64 \<Rightarrow> u64 \<Rightarrow> pt \<Rightarrow> pt option" where
  "unmap_pages_loop satp en vpn st =
     (if vpn < en then
        do { (pagen, st) \<leftarrow> pt_unmap_page satp vpn st;
             let pagen = (if pagen \<noteq> 0 then pagen else int (unat (level2pagen PAGE_NORMAL)));
             unmap_pages_loop satp en (vpn + of_int pagen) st }
      else Some st)"

definition pt_vma_unmap_pages :: "u64 \<Rightarrow> vma \<Rightarrow> pt \<Rightarrow> pt option" where
  "pt_vma_unmap_pages satp vma st = unmap_pages_loop satp (v_vpn vma + v_pagen vma) (v_vpn vma) st"

definition pt_vma_destroy :: "u64 \<Rightarrow> addr \<Rightarrow> pt \<Rightarrow> pt option" where
  "pt_vma_destroy satp p st =
     (let st = st\<lparr>vm_nodes := list_remove (node_of p) (vm_nodes st)\<rparr>
      in pt_vma_unmap_pages satp (vma_at st p) st)"

section \<open>Kernel areas and initialisation\<close>

definition ksatp_init :: "pt \<Rightarrow> (int \<times> pt) option" where
  "ksatp_init st =
     do { (pte, st) \<leftarrow> pt_alloc_pt st;
          if pte = 0 then Some (- 1, st)
          else do {
            let st = st\<lparr>ksatp := satp_set (ksatp st) SATP_MODE_BARE SATP_MODE_MASK SATP_MODE_SHIFT\<rparr>;
            let st = st\<lparr>ksatp := satp_set (ksatp st) (pte_get_ppn pte) SATP_PPN_MASK SATP_PPN_SHIFT\<rparr>;
            Some (0, st) } }"

text \<open>
  Once paging is on, the structures are reached through their high addresses as well. The low
  view is not used after \<open>pt_migrate_kvmas\<close>.
\<close>

definition high_view :: "(addr \<Rightarrow> 'a) \<Rightarrow> addr \<Rightarrow> 'a" where
  "high_view f p = (if p \<ge> VIRT_MEM_KERNEL_BASE then f (p - VIRT_MEM_KERNEL_BASE) else f p)"

definition ksatp_enable_paging :: "pt \<Rightarrow> pt" where
  "ksatp_enable_paging st =
     (let st = st\<lparr>ksatp := satp_set (ksatp st) SATP_MODE_SV48 SATP_MODE_MASK SATP_MODE_SHIFT\<rparr>;
          st = st\<lparr>csr_satp := ksatp st\<rparr>
      in st\<lparr>vm_nodes := \<lparr>nnext = high_view (nnext (vm_nodes st)), nprev = high_view (nprev (vm_nodes st))\<rparr>,
            vm_vpn := high_view (vm_vpn st), vm_pagen := high_view (vm_pagen st),
            vm_flags := high_view (vm_flags st)\<rparr>)"

definition pt_init_vmas_head :: "pt \<Rightarrow> (int \<times> addr \<times> pt) option" where
  "pt_init_vmas_head st =
     do { (p, st) \<leftarrow> pt_salloc 16 st;
          if p = NULL then Some (- ENORESOURCES, p, st)
          else Some (0, p, st\<lparr>vm_nodes := node_init p (vm_nodes st)\<rparr>) }"

definition pt_alloc_vma :: "addr \<Rightarrow> pt \<Rightarrow> (addr \<times> pt) option" where
  "pt_alloc_vma vmas_head st =
     do { (kvma, st) \<leftarrow> pt_salloc 40 st;
          if kvma = NULL then Some (NULL, st)
          else do {
            let st = st\<lparr>vm_nodes := node_init (node_of kvma) (vm_nodes st)\<rparr>;
            if \<not> is_node_init vmas_head (vm_nodes st) then Some (NULL, st)
            else Some (kvma, st\<lparr>vm_nodes := list_append vmas_head (node_of kvma) (vm_nodes st)\<rparr>) } }"

definition raw_map_lowhigh :: "u64 \<Rightarrow> u64 \<Rightarrow> u64 \<Rightarrow> u64 \<Rightarrow> pt \<Rightarrow> (int \<times> pt) option" where
  "raw_map_lowhigh vpn ppn pagen flags st =
     do { (low, st) \<leftarrow> pt_alloc_vma (kvmas_head st) st;
          if low = NULL then Some (- ENORESOURCES, st)
          else do {
            (high, st) \<leftarrow> pt_alloc_vma (kvmas_head st) st;
            if high = NULL then Some (- ENORESOURCES, st)
            else do {
              (r, st) \<leftarrow> raw_pt_vma_new (ksatp st) ppn ppn pagen flags low st;
              if r \<noteq> 0 then Some (- EINVALARGS, st)
              else do {
                (r, st) \<leftarrow> raw_pt_vma_new (ksatp st) vpn ppn pagen flags high st;
                Some (if r \<noteq> 0 then - EINVALARGS else 0, st) } } } }"

definition map_phys_mem_lowhigh :: "pt \<Rightarrow> (int \<times> pt) option" where
  "map_phys_mem_lowhigh st =
     (let flags = VMA_READ OR VMA_WRITE OR VMA_IDENTITY;
          pagen = phys2ppn_pt (phys_end (layout st) - phys_base (layout st));
          ppn = phys2ppn_pt (phys_base (layout st));
          vpn = virt2vpn (VIRT_MEM_KERNEL_BASE + ppn2phys ppn)
      in raw_map_lowhigh vpn ppn pagen flags st)"

definition map_kelf_lowhigh :: "pt \<Rightarrow> (int \<times> pt) option" where
  "map_kelf_lowhigh st =
     (let flags = VMA_READ OR VMA_WRITE OR VMA_EXEC OR VMA_IDENTITY;
          pagen = phys2ppn_pt (phys_base (layout st) - kelf_base (layout st));
          ppn = phys2ppn_pt (kelf_base (layout st));
          vpn = virt2vpn (VIRT_MEM_KERNEL_BASE + ppn2phys ppn)
      in raw_map_lowhigh vpn ppn pagen flags st)"

definition map_kstack_lowhigh :: "pt \<Rightarrow> (int \<times> pt) option" where
  "map_kstack_lowhigh st =
     (let flags = VMA_READ OR VMA_WRITE OR VMA_IDENTITY;
          pagen = phys2ppn_pt (kstack_size (layout st));
          ppn = phys2ppn_pt (phys_end (layout st));
          vpn = virt2vpn (VIRT_MEM_KERNEL_BASE + ppn2phys ppn)
      in raw_map_lowhigh vpn ppn pagen flags st)"

definition map_io_lowhigh :: "pt \<Rightarrow> (int \<times> pt) option" where
  "map_io_lowhigh st =
     (let flags = VMA_READ OR VMA_WRITE OR VMA_IDENTITY;
          pagen = phys2ppn_pt (kelf_base (layout st));
          ppn = phys2ppn_pt 0;
          vpn = virt2vpn VIRT_MEM_KERNEL_BASE
      in raw_map_lowhigh vpn ppn pagen flags st)"

partial_function (option) vpn2vma_loop :: "pt \<Rightarrow> addr \<Rightarrow> u64 \<Rightarrow> addr \<Rightarrow> addr option" where
  "vpn2vma_loop st vmas_head vpn node =
     (if node \<noteq> vmas_head then
        (let vma = vma_of node
         in if vpn \<ge> vm_vpn st vma \<and> vpn < vm_vpn st vma + vm_pagen st vma then Some vma
            else vpn2vma_loop st vmas_head vpn (nnext (vm_nodes st) node))
      else Some NULL)"

definition vpn2vma :: "addr \<Rightarrow> u64 \<Rightarrow> pt \<Rightarrow> addr option" where
  "vpn2vma vmas_head vpn st = vpn2vma_loop st vmas_head vpn (nnext (vm_nodes st) vmas_head)"

partial_function (option) migrate_kvmas_loop :: "addr \<Rightarrow> u64 \<Rightarrow> addr \<Rightarrow> nodes \<Rightarrow> nodes option" where
  "migrate_kvmas_loop head off node h =
     (if node \<noteq> head then
        (let kvma = vma_of node;
             h = node_migrate (node_of kvma) off h
         in migrate_kvmas_loop head off (nnext h node) h)
      else Some h)"

definition pt_migrate_kvmas :: "u64 \<Rightarrow> pt \<Rightarrow> pt option" where
  "pt_migrate_kvmas off st =
     do { let st = st\<lparr>kvmas_head := kvmas_head st + off\<rparr>;
          let h = node_migrate (kvmas_head st) off (vm_nodes st);
          h \<leftarrow> migrate_kvmas_loop (kvmas_head st) off (nnext h (kvmas_head st)) h;
          Some (st\<lparr>vm_nodes := h\<rparr>) }"

partial_function (option) destroy_low_loop :: "addr \<Rightarrow> pt \<Rightarrow> pt option" where
  "destroy_low_loop node st =
     (if node \<noteq> kvmas_head st then
        do { let kvma = vma_of node;
             let nx = nnext (vm_nodes st) node;
             st \<leftarrow> (if vm_vpn st kvma < virt2vpn VIRT_MEM_KERNEL_BASE
                    then pt_vma_destroy (ksatp st) kvma st else Some st);
             destroy_low_loop nx st }
      else Some st)"

definition pt_destroy_low_kvmas :: "pt \<Rightarrow> pt option" where
  "pt_destroy_low_kvmas st = destroy_low_loop (nnext (vm_nodes st) (kvmas_head st)) st"

text \<open>
  \<open>pt_init\<close>. The pointers \<open>buddy_migrate\<close> shifts are block indices in this state, so the call
  does not change it.
\<close>

definition and_then :: "(pt \<Rightarrow> (int \<times> pt) option) \<Rightarrow> (pt \<Rightarrow> (int \<times> pt) option) \<Rightarrow> pt \<Rightarrow> (int \<times> pt) option" where
  "and_then f g st = do { (r, st) \<leftarrow> f st; if r \<noteq> 0 then Some (- 1, st) else g st }"

definition pt_init :: "pt \<Rightarrow> (int \<times> pt) option" where
  "pt_init =
     and_then ksatp_init
     (and_then (\<lambda>st. do { (r, p, st) \<leftarrow> pt_init_vmas_head st; Some (r, st\<lparr>kvmas_head := p\<rparr>) })
     (and_then map_phys_mem_lowhigh
     (and_then map_kstack_lowhigh
     (and_then map_kelf_lowhigh
     (and_then map_io_lowhigh
     (\<lambda>st. do { let st = ksatp_enable_paging st;
                st \<leftarrow> pt_migrate_kvmas VIRT_MEM_KERNEL_BASE st;
                Some (0, st) }))))))"

text \<open>The supervisor's access to user pages; \<open>!SSTATUS_SUM\<close> is zero.\<close>

abbreviation (input) SSTATUS_SUM :: u64 where "SSTATUS_SUM \<equiv> 0x40000"

definition unset_vma_protection :: "pt \<Rightarrow> pt" where
  "unset_vma_protection st = st\<lparr>csr_sstatus := csr_sstatus st OR SSTATUS_SUM\<rparr>"

definition set_vma_protection :: "pt \<Rightarrow> pt" where
  "set_vma_protection st = st\<lparr>csr_sstatus := csr_sstatus st AND of_bool (SSTATUS_SUM = 0)\<rparr>"

end
