(* ===== verification/Vma_Map.thy ===== *)
theory Vma_Map
  imports Vma
begin

text \<open>
  Backing an area by memory: what \<open>pt_vma_map_page_at_vpn\<close>, the function behind the page fault
  handler, does to the page tables and to memory.
\<close>

unbundle bit_operations_syntax

section \<open>Page sizes\<close>

definition fits :: "vma \<Rightarrow> u64 \<Rightarrow> nat \<Rightarrow> bool" where
  "fits vma vpn level \<longleftrightarrow> v_vpn vma \<le> vpn2prevpageboundary vpn level
     \<and> vpn2prevpageboundary vpn level + level2pagen level \<le> v_vpn vma + v_pagen vma"

text \<open>The first loop finds the largest level whose aligned page around \<open>vpn\<close> lies in the area.\<close>

lemma fit_level_spec:
  "(fit_level vma vpn n = None \<longleftrightarrow> (\<forall>l \<le> n. \<not> fits vma vpn l))
   \<and> (\<forall>l. fit_level vma vpn n = Some l \<longleftrightarrow> l \<le> n \<and> fits vma vpn l \<and> (\<forall>k. l < k \<longrightarrow> k \<le> n \<longrightarrow> \<not> fits vma vpn k))"
proof (induction n)
  case 0
  then show ?case by (subst (1 2) fit_level.simps) (auto simp: fits_def)
next
  case (Suc n)
  have run: "fit_level vma vpn (Suc n) = (if fits vma vpn (Suc n) then Some (Suc n) else fit_level vma vpn n)"
    by (subst fit_level.simps) (auto simp: fits_def)
  show ?case
  proof (cases "fits vma vpn (Suc n)")
    case True
    then show ?thesis by (auto simp: run) (metis le_neq_implies_less order_refl)
  next
    case False
    have "(\<forall>l \<le> Suc n. \<not> fits vma vpn l) \<longleftrightarrow> (\<forall>l \<le> n. \<not> fits vma vpn l)"
      using False by (auto simp: le_Suc_eq)
    moreover have "l \<le> Suc n \<and> fits vma vpn l \<and> (\<forall>k. l < k \<longrightarrow> k \<le> Suc n \<longrightarrow> \<not> fits vma vpn k) \<longleftrightarrow>
        l \<le> n \<and> fits vma vpn l \<and> (\<forall>k. l < k \<longrightarrow> k \<le> n \<longrightarrow> \<not> fits vma vpn k)" for l
      using False by (auto simp: le_Suc_eq)
    ultimately show ?thesis using Suc False by (simp add: run)
  qed
qed

section \<open>Memory for a page of any level\<close>

lemma memset_region_outside:
  assumes "b < NBLOCKS" "b + 2 ^ k \<le> NBLOCKS" "\<forall>c \<in> pages b k. drop_bit 12 a \<noteq> block2ppn c"
  shows "memset m (ppn2phys (block2ppn b)) 0 (0x1000 * push_bit k 1) a = m a"
proof (rule ccontr)
  assume "\<not> ?thesis"
  then have lt: "a - ppn2phys (block2ppn b) < 0x1000 * push_bit k 1"
    by (auto simp: memset_apply split: if_splits)
  define x where "x = unat (a - ppn2phys (block2ppn b))"
  have k: "(2::nat) ^ k \<le> 8192" using assms(2) by simp
  have pk: "unat (push_bit k 1 :: u64) = 2 ^ k" using unat_push_bit_64 [of 1 k] k by simp
  have "unat (0x1000 * push_bit k 1 :: u64) = 4096 * 2 ^ k"
    using k pk by (subst unat_mult_lem [THEN iffD1]) auto
  then have x: "x < 4096 * 2 ^ k" using lt by (simp add: x_def word_less_nat_alt)
  have base: "unat (ppn2phys (block2ppn b)) = 4096 * (0x80000 + b)"
    using assms(1) block2ppn_unat [OF assms(1)] by (simp add: ppn2phys_def unat_push_bit_64)
  have "a = ppn2phys (block2ppn b) + of_nat x" by (simp add: x_def)
  then have "unat a = 4096 * (0x80000 + b) + x"
    using base x k assms(2) by (simp add: unat_add_of_nat_64)
  then have "unat (drop_bit 12 a) = 0x80000 + (b + x div 4096)"
    by (simp add: unat_drop_bit_64)
  moreover have c: "b + x div 4096 \<in> pages b k" "b + x div 4096 < NBLOCKS"
    using x assms(2) by (auto simp: pages_def)
  ultimately have "drop_bit 12 a = block2ppn (b + x div 4096)"
    by (simp add: u64_eq_iff block2ppn_unat)
  with assms(3) c(1) show False by blast
qed

lemma memset_region_inside:
  assumes "b < NBLOCKS" "b + 2 ^ k \<le> NBLOCKS" "c \<in> pages b k" "drop_bit 12 a = block2ppn c"
  shows "memset m (ppn2phys (block2ppn b)) 0 (0x1000 * push_bit k 1) a = 0"
proof -
  have k: "(2::nat) ^ k \<le> 8192" using assms(2) by simp
  have c: "b \<le> c" "c < b + 2 ^ k" "c < NBLOCKS" using assms(2,3) by (auto simp: pages_def)
  have pk: "unat (push_bit k 1 :: u64) = 2 ^ k" using unat_push_bit_64 [of 1 k] k by simp
  have sz: "unat (0x1000 * push_bit k 1 :: u64) = 4096 * 2 ^ k"
    using k pk by (subst unat_mult_lem [THEN iffD1]) auto
  have base: "unat (ppn2phys (block2ppn b)) = 4096 * (0x80000 + b)"
    using assms(1) block2ppn_unat [OF assms(1)] by (simp add: ppn2phys_def unat_push_bit_64)
  have "unat a div 4096 = 0x80000 + c"
    using assms(4) block2ppn_unat [OF c(3)] by (simp add: u64_eq_iff unat_drop_bit_64)
  then have a: "4096 * (0x80000 + c) \<le> unat a" "unat a < 4096 * (0x80000 + c) + 4096" by auto
  have "unat (a - ppn2phys (block2ppn b)) = unat a - 4096 * (0x80000 + b)"
    using a c base by (subst unat_sub_64) (auto simp: word_le_nat_alt)
  then have "unat (a - ppn2phys (block2ppn b)) < 4096 * 2 ^ k" using a c by simp
  then have "a - ppn2phys (block2ppn b) < 0x1000 * push_bit k 1" by (simp only: word_less_nat_alt sz)
  then show ?thesis by (simp add: memset_apply)
qed

lemma pt_alloc_spec:
  assumes "buddy_inv (frames st)"
  shows "pt_alloc l st = Some (0, st)
    \<or> (\<exists>b fr. buddy_inv fr \<and> b + 2 ^ (l * 9) \<le> NBLOCKS \<and> pages b (l * 9) \<subseteq> free_pages (frames st)
      \<and> free_pages fr = free_pages (frames st) - pages b (l * 9) \<and> allocated (frames st) b = None
      \<and> allocated fr = (allocated (frames st))(b := Some (l * 9, 1))
      \<and> pt_alloc l st = Some (ppn2phys (block2ppn b),
          st\<lparr>frames := fr, pmem := memset (pmem st) (ppn2phys (block2ppn b)) 0 (0x1000 * push_bit (l * 9) 1)\<rparr>))"
proof -
  obtain r fr where a: "buddy_alloc (l * 9) (frames st) = Some (r, fr)" "buddy_inv fr"
    using ba.alloc_total [OF assms] by blast
  show ?thesis
  proof (cases r)
    case None
    then have "fr = frames st" using ba.alloc_None [OF assms, of "l * 9"] a(1) by auto
    then show ?thesis using a(1) None by (simp add: pt_alloc_def level2order_def)
  next
    case (Some b)
    then have b: "allocated fr = (allocated (frames st))(b := Some (l * 9, 1))" "pages b (l * 9) \<subseteq> free_pages (frames st)"
      "free_pages fr = free_pages (frames st) - pages b (l * 9)" "allocated (frames st) b = None"
      using ba.alloc_Some [OF assms, of "l * 9" b fr] a(1) by auto
    then have "b + 2 ^ (l * 9) \<le> NBLOCKS" using allocatedD(7) [OF a(2), of b "l * 9" 1] by simp
    moreover have "pt_alloc l st = Some (ppn2phys (block2ppn b),
        st\<lparr>frames := fr, pmem := memset (pmem st) (ppn2phys (block2ppn b)) 0 (0x1000 * push_bit (l * 9) 1)\<rparr>)"
      using a Some by (simp add: pt_alloc_def level2order_def Let_def kaddr_def phys2kvirt_def is_paging_enabled_def)
    ultimately show ?thesis using b a(2) by blast
  qed
qed

text \<open>Handing out free pages and clearing them leaves the page tables as they are.\<close>

lemma pt_inv_alloc:
  assumes inv: "pt_inv satp st" and b: "buddy_inv fr" "b + 2 ^ k \<le> NBLOCKS" "pages b k \<subseteq> free_pages (frames st)"
      "free_pages fr = free_pages (frames st) - pages b k" "allocated (frames st) b = None"
      "allocated fr = (allocated (frames st))(b := Some (k, 1))"
    and st': "st' = st\<lparr>frames := fr, pmem := memset (pmem st) (ppn2phys (block2ppn b)) 0 (0x1000 * push_bit k 1)\<rparr>"
  shows "pt_inv satp st'" "same_leaves (pmem st) (pmem st') (root_of satp)" "pt_grows satp st st'"
    "\<And>vpn d. d \<le> 4 \<Longrightarrow> tab (pmem st') (root_of satp) vpn d = tab (pmem st) (root_of satp) vpn d"
proof -
  let ?root = "root_of satp"
  have binv: "buddy_inv (frames st)" and wf: "pt_wf (pmem st) (frames st) ?root"
    using inv by (auto simp: pt_inv_def)
  have pos: "(0::nat) < 2 ^ k" by simp
  have bN: "b < NBLOCKS" using b(2) pos by linarith
  have out: "pmem st' a = pmem st a" if "\<forall>c \<in> pages b k. drop_bit 12 a \<noteq> block2ppn c" for a
    using memset_region_outside [OF bN b(2) that] by (simp add: st')
  have e: "entry (pmem st') p (idx vpn d) = entry (pmem st) p (idx vpn d)"
    if "d < 4" "tab (pmem st) ?root vpn d = Some p" for vpn d p
  proof -
    have pb: "unat p < 2 ^ 44" using tab_bound [OF root_bound that(2)] .
    have live: "live_page (frames st) p" using pt_wfD(1) [OF wf that] .
    have "p \<noteq> block2ppn c" if "c \<in> pages b k" for c
      using live free_not_live [OF binv] b(3) that by blast
    moreover have "drop_bit 12 (slot p (idx vpn d) + of_nat i) = p" if "i < 8" for i
    proof -
      have "slot p (idx vpn d) + of_nat i = ppn2phys p + of_nat (8 * unat (idx vpn d) + i)"
        by (simp add: slot_def add.assoc mult.commute)
      then show ?thesis using page_of_offset [OF pb, of "8 * unat (idx vpn d) + i"] unat_idx [of vpn "3 - d"] that
        by (simp add: add.assoc)
    qed
    ultimately show ?thesis
      unfolding entry_def load64_def by (intro arg_cong [of _ _ of_nat] load_le_cong out) auto
  qed
  have T: "tab (pmem st') ?root vpn d = tab (pmem st) ?root vpn d" if "d \<le> 4" for vpn d
    using tab_frame(1) [OF e that] by blast
  have E: "ent (pmem st') ?root vpn d = ent (pmem st) ?root vpn d" if "d < 4" for vpn d
    using tab_frame(2) [OF e that] by blast
  show "tab (pmem st') ?root vpn d = tab (pmem st) ?root vpn d" if "d \<le> 4" for vpn d by (rule T [OF that])
  have fr: "frames st' = fr" by (simp add: st')
  have "pt_wf (pmem st') fr ?root"
  proof (rule pt_wfI)
    fix vpn d p assume "d < (4::nat)" "tab (pmem st') ?root vpn d = Some p"
    then show "live_page fr p"
      using T [of d vpn] pt_wfD(1) [OF wf, of d vpn p] live_page_mono [of "frames st" p fr] b(4) by auto
  next
    fix vpn1 vpn2 d1 d2 p' assume a: "d1 < (4::nat)" "d2 < (4::nat)" "tab (pmem st') ?root vpn1 d1 = Some p'"
      "tab (pmem st') ?root vpn2 d2 = Some p'"
    then show "d1 = d2 \<and> pre vpn1 d1 = pre vpn2 d1"
      using T [of d1 vpn1] T [of d2 vpn2] pt_wfD(2) [OF wf a(2), of vpn2 p' d1 vpn1] by auto
  next
    fix vpn d e assume "d < (4::nat)" "ent (pmem st') ?root vpn d = Some e"
    then show "pte_ok d e" using E [of d vpn] pt_wfD(3) [OF wf, of d vpn e] by simp
  qed
  then show "pt_inv satp st'" using b(1) by (simp add: pt_inv_def fr)
  show "same_leaves (pmem st) (pmem st') ?root" by (auto simp: same_leaves_def leaf_at_def E)
  have "owned satp st' \<subseteq> owned satp st" using T b(4) by (auto simp: owned_def pt_pages_def fr)
  moreover have "pmem st' a = pmem st a" if "drop_bit 12 a \<notin> owned satp st" for a
    using that b(3) by (intro out) (auto simp: owned_def)
  ultimately show "pt_grows satp st st'" using b(5,6) by (auto simp: pt_grows_def st')
qed


section \<open>Entries of new pages\<close>

definition perms :: "u64 \<Rightarrow> u64" where
  "perms flags = pg_pte (raw_pt_page_pte_set_perm \<lparr>pg_vpn = 0, pg_level = 0, pg_ppn = 0, pg_pte = 0\<rparr> flags)"

definition new_pte :: "u64 \<Rightarrow> u64 \<Rightarrow> u64" where
  "new_pte flags ppn = pte_set (pte_set_ppn (perms flags) ppn) PTE_VALID_SHIFT"

lemma flag_bit: "flags AND 1 \<noteq> 0 \<longleftrightarrow> bit flags 0" "flags AND 4 \<noteq> 0 \<longleftrightarrow> bit flags 2"
  "flags AND 8 \<noteq> 0 \<longleftrightarrow> bit flags 3" "flags AND 0x10 \<noteq> 0 \<longleftrightarrow> bit flags 4"
  "flags AND 0x20 \<noteq> 0 \<longleftrightarrow> bit flags 5" "flags AND 0x40 \<noteq> 0 \<longleftrightarrow> bit flags 6" for flags :: u64
proof -
  have "flags AND 2 ^ n \<noteq> 0 \<longleftrightarrow> bit flags n" if "n < 64" for n
    using that by (simp add: bit_iff_and_push_bit_not_eq_0 push_bit_eq_mult)
  from this [of 0] this [of 2] this [of 3] this [of 4] this [of 5] this [of 6]
  show "flags AND 1 \<noteq> 0 \<longleftrightarrow> bit flags 0" "flags AND 4 \<noteq> 0 \<longleftrightarrow> bit flags 2"
    "flags AND 8 \<noteq> 0 \<longleftrightarrow> bit flags 3" "flags AND 0x10 \<noteq> 0 \<longleftrightarrow> bit flags 4"
    "flags AND 0x20 \<noteq> 0 \<longleftrightarrow> bit flags 5" "flags AND 0x40 \<noteq> 0 \<longleftrightarrow> bit flags 6"
    by simp_all
qed

lemma bit_set_perm:
  "bit (pg_pte (raw_pt_page_pte_set_perm page flags)) n \<longleftrightarrow> bit (pg_pte page) n
     \<or> n = 1 \<and> bit flags 0 \<or> n = 2 \<and> bit flags 2 \<or> n = 3 \<and> bit flags 3 \<or> n = 4 \<and> bit flags 6"
  by (auto simp: raw_pt_page_pte_set_perm_def Let_def flag_bit bit_pte_set split: if_splits)

lemma set_perm_fields [simp]:
  "pg_vpn (raw_pt_page_pte_set_perm page flags) = pg_vpn page"
  "pg_level (raw_pt_page_pte_set_perm page flags) = pg_level page"
  by (simp_all add: raw_pt_page_pte_set_perm_def Let_def)

lemma set_perm_again:
  assumes "pg_pte page = 0 \<or> pg_pte page = perms flags"
  shows "pg_pte (raw_pt_page_pte_set_perm page flags) = perms flags"
  using assms by (intro bit_word_eqI) (auto simp: bit_set_perm perms_def)

lemma bit_new_pte:
  "bit (new_pte flags ppn) n \<longleftrightarrow>
     (if 10 \<le> n \<and> n < 54 then bit ppn (n - 10)
      else n = 0 \<or> n = 1 \<and> bit flags 0 \<or> n = 2 \<and> bit flags 2 \<or> n = 3 \<and> bit flags 3 \<or> n = 4 \<and> bit flags 6)"
  by (auto simp: new_pte_def bit_pte_set bit_pte_set_ppn perms_def bit_set_perm)

lemma new_pte_fields:
  "pte_is_valid (new_pte flags ppn)" "pte_is_leaf (new_pte flags ppn) \<longleftrightarrow> bit flags 0 \<or> bit flags 3"
  "pte_get_ppn (new_pte flags ppn) = ppn AND mask 44"
  by (simp_all add: pte_is_valid_bit pte_is_leaf_bit bit_new_pte)
    (simp add: new_pte_def pte_get_ppn_set pte_get_set_ppn)

section \<open>Backing a page\<close>

text \<open>
  \<open>backed l b st st1\<close>: \<open>st1\<close> is \<open>st\<close> after a cleared page of level \<open>l\<close>, the block \<open>b\<close>, was taken
  from the allocator.
\<close>

definition backed :: "nat \<Rightarrow> nat \<Rightarrow> pt \<Rightarrow> pt \<Rightarrow> bool" where
  "backed l b st st1 \<longleftrightarrow>
     (\<exists>fr. buddy_inv fr \<and> b + 2 ^ (l * 9) \<le> NBLOCKS \<and> pages b (l * 9) \<subseteq> free_pages (frames st)
      \<and> free_pages fr = free_pages (frames st) - pages b (l * 9) \<and> allocated (frames st) b = None
      \<and> allocated fr = (allocated (frames st))(b := Some (l * 9, 1))
      \<and> st1 = st\<lparr>frames := fr, pmem := memset (pmem st) (ppn2phys (block2ppn b)) 0 (0x1000 * push_bit (l * 9) 1)\<rparr>)"

lemma needs_pte_spec:
  assumes "buddy_inv (frames st)" "v_flags vma AND VMA_IDENTITY = 0" "pg_pte out = 0 \<or> pg_pte out = perms (v_flags vma)"
  shows "(\<exists>out'. raw_pt_page_needs_pte vma ppn out st = Some (- ENORESOURCES, out', st) \<and> pg_pte out' = perms (v_flags vma))
    \<or> (\<exists>out' b st1. raw_pt_page_needs_pte vma ppn out st = Some (0, out', st1) \<and> backed (pg_level out) b st st1
        \<and> pg_pte out' = new_pte (v_flags vma) (block2ppn b) \<and> pg_vpn out' = pg_vpn out \<and> pg_level out' = pg_level out)"
  using pt_alloc_spec [OF assms(1), of "pg_level out"]
proof (elim disjE exE conjE)
  assume "pt_alloc (pg_level out) st = Some (0, st)"
  then show ?thesis
    using assms(2) set_perm_again [OF assms(3)] by (simp add: raw_pt_page_needs_pte_def phys2ppn_pt_def Let_def)
next
  fix b fr
  assume b: "buddy_inv fr" "b + 2 ^ (pg_level out * 9) \<le> NBLOCKS" "pages b (pg_level out * 9) \<subseteq> free_pages (frames st)"
    "free_pages fr = free_pages (frames st) - pages b (pg_level out * 9)" "allocated (frames st) b = None"
    "allocated fr = (allocated (frames st))(b := Some (pg_level out * 9, 1))"
    and run: "pt_alloc (pg_level out) st = Some (ppn2phys (block2ppn b), st\<lparr>frames := fr,
      pmem := memset (pmem st) (ppn2phys (block2ppn b)) 0 (0x1000 * push_bit (pg_level out * 9) 1)\<rparr>)"
  have "(0::nat) < 2 ^ (pg_level out * 9)" by simp
  then have "b < NBLOCKS" using b(2) by linarith
  then have u: "unat (block2ppn b) = 0x80000 + b" "b < NBLOCKS" using block2ppn_unat by auto
  then have "phys2ppn_pt (ppn2phys (block2ppn b)) = block2ppn b" "block2ppn b \<noteq> 0"
    by (auto simp: phys2ppn_ppn2phys u64_eq_iff)
  then show ?thesis
    using b run assms(2) set_perm_again [OF assms(3)]
    by (auto simp: raw_pt_page_needs_pte_def Let_def backed_def new_pte_def)
qed

lemma back_level_spec:
  assumes "buddy_inv (frames st)" "v_flags vma AND VMA_IDENTITY = 0" "pg_pte out = 0 \<or> pg_pte out = perms (v_flags vma)"
  shows "(\<exists>out'. back_level vma vpn ppn l out st = Some (None, out', st))
    \<or> (\<exists>k out' b st1. back_level vma vpn ppn l out st = Some (Some k, out', st1) \<and> k \<le> l \<and> backed k b st st1
        \<and> pg_pte out' = new_pte (v_flags vma) (block2ppn b)
        \<and> pg_vpn out' = vpn2prevpageboundary vpn k \<and> pg_level out' = k)"
  using assms(3)
proof (induction l arbitrary: out)
  case 0
  from needs_pte_spec [OF assms(1,2), of "out\<lparr>pg_vpn := vpn2prevpageboundary vpn 0, pg_level := 0\<rparr>" ppn] 0
  show ?case
    by (subst (1 2) back_level.simps) (auto simp: pt_vma_new_page_at_vpn_of_level_def)
next
  case (Suc l)
  let ?out = "out\<lparr>pg_vpn := vpn2prevpageboundary vpn (Suc l), pg_level := Suc l\<rparr>"
  have "pg_pte ?out = 0 \<or> pg_pte ?out = perms (v_flags vma)" using Suc.prems by simp
  from needs_pte_spec [OF assms(1,2) this, of ppn] show ?case
  proof (elim disjE exE conjE)
    fix out' assume o: "raw_pt_page_needs_pte vma ppn ?out st = Some (- ENORESOURCES, out', st)" "pg_pte out' = perms (v_flags vma)"
    then have "back_level vma vpn ppn (Suc l) out st = back_level vma vpn ppn l out' st"
      by (subst back_level.simps) (simp add: pt_vma_new_page_at_vpn_of_level_def)
    then show ?thesis using Suc.IH [of out'] o(2) by (auto intro: le_SucI)
  next
    fix out' b st1
    assume o: "raw_pt_page_needs_pte vma ppn ?out st = Some (0, out', st1)" "backed (pg_level ?out) b st st1"
      "pg_pte out' = new_pte (v_flags vma) (block2ppn b)" "pg_vpn out' = pg_vpn ?out" "pg_level out' = pg_level ?out"
    then have "back_level vma vpn ppn (Suc l) out st = Some (Some (Suc l), out', st1)"
      by (subst back_level.simps) (simp add: pt_vma_new_page_at_vpn_of_level_def)
    then show ?thesis using o by auto
  qed
qed


lemma highest_empty_loop_spec:
  "length ptes = 5 \<Longrightarrow> d \<le> 5 \<Longrightarrow> (\<forall>i < d. ptes ! i \<noteq> 0) \<Longrightarrow> ptes ! 0 \<noteq> 0 \<Longrightarrow>
   \<exists>r. highest_empty_loop d ptes = Some r \<and> r \<le> 3 \<and> r \<ge> - 1"
proof (induction d ptes rule: highest_empty_loop.induct)
  case (1 d ptes)
  show ?case
  proof (cases "d < 5")
    case True
    show ?thesis
    proof (cases "ptes ! d = 0")
      case zero: True
      then have "d \<noteq> 0" using "1.prems"(4) by metis
      then show ?thesis using zero True "1.prems"(1)
        by (subst highest_empty_loop.simps) (simp add: level2depth_def)
    next
      case False
      then have "\<exists>r. highest_empty_loop (d + 1) ptes = Some r \<and> r \<le> 3 \<and> r \<ge> - 1"
        using True "1.prems" by (intro "1.IH") (auto simp: less_Suc_eq ensure_def)
      then show ?thesis using True False "1.prems"(1)
        by (subst highest_empty_loop.simps) simp
    qed
  next
    case False
    then show ?thesis by (subst highest_empty_loop.simps) simp
  qed
qed

lemma find_level_spec:
  "\<exists>r. raw_pt_find_level_of_highest_empty_pte satp vpn st = Some r \<and> r \<le> 3"
proof -
  have "satp2pte satp \<noteq> 0" using satp2pte_valid(1) [of satp] by (auto simp: pte_is_valid_bit)
  then have "\<exists>r. highest_empty_loop 0 (walk_array (pmem st) satp vpn) = Some r \<and> r \<le> 3 \<and> r \<ge> - 1"
    by (intro highest_empty_loop_spec) (auto simp: walk_array_nth)
  then show ?thesis using pt_get_pte_spec [of st satp vpn]
    by (auto simp: raw_pt_find_level_of_highest_empty_pte_def)
qed


section \<open>Mapping a page\<close>

text \<open>\<open>in_area\<close>: the page number lies in the area, whose end does not overflow.\<close>

definition in_area :: "vma \<Rightarrow> u64 \<Rightarrow> bool" where
  "in_area vma vpn \<longleftrightarrow> unat (v_vpn vma) \<le> unat vpn \<and> unat vpn < unat (v_vpn vma) + unat (v_pagen vma)
     \<and> unat (v_vpn vma) + unat (v_pagen vma) \<le> 2 ^ 52"

lemma fits_nat:
  assumes "in_area vma vpn" "l \<le> 3"
  shows "fits vma vpn l \<longleftrightarrow> unat (v_vpn vma) \<le> unat vpn div 512 ^ l * 512 ^ l
    \<and> unat vpn div 512 ^ l * 512 ^ l + 512 ^ l \<le> unat (v_vpn vma) + unat (v_pagen vma)"
proof -
  have b: "unat vpn div 512 ^ l * 512 ^ l \<le> unat vpn" by simp
  have s: "(512::nat) ^ l \<le> 512 ^ 3" using assms(2) by (intro power_increasing) auto
  have a: "unat vpn < 2 ^ 52" "unat (v_vpn vma) + unat (v_pagen vma) \<le> 2 ^ 52"
    using assms(1) by (auto simp: in_area_def)
  note u = unat_prevboundary [OF assms(2), of vpn] unat_level2pagen [OF assms(2)]
  have "unat (vpn2prevpageboundary vpn l + level2pagen l) = unat vpn div 512 ^ l * 512 ^ l + 512 ^ l"
    using u le_less_trans [OF b a(1)] s by (subst unat_add_64) auto
  moreover have "unat (v_vpn vma + v_pagen vma) = unat (v_vpn vma) + unat (v_pagen vma)"
    using a(2) by (subst unat_add_64) auto
  ultimately show ?thesis using u by (simp add: fits_def word_le_nat_alt)
qed

lemma fits_smaller:
  assumes "in_area vma vpn" "fits vma vpn l" "k \<le> l" "l \<le> 3"
  shows "fits vma vpn k"
proof -
  define x where "x = unat vpn"
  obtain j where j: "l = k + j" using assms(3) le_Suc_ex by blast
  have lo: "x div 512 ^ l * 512 ^ l \<le> x div 512 ^ k * 512 ^ k"
  proof -
    have "x div 512 ^ l * 512 ^ j \<le> x div 512 ^ k"
      by (simp add: j power_add div_mult2_eq)
    then have "x div 512 ^ l * 512 ^ j * 512 ^ k \<le> x div 512 ^ k * 512 ^ k" by (rule mult_le_mono1)
    then show ?thesis by (simp add: j power_add algebra_simps)
  qed
  have hi: "x div 512 ^ k * 512 ^ k + 512 ^ k \<le> x div 512 ^ l * 512 ^ l + 512 ^ l"
  proof -
    have "x div 512 ^ k div 512 ^ j < x div 512 ^ l + 1" by (simp add: j power_add div_mult2_eq)
    then have "x div 512 ^ k < (x div 512 ^ l + 1) * 512 ^ j"
      by (simp add: less_mult_imp_div_less div_less_iff_less_mult)
    then have "(x div 512 ^ k + 1) * 512 ^ k \<le> (x div 512 ^ l + 1) * 512 ^ j * 512 ^ k"
      by (intro mult_le_mono1) simp
    then show ?thesis by (simp add: j power_add algebra_simps)
  qed
  show ?thesis
    using assms lo hi fits_nat [OF assms(1), of l] fits_nat [OF assms(1), of k] by (auto simp: x_def)
qed

lemma page_remaining:
  assumes "l \<le> 3"
  shows "sint (vpn2prevpageboundary vpn l + level2pagen l - vpn) = int (512 ^ l - unat vpn mod 512 ^ l)"
proof -
  let ?r = "unat vpn mod 512 ^ l"
  have r: "?r < 512 ^ l" by simp
  have l: "(512::nat) ^ l \<le> 512 ^ 3" using assms by (intro power_increasing) auto
  have "vpn = vpn2prevpageboundary vpn l + of_nat ?r"
  proof -
    have "unat vpn = unat (vpn2prevpageboundary vpn l) + ?r"
      by (simp only: unat_prevboundary [OF assms] div_mult_mod_eq)
    then have "(of_nat (unat vpn) :: u64) = of_nat (unat (vpn2prevpageboundary vpn l) + ?r)"
      by (rule arg_cong)
    then show ?thesis by simp
  qed
  moreover have "level2pagen l = of_nat (unat (level2pagen l))" by simp
  then have "level2pagen l = of_nat (512 ^ l)" by (simp only: unat_level2pagen [OF assms])
  ultimately have "vpn2prevpageboundary vpn l + level2pagen l - vpn = of_nat (512 ^ l) - of_nat ?r"
    by (metis add_diff_cancel_left)
  also have "\<dots> = of_nat (512 ^ l - ?r)" using r by (simp add: of_nat_diff)
  finally have e: "vpn2prevpageboundary vpn l + level2pagen l - vpn = of_nat (512 ^ l - ?r)" .
  have "512 ^ l - ?r < 9223372036854775808" using l by simp
  then show ?thesis unfolding e by (rule sint_of_nat_64)
qed

lemma pre_prevboundary: "l \<le> 3 \<Longrightarrow> pre (vpn2prevpageboundary vpn l) (4 - l) = pre vpn (4 - l)"
  by (rule bit_word_eqI) (auto simp: prevboundary_mask pre_def bit_simps)


text \<open>
  \<open>mapped_new satp vma vpn st st' l b\<close>: in \<open>st'\<close> the aligned page of level \<open>l\<close> around \<open>vpn\<close> is
  mapped to the cleared block \<open>b\<close> with the permissions of the area, and nothing else changed.
\<close>

definition mapped_new :: "u64 \<Rightarrow> vma \<Rightarrow> u64 \<Rightarrow> pt \<Rightarrow> pt \<Rightarrow> nat \<Rightarrow> nat \<Rightarrow> bool" where
  "mapped_new satp vma vpn st st' l b \<longleftrightarrow>
     l \<le> 3 \<and> fits vma vpn l \<and> pages b (l * 9) \<subseteq> free_pages (frames st)
     \<and> allocated (frames st') b = Some (l * 9, 1)
     \<and> (\<forall>c \<in> pages b (l * 9). block2ppn c \<notin> owned satp st')
     \<and> (\<forall>c \<in> pages b (l * 9). \<forall>a. drop_bit 12 a = block2ppn c \<longrightarrow> pmem st' a = 0)
     \<and> (\<forall>vpn' d e. leaf_at (pmem st') (root_of satp) vpn' d e \<longleftrightarrow>
          (if pre vpn' (4 - l) = pre vpn (4 - l) then d = 3 - l \<and> e = new_pte (v_flags vma) (block2ppn b)
           else leaf_at (pmem st) (root_of satp) vpn' d e))"

lemma map_backed_page:
  assumes inv: "pt_inv satp st" and area: "in_area vma vpn" and l: "l \<le> 3" "fits vma vpn l"
    and leaf: "bit (v_flags vma) 0 \<or> bit (v_flags vma) 3" and b: "backed l b st st1"
    and pg: "pg_pte page = new_pte (v_flags vma) (block2ppn b)" "pg_vpn page = vpn2prevpageboundary vpn l" "pg_level page = l"
  shows "\<exists>r st'. raw_pt_map_page satp page st1 = Some (r, st') \<and> pt_inv satp st' \<and> pt_grows satp st st'
    \<and> (r = 0 \<and> mapped_new satp vma vpn st st' l b \<or> r < 0 \<and> same_leaves (pmem st) (pmem st') (root_of satp))"
proof -
  obtain fr where fr: "buddy_inv fr" "b + 2 ^ (l * 9) \<le> NBLOCKS" "pages b (l * 9) \<subseteq> free_pages (frames st)"
    "free_pages fr = free_pages (frames st) - pages b (l * 9)" "allocated (frames st) b = None"
    "allocated fr = (allocated (frames st))(b := Some (l * 9, 1))"
    and st1: "st1 = st\<lparr>frames := fr, pmem := memset (pmem st) (ppn2phys (block2ppn b)) 0 (0x1000 * push_bit (l * 9) 1)\<rparr>"
    using b by (auto simp: backed_def)
  note A = pt_inv_alloc [OF inv fr st1]
  have binv: "buddy_inv (frames st)" and wf: "pt_wf (pmem st) (frames st) (root_of satp)"
    using inv by (auto simp: pt_inv_def)
  have "(0::nat) < 2 ^ (l * 9)" by simp
  then have bN: "b < NBLOCKS" using fr(2) by linarith
  let ?pte = "new_pte (v_flags vma) (block2ppn b)" and ?base = "vpn2prevpageboundary vpn l"
  have run: "raw_pt_map_page satp page st1 = pt_set_pte_leaf satp ?base ?pte (4 - l) st1"
    using l(1) pg by (simp add: raw_pt_map_page_def level2depth_def)
  obtain r st' where r: "pt_set_pte_leaf satp ?base ?pte (4 - l) st1 = Some (r, st')" "pt_inv satp st'" "pt_grows satp st1 st'"
    and o: "r = 0 \<and> (\<forall>vpn' d e. leaf_at (pmem st') (root_of satp) vpn' d e \<longleftrightarrow>
            (if pre vpn' (4 - l) = pre ?base (4 - l) then d = 4 - l - 1 \<and> e = ?pte
             else leaf_at (pmem st1) (root_of satp) vpn' d e))
      \<or> r < 0 \<and> same_leaves (pmem st1) (pmem st') (root_of satp)"
    using pt_set_pte_leaf_spec [OF A(1), of "4 - l" ?pte ?base] l(1) leaf new_pte_fields [of "v_flags vma" "block2ppn b"]
    by fastforce
  have grows: "pt_grows satp st st'" by (rule pt_grows_trans [OF A(3) r(3)])
  show ?thesis
  proof (cases "r = 0")
    case True
    have fresh: "block2ppn c \<notin> owned satp st1" if c: "c \<in> pages b (l * 9)" for c
    proof
      have cfree: "c \<in> free_pages (frames st)" "c \<notin> free_pages fr" using c fr(3,4) by auto
      assume "block2ppn c \<in> owned satp st1"
      then consider d vpn where "d < 4" "tab (pmem st1) (root_of satp) vpn d = Some (block2ppn c)"
        | c' where "c' \<in> free_pages fr" "block2ppn c = block2ppn c'"
        by (auto simp: owned_def pt_pages_def st1)
      then show False
      proof cases
        case 1
        then show ?thesis using A(4) [of d vpn] pt_wfD(1) [OF wf 1(1)] free_not_live [OF binv cfree(1)] by auto
      next
        case 2
        then show ?thesis
          using block2ppn_inj free_pages_bound [OF binv cfree(1)] free_pages_bound [OF fr(1) 2(1)] cfree(2) by auto
      qed
    qed
    have "pmem st' a = 0" if c: "c \<in> pages b (l * 9)" and a: "drop_bit 12 a = block2ppn c" for c a
    proof -
      have "pmem st' a = pmem st1 a" using r(3) a fresh [OF c] by (simp add: pt_grows_def)
      then show ?thesis using memset_region_inside [OF bN fr(2) c a] by (simp add: st1)
    qed
    moreover have "block2ppn c \<notin> owned satp st'" if "c \<in> pages b (l * 9)" for c
      using fresh [OF that] r(3) by (auto simp: pt_grows_def)
    moreover have "allocated (frames st') b = Some (l * 9, 1)"
      using r(3) fr(6) by (auto simp: pt_grows_def st1)
    moreover have "pre vpn' (4 - l) = pre ?base (4 - l) \<longleftrightarrow> pre vpn' (4 - l) = pre vpn (4 - l)" for vpn'
      using pre_prevboundary [OF l(1), of vpn] by simp
    ultimately have "mapped_new satp vma vpn st st' l b"
      using o True l fr(3) A(2) by (auto simp: mapped_new_def same_leaves_def)
    then show ?thesis using True run r grows by auto
  next
    case False
    then have "same_leaves (pmem st) (pmem st') (root_of satp)" "r < 0"
      using o same_leaves_trans [OF A(2)] by auto
    then show ?thesis using run r grows by auto
  qed
qed


lemma pt_vma_map_page_spec:
  assumes inv: "pt_inv satp st" and area: "in_area vma vpn" and id: "v_flags vma AND VMA_IDENTITY = 0"
    and leaf: "bit (v_flags vma) 0 \<or> bit (v_flags vma) 3"
  shows "\<exists>r st'. pt_vma_map_page_at_vpn satp vma vpn ppn st = Some (r, st') \<and> pt_inv satp st' \<and> pt_grows satp st st'
    \<and> ((\<exists>l b. r = int (512 ^ l - unat vpn mod 512 ^ l) \<and> mapped_new satp vma vpn st st' l b)
       \<or> r \<le> 0 \<and> (\<forall>vpn' d e. pre vpn' 4 \<noteq> 0 \<longrightarrow>
           leaf_at (pmem st') (root_of satp) vpn' d e = leaf_at (pmem st) (root_of satp) vpn' d e))"
proof -
  let ?z = "\<lparr>pg_vpn = 0, pg_level = 0, pg_ppn = 0, pg_pte = 0\<rparr>"
  have binv: "buddy_inv (frames st)" using inv by (simp add: pt_inv_def)
  have "fits vma vpn 0" using fits_nat [OF area, of 0] area by (auto simp: in_area_def)
  then obtain l where l: "fit_level vma vpn 3 = Some l" "l \<le> 3" "fits vma vpn l"
    using fit_level_spec [of vma vpn 3] by (cases "fit_level vma vpn 3") auto
  obtain ml where ml: "raw_pt_find_level_of_highest_empty_pte satp (vpn2prevpageboundary vpn l) st = Some ml" "ml \<le> 3"
    using find_level_spec by blast
  show ?thesis
  proof (cases "ml < 0")
    case True
    have new: "pt_vma_new_page_at_vpn satp vma vpn ppn ?z st = Some (ml, ?z, st)"
      using l(1) ml(1) True by (simp add: pt_vma_new_page_at_vpn_def)
    obtain r st' where r: "pt_set_pte_leaf satp 0 0 4 st = Some (r, st')" "pt_inv satp st'" "pt_grows satp st st'"
      and o: "r = 0 \<and> (\<forall>vpn' d e. leaf_at (pmem st') (root_of satp) vpn' d e \<longleftrightarrow>
          pre vpn' 4 \<noteq> pre 0 4 \<and> leaf_at (pmem st) (root_of satp) vpn' d e)
        \<or> r < 0 \<and> same_leaves (pmem st) (pmem st') (root_of satp)"
      using pt_set_pte_zero [OF inv, of 0] by blast
    have "pt_vma_map_page_at_vpn satp vma vpn ppn st = Some (if r \<noteq> 0 then r else ml, st')"
      using new True r(1) by (simp add: pt_vma_map_page_at_vpn_def raw_pt_map_page_def level2depth_def)
    moreover have "pre 0 4 = 0" by (simp add: pre_def)
    ultimately show ?thesis using r(2,3) o True by (auto simp: same_leaves_def)
  next
    case False
    define n where "n = (if int l > ml then nat ml else l)"
    have n: "n \<le> l" using False by (auto simp: n_def)
    have z: "pg_pte ?z = 0 \<or> pg_pte ?z = perms (v_flags vma)" by simp
    from back_level_spec [OF binv id z, of vpn ppn n] show ?thesis
    proof (elim disjE exE conjE)
      fix out assume "back_level vma vpn ppn n ?z st = Some (None, out, st)"
      then have "pt_vma_map_page_at_vpn satp vma vpn ppn st = Some (0, st)"
        using l(1) ml(1) False
        by (simp add: pt_vma_map_page_at_vpn_def pt_vma_new_page_at_vpn_def Let_def flip: n_def)
      then show ?thesis using inv by simp
    next
      fix k out b st1
      assume k: "back_level vma vpn ppn n ?z st = Some (Some k, out, st1)" "k \<le> n" "backed k b st st1"
        "pg_pte out = new_pte (v_flags vma) (block2ppn b)" "pg_vpn out = vpn2prevpageboundary vpn k" "pg_level out = k"
      have k3: "k \<le> 3" "fits vma vpn k" using k(2) n l fits_smaller [OF area l(3), of k] by auto
      define q where "q = int (512 ^ k - unat vpn mod 512 ^ k)"
      have "unat vpn mod 512 ^ k < 512 ^ k" by simp
      then have pos: "q > 0" unfolding q_def by linarith
      obtain r st' where r: "raw_pt_map_page satp out st1 = Some (r, st')" "pt_inv satp st'" "pt_grows satp st st'"
        and o: "r = 0 \<and> mapped_new satp vma vpn st st' k b \<or> r < 0 \<and> same_leaves (pmem st) (pmem st') (root_of satp)"
        using map_backed_page [OF inv area k3 leaf k(3-6)] by blast
      have "pt_vma_new_page_at_vpn satp vma vpn ppn ?z st = Some (q, out, st1)"
        using l(1) ml(1) False k(1) page_remaining [OF k3(1), of vpn]
        by (simp add: pt_vma_new_page_at_vpn_def Let_def flip: n_def q_def)
      then have "pt_vma_map_page_at_vpn satp vma vpn ppn st = Some (if r \<noteq> 0 then r else q, st')"
        using r(1) pos by (simp add: pt_vma_map_page_at_vpn_def)
      then show ?thesis using r(2,3) o q_def by (auto simp: same_leaves_def)
    qed
  qed
qed

end
