(* ===== verification/Tables.thy ===== *)
theory Tables
  imports Sv48
begin

text \<open>
  When a change of memory leaves the page tables of an address space alone, its invariant and the
  processor's translation stay the same.
\<close>

unbundle bit_operations_syntax

lemma option_eqI: "(\<And>q. x = Some q \<longleftrightarrow> y = Some q) \<Longrightarrow> x = y"
  by (cases x; cases y) auto

section \<open>Changes of memory that leave the tables alone\<close>

lemma entry_outside:
  assumes "unat q < 2 ^ 44" "unat i < 512" "\<And>a. drop_bit 12 a = q \<Longrightarrow> m' a = m a"
  shows "entry m' q i = entry m q i"
proof -
  have "m' (slot q i + of_nat k) = m (slot q i + of_nat k)" if "k < 8" for k
  proof -
    have a: "slot q i + of_nat k = ppn2phys q + of_nat (8 * unat i + k)" by (simp add: slot_def add.assoc mult.commute)
    have "drop_bit 12 (ppn2phys q + of_nat (8 * unat i + k)) = q"
      using assms(1,2) that by (intro page_of_offset) auto
    then show ?thesis unfolding a by (rule assms(3))
  qed
  then show ?thesis by (simp add: entry_def load64_def load_le_cong [of 8 m' _ m])
qed

definition tables_kept :: "mem \<Rightarrow> mem \<Rightarrow> u64 \<Rightarrow> bool" where
  "tables_kept m m' root \<longleftrightarrow> (\<forall>a. drop_bit 12 a \<in> pt_pages m root \<longrightarrow> m' a = m a)"

lemma tables_kept_tab:
  assumes "tables_kept m m' root" "unat root < 2 ^ 44"
  shows "d \<le> 4 \<Longrightarrow> tab m' root vpn d = tab m root vpn d" "d < 4 \<Longrightarrow> ent m' root vpn d = ent m root vpn d"
proof -
  have e: "entry m' q (idx vpn d) = entry m q (idx vpn d)" if t: "d < 4" "tab m root vpn d = Some q" for d q
  proof (rule entry_outside)
    show "unat q < 2 ^ 44" using tab_bound [OF assms(2) t(2)] .
    have "q \<in> pt_pages m root" using t by (auto simp: pt_pages_def)
    then show "m' a = m a" if "drop_bit 12 a = q" for a using assms(1) that by (auto simp: tables_kept_def)
  qed (simp add: unat_idx)
  show "d \<le> 4 \<Longrightarrow> tab m' root vpn d = tab m root vpn d" "d < 4 \<Longrightarrow> ent m' root vpn d = ent m root vpn d"
    using tab_frame [of m root vpn m' d] e by blast+
qed

lemma tables_kept_leaf:
  assumes "tables_kept m m' root" "unat root < 2 ^ 44"
  shows "leaf_at m' root vpn d e \<longleftrightarrow> leaf_at m root vpn d e"
  using tables_kept_tab(2) [OF assms] by (auto simp: leaf_at_def)

lemma tables_kept_wf:
  assumes k: "tables_kept m m' root" "unat root < 2 ^ 44" and wf: "pt_wf m fr root" "free_pages fr' \<subseteq> free_pages fr"
  shows "pt_wf m' fr' root"
proof (rule pt_wfI)
  note tab = tables_kept_tab [OF k]
  fix vpn d q assume "d < 4" "tab m' root vpn d = Some q"
  then show "live_page fr' q" using pt_wfD(1) [OF wf(1)] tab(1) live_page_mono [OF _ wf(2)] by simp
next
  fix vpn vpn' d d' q assume "d < 4" "d' < 4" "tab m' root vpn d = Some q" "tab m' root vpn' d' = Some q"
  then show "d = d' \<and> pre vpn d = pre vpn' d"
    using pt_wfD(2) [OF wf(1), of d vpn q d' vpn'] tables_kept_tab(1) [OF k] by simp
next
  fix vpn d x assume "d < 4" "ent m' root vpn d = Some x"
  then show "pte_ok d x" using pt_wfD(3) [OF wf(1)] tables_kept_tab(2) [OF k] by simp
qed

lemma translate_cong:
  assumes "pt_wf m fr (root_of satp)" "pt_wf m' fr' (root_of satp')"
    and "\<And>d e. leaf_at m' (root_of satp') vpn d e \<longleftrightarrow> leaf_at m (root_of satp) vpn d e"
  shows "sv48_translate m' satp' vpn = sv48_translate m satp vpn"
  using sv48_translate_leaf [OF assms(1), of vpn] sv48_translate_leaf [OF assms(2), of vpn] assms(3)
  by (intro option_eqI) simp

lemma tables_kept_translate:
  assumes "tables_kept m m' (root_of satp)" "pt_wf m fr (root_of satp)"
  shows "sv48_translate m' satp vpn = sv48_translate m satp vpn"
  by (rule translate_cong [OF assms(2) tables_kept_wf [OF assms(1) root_bound assms(2) order_refl]])
    (rule tables_kept_leaf [OF assms(1) root_bound])

lemma write_outside_kept:
  assumes "p \<notin> pt_pages m root" "\<And>a. drop_bit 12 a \<noteq> p \<Longrightarrow> m' a = m a"
  shows "tables_kept m m' root"
  unfolding tables_kept_def using assms by metis

lemma free_page_kept:
  assumes "pt_wf m fr root" "b \<in> free_pages fr" "buddy_inv fr" "\<And>a. drop_bit 12 a \<noteq> block2ppn b \<Longrightarrow> m' a = m a"
  shows "tables_kept m m' root"
proof (rule write_outside_kept [OF _ assms(4)])
  show "block2ppn b \<notin> pt_pages m root"
    using pt_wfD(1) [OF assms(1)] free_not_live [OF assms(3,2)] by (auto simp: pt_pages_def)
qed

section \<open>Address spaces that share the kernel's half\<close>

text \<open>The root and the tables for the lower half of an address space. The upper half belongs to the
  kernel, and all processes share its tables.\<close>

definition user_pages :: "mem \<Rightarrow> u64 \<Rightarrow> u64 set" where
  "user_pages m root = {p. \<exists>vpn d. d < 4 \<and> tab m root vpn d = Some p \<and> (d = 0 \<or> unat (idx vpn 0) < 256)}"

lemma user_pages_cong:
  assumes "\<And>v d. d < 4 \<Longrightarrow> tab m' root v d = tab m root v d"
  shows "user_pages m' root = user_pages m root"
  unfolding user_pages_def using assms by (intro Collect_cong ex_cong1) (rule conj_cong, simp_all)

lemma pt_pages_cong:
  assumes "\<And>v d. d < 4 \<Longrightarrow> tab m' root v d = tab m root v d"
  shows "pt_pages m' root = pt_pages m root"
  unfolding pt_pages_def using assms by (intro Collect_cong ex_cong1) (rule conj_cong, simp_all)

definition spaces_apart :: "mem \<Rightarrow> u64 \<Rightarrow> u64 \<Rightarrow> bool" where
  "spaces_apart m satp satp' \<longleftrightarrow> user_pages m (root_of satp) \<inter> pt_pages m (root_of satp') = {}"

end
