(* ===== verification/Vma_List.thy ===== *)
theory Vma_List
  imports Vma_Map Tables
begin

text \<open>
  The lists of areas: allocation of the structures (\<open>pt_salloc\<close>, \<open>pt_alloc_vma\<close>), the search
  for the area of a page (\<open>vpn2vma\<close>) and the migration of the kernel's list to the high half.
\<close>

unbundle bit_operations_syntax

section \<open>Searching\<close>

definition covers :: "pt \<Rightarrow> u64 \<Rightarrow> addr \<Rightarrow> bool" where
  "covers st vpn node \<longleftrightarrow> vm_vpn st (vma_of node) \<le> vpn
     \<and> vpn < vm_vpn st (vma_of node) + vm_pagen st (vma_of node)"

lemma vpn2vma_loop_spec:
  assumes "links (vm_nodes st) (xs @ [head])" "head \<notin> set xs"
  shows "vpn2vma_loop st head vpn (hd (xs @ [head])) =
    Some (case find (covers st vpn) xs of None \<Rightarrow> NULL | Some n \<Rightarrow> vma_of n)"
  using assms
proof (induction xs)
  case Nil
  then show ?case by (subst vpn2vma_loop.simps) simp
next
  case (Cons n xs)
  have nx: "nnext (vm_nodes st) n = hd (xs @ [head])" "links (vm_nodes st) (xs @ [head])"
    using Cons.prems(1) by (cases xs; simp)+
  have "n \<noteq> head" using Cons.prems(2) by auto
  then show ?case
    using Cons.IH nx Cons.prems(2) by (subst vpn2vma_loop.simps) (auto simp: covers_def [of st vpn n] Let_def)
qed

lemma vpn2vma_find:
  assumes "dlist (vm_nodes st) head xs"
  shows "vpn2vma head vpn st = Some (case find (covers st vpn) xs of None \<Rightarrow> NULL | Some n \<Rightarrow> vma_of n)"
proof -
  have l: "links (vm_nodes st) (head # xs @ [head])" "head \<notin> set xs" using assms by (auto simp: dlist_def)
  then have "nnext (vm_nodes st) head = hd (xs @ [head])" "links (vm_nodes st) (xs @ [head])"
    by (cases xs; simp)+
  then show ?thesis using vpn2vma_loop_spec [of st xs head vpn] l(2) by (simp add: vpn2vma_def)
qed

section \<open>The cursor allocator\<close>

definition salloc_inv :: "pt \<Rightarrow> bool" where
  "salloc_inv st \<longleftrightarrow> buddy_inv (frames st)
     \<and> (if salloc_base st = 0 then salloc_cursor st = 0
        else unat (salloc_cursor st) \<le> 4096
          \<and> (\<exists>b r. allocated (frames st) b = Some (0, r) \<and> salloc_base st = ppn2phys (block2ppn b)))"

lemma level2size_normal [simp]: "level2size 0 = 0x1000"
  by (simp add: level2size_def level2pagen_def)

lemma block_base_bound:
  "b < NBLOCKS \<Longrightarrow> unat (ppn2phys (block2ppn b)) = 4096 * (0x80000 + b)"
  using block2ppn_unat [of b] by (simp add: ppn2phys_def unat_push_bit_64)

lemma kvirt_nonzero:
  assumes "0 < unat x" "unat x < 2 ^ 47"
  shows "phys2kvirt st x \<noteq> 0"
proof (cases "is_paging_enabled st")
  case True
  have "unat VIRT_MEM_KERNEL_BASE = 0xffff800000000000" by (simp add: VIRT_MEM_KERNEL_BASE_def)
  then have "unat (VIRT_MEM_KERNEL_BASE + x) = 0xffff800000000000 + unat x"
    using assms(2) by (subst unat_add_64) auto
  then show ?thesis using True by (auto simp: phys2kvirt_def u64_eq_iff)
next
  case False
  then show ?thesis using assms(1) by (auto simp: phys2kvirt_def)
qed

text \<open>
  A successful call returns \<open>sz\<close> bytes at \<open>off\<close> in the current page, either behind everything
  handed out from that page so far or at the start of a cleared page that was free. Nothing else
  of the state changes.
\<close>

definition salloc_rest :: "pt \<Rightarrow> pt \<Rightarrow> bool" where
  "salloc_rest st st' \<longleftrightarrow> ksatp st' = ksatp st \<and> vm_nodes st' = vm_nodes st \<and> vm_vpn st' = vm_vpn st
     \<and> vm_pagen st' = vm_pagen st \<and> vm_flags st' = vm_flags st \<and> kvmas_head st' = kvmas_head st \<and> layout st' = layout st
     \<and> csr_satp st' = csr_satp st \<and> csr_sstatus st' = csr_sstatus st \<and> console st' = console st"

definition salloc_ok :: "u64 \<Rightarrow> pt \<Rightarrow> u64 \<Rightarrow> pt \<Rightarrow> bool" where
  "salloc_ok sz st p st' \<longleftrightarrow> salloc_inv st' \<and> p \<noteq> NULL \<and> salloc_rest st st'
     \<and> (\<exists>off. p = phys2kvirt st (salloc_base st' + off) \<and> unat off + unat sz \<le> 4096 \<and> salloc_cursor st' = off + sz
         \<and> (salloc_base st' = salloc_base st \<and> off = salloc_cursor st \<and> frames st' = frames st \<and> pmem st' = pmem st
            \<or> off = 0 \<and> (\<exists>b \<in> free_pages (frames st). salloc_base st' = ppn2phys (block2ppn b)
                \<and> free_pages (frames st') = free_pages (frames st) - {b} \<and> allocated (frames st') = (allocated (frames st))(b := Some (0, 1))
                \<and> pmem st' = memset (pmem st) (ppn2phys (block2ppn b)) 0 0x1000)))"

lemma salloc_ok_base:
  assumes "salloc_ok sz st p st'" "0 < sz"
  shows "salloc_base st' \<noteq> 0"
proof
  assume z: "salloc_base st' = 0"
  obtain off where off: "unat off + unat sz \<le> 4096" "salloc_cursor st' = off + sz" and inv: "salloc_inv st'"
    using assms(1) unfolding salloc_ok_def by blast
  have "unat (off + sz) = unat off + unat sz" using off(1) by (subst unat_add_64) auto
  moreover have "unat sz > 0" using assms(2) by (simp add: word_less_nat_alt)
  moreover have "off + sz = 0" using inv z off(2) by (simp add: salloc_inv_def)
  ultimately show False by simp
qed

lemma salloc_fresh:
  assumes inv: "buddy_inv (frames st)" and z: "salloc_base st = 0" "salloc_cursor st = 0"
    and sz: "0 < sz" "unat sz \<le> 4096"
  shows "(\<exists>p st'. pt_salloc sz st = Some (p, st') \<and> salloc_ok sz st p st')
    \<or> (pt_salloc sz st = Some (NULL, st) \<and> free_pages (frames st) = {})"
proof -
  have nsz: "sz \<noteq> 0" "\<not> sz > 0x1000" using sz by (auto simp: word_less_nat_alt)
  from pt_alloc_page [OF inv] show ?thesis
  proof (elim disjE exE conjE)
    assume n: "pt_alloc 0 st = Some (0, st)" "free_pages (frames st) = {}"
    then have "pt_salloc sz st = Some (NULL, st)"
      using nsz z by (subst pt_salloc.simps) simp
    then show ?thesis using n(2) by blast
  next
    fix b fr
    let ?base = "ppn2phys (block2ppn b)"
    assume b: "b \<in> free_pages (frames st)" "buddy_inv fr" "free_pages fr = free_pages (frames st) - {b}"
      "allocated fr = (allocated (frames st))(b := Some (0, 1))"
      and run: "pt_alloc 0 st = Some (?base, st\<lparr>frames := fr, pmem := memset (pmem st) ?base 0 0x1000\<rparr>)"
    have bN: "b < NBLOCKS" by (rule free_pages_bound [OF inv b(1)])
    then have ub: "unat ?base = 4096 * (0x80000 + b)" by (rule block_base_bound)
    then have nz: "?base \<noteq> 0" by (auto simp: u64_eq_iff)
    define st' where "st' = st\<lparr>frames := fr, pmem := memset (pmem st) ?base 0 0x1000, salloc_base := ?base, salloc_cursor := sz\<rparr>"
    have p: "phys2kvirt (st\<lparr>frames := fr, pmem := m, salloc_base := c\<rparr>) x = phys2kvirt st x" for m c x
      by (simp add: phys2kvirt_def is_paging_enabled_def)
    have "pt_salloc sz st = Some (phys2kvirt st ?base, st')"
      using nsz z run nz by (subst pt_salloc.simps) (simp add: st'_def p)
    moreover have "phys2kvirt st ?base \<noteq> 0" using ub bN by (intro kvirt_nonzero) auto
    then have "salloc_ok sz st (phys2kvirt st ?base) st'"
      using b sz nz by (auto simp: salloc_ok_def salloc_rest_def salloc_inv_def st'_def)
    ultimately show ?thesis by blast
  qed
qed

lemma pt_salloc_spec:
  assumes inv: "salloc_inv st" and sz: "0 < sz" "unat sz \<le> 4096"
  shows "(\<exists>p st'. pt_salloc sz st = Some (p, st') \<and> salloc_ok sz st p st')
    \<or> (\<exists>st'. pt_salloc sz st = Some (NULL, st') \<and> salloc_inv st' \<and> salloc_rest st st' \<and> salloc_base st' = 0
         \<and> frames st' = frames st \<and> pmem st' = pmem st \<and> free_pages (frames st) = {})"
proof (cases "salloc_base st = 0")
  case True
  then show ?thesis using salloc_fresh [of st sz] inv sz by (auto simp: salloc_inv_def salloc_rest_def)
next
  case False
  then obtain b r where b: "allocated (frames st) b = Some (0, r)" "salloc_base st = ppn2phys (block2ppn b)"
    and binv: "buddy_inv (frames st)" and cur: "unat (salloc_cursor st) \<le> 4096"
    using inv by (auto simp: salloc_inv_def)
  have nsz: "sz \<noteq> 0" "\<not> sz > 0x1000" using sz by (auto simp: word_less_nat_alt)
  have bN: "b < NBLOCKS" using allocatedD(1) [OF binv b(1)] .
  have sum: "unat (salloc_cursor st + sz) = unat (salloc_cursor st) + unat sz"
    using cur sz(2) by (subst unat_add_64) auto
  show ?thesis
  proof (cases "salloc_cursor st + sz > 0x1000")
    case True
    let ?st = "st\<lparr>salloc_base := 0, salloc_cursor := 0\<rparr>"
    have run: "pt_salloc sz st = pt_salloc sz ?st"
      using nsz False True by (subst pt_salloc.simps) simp
    have same: "salloc_ok sz ?st p st' \<Longrightarrow> salloc_ok sz st p st'" for p st'
    proof -
      assume ok: "salloc_ok sz ?st p st'"
      have k: "phys2kvirt ?st = phys2kvirt st"
        by (simp add: phys2kvirt_def is_paging_enabled_def fun_eq_iff)
      have "salloc_base st' \<noteq> 0"
        by (rule salloc_ok_base [OF ok sz(1)])
      then show ?thesis using ok unfolding salloc_ok_def salloc_rest_def k by auto
    qed
    have "(\<exists>p st'. pt_salloc sz ?st = Some (p, st') \<and> salloc_ok sz ?st p st')
        \<or> (pt_salloc sz ?st = Some (NULL, ?st) \<and> free_pages (frames ?st) = {})"
      using binv sz by (intro salloc_fresh) simp_all
    then show ?thesis
    proof (elim disjE exE conjE)
      fix p st' assume "pt_salloc sz ?st = Some (p, st')" "salloc_ok sz ?st p st'"
      then show ?thesis using same run by auto
    next
      assume "pt_salloc sz ?st = Some (NULL, ?st)" "free_pages (frames ?st) = {}"
      moreover have "salloc_inv ?st" "salloc_rest st ?st" using binv by (simp_all add: salloc_inv_def salloc_rest_def)
      ultimately show ?thesis using run by auto
    qed
  next
    case fits: False
    define st' where "st' = st\<lparr>salloc_cursor := salloc_cursor st + sz\<rparr>"
    let ?p = "phys2kvirt st (salloc_base st + salloc_cursor st)"
    have le: "unat (salloc_cursor st) + unat sz \<le> 4096" using fits sum by (simp add: word_less_nat_alt)
    have run: "pt_salloc sz st = Some (?p, st')"
      using nsz False fits by (subst pt_salloc.simps) (simp add: st'_def)
    have "unat (salloc_base st + salloc_cursor st) = 4096 * (0x80000 + b) + unat (salloc_cursor st)"
      using b(2) block_base_bound [OF bN] cur bN by (subst unat_add_64) auto
    then have "?p \<noteq> 0" using cur bN by (intro kvirt_nonzero) auto
    then have "salloc_ok sz st ?p st'"
      using inv False le sum by (auto simp: salloc_ok_def salloc_rest_def salloc_inv_def st'_def)
    then show ?thesis using run by blast
  qed
qed

end
