(* ===== verification/Regions.thy ===== *)
theory Regions
  imports Vma_List
begin

text \<open>
  The regions of \<open>pt_salloc\<close>: what it handed out stays reserved, and no two regions overlap. Taking a
  region changes no page table.
\<close>

unbundle bit_operations_syntax

section \<open>Steps that change no page table\<close>

text \<open>\<open>quiet st st'\<close>: every address space that was well-formed is, with the same tables and the same
  translation; pages are only taken from the allocator, and memory changes only where it was free.\<close>

definition quiet :: "pt \<Rightarrow> pt \<Rightarrow> bool" where
  "quiet st st' \<longleftrightarrow> ksatp st' = ksatp st \<and> free_pages (frames st') \<subseteq> free_pages (frames st)
     \<and> (\<forall>a. drop_bit 12 a \<notin> block2ppn ` free_pages (frames st) \<longrightarrow> pmem st' a = pmem st a)
     \<and> (\<forall>satp. pt_inv satp st \<longrightarrow> pt_inv satp st'
          \<and> (\<forall>vpn d. d < 4 \<longrightarrow> tab (pmem st') (root_of satp) vpn d = tab (pmem st) (root_of satp) vpn d
               \<and> ent (pmem st') (root_of satp) vpn d = ent (pmem st) (root_of satp) vpn d)
          \<and> (\<forall>vpn. sv48_translate (pmem st') satp vpn = sv48_translate (pmem st) satp vpn))"

lemma quiet_refl: "quiet st st"
  by (simp add: quiet_def)

lemma quiet_trans:
  assumes "quiet st st'" "quiet st' st''"
  shows "quiet st st''"
proof -
  have "pmem st'' a = pmem st a" if "drop_bit 12 a \<notin> block2ppn ` free_pages (frames st)" for a
  proof -
    have "drop_bit 12 a \<notin> block2ppn ` free_pages (frames st')" using that assms(1) unfolding quiet_def by blast
    then show ?thesis using that assms unfolding quiet_def by simp
  qed
  then show ?thesis using assms unfolding quiet_def by auto
qed

lemma quiet_apart:
  assumes "quiet st st'" "pt_inv satp st" "pt_inv satp' st"
  shows "spaces_apart (pmem st') satp satp' = spaces_apart (pmem st) satp satp'"
proof -
  have "tab (pmem st') (root_of s) v d = tab (pmem st) (root_of s) v d" if "pt_inv s st" "d < 4" for s v d
    using assms(1) that by (simp add: quiet_def)
  then show ?thesis
    using user_pages_cong [of "pmem st'" "root_of satp" "pmem st"] pt_pages_cong [of "pmem st'" "root_of satp'" "pmem st"] assms(2,3)
    by (simp add: spaces_apart_def)
qed

lemma quiet_same: "ksatp st' = ksatp st \<Longrightarrow> frames st' = frames st \<Longrightarrow> pmem st' = pmem st \<Longrightarrow> quiet st st'"
  by (simp add: quiet_def pt_inv_def)

text \<open>Using a free page for something other than a page table.\<close>

lemma quiet_take:
  assumes "buddy_inv (frames st)" "buddy_inv (frames st')" "b \<in> free_pages (frames st)"
    and "free_pages (frames st') \<subseteq> free_pages (frames st)" "ksatp st' = ksatp st"
    and "\<And>a. drop_bit 12 a \<noteq> block2ppn b \<Longrightarrow> pmem st' a = pmem st a"
  shows "quiet st st'"
proof -
  have "pt_inv satp st' \<and> (\<forall>vpn d. d < 4 \<longrightarrow> tab (pmem st') (root_of satp) vpn d = tab (pmem st) (root_of satp) vpn d
          \<and> ent (pmem st') (root_of satp) vpn d = ent (pmem st) (root_of satp) vpn d)
      \<and> (\<forall>vpn. sv48_translate (pmem st') satp vpn = sv48_translate (pmem st) satp vpn)" if "pt_inv satp st" for satp
  proof -
    have wf: "pt_wf (pmem st) (frames st) (root_of satp)" using that by (simp add: pt_inv_def)
    have k: "tables_kept (pmem st) (pmem st') (root_of satp)" by (rule free_page_kept [OF wf assms(3,1,6)])
    show ?thesis
      using tables_kept_wf [OF k root_bound wf assms(4)] tables_kept_translate [OF k wf] tables_kept_tab [OF k root_bound] assms(2)
      by (simp add: pt_inv_def)
  qed
  moreover have "pmem st' a = pmem st a" if "drop_bit 12 a \<notin> block2ppn ` free_pages (frames st)" for a
    using assms(3,6) that by blast
  ultimately show ?thesis using assms(4,5) by (simp add: quiet_def)
qed

lemma salloc_quiet:
  assumes "salloc_ok sz st p st'" "buddy_inv (frames st)"
  shows "quiet st st'"
proof -
  have binv: "buddy_inv (frames st')" and r: "ksatp st' = ksatp st" using assms(1) by (auto simp: salloc_ok_def salloc_inv_def salloc_rest_def)
  consider "frames st' = frames st" "pmem st' = pmem st"
    | b where "b \<in> free_pages (frames st)" "free_pages (frames st') = free_pages (frames st) - {b}"
        "pmem st' = memset (pmem st) (ppn2phys (block2ppn b)) 0 0x1000"
    using assms(1) by (auto simp: salloc_ok_def)
  then show ?thesis
  proof cases
    case 1
    then show ?thesis using r by (intro quiet_same)
  next
    case 2
    have b: "unat (block2ppn b) < 2 ^ 44" using block2ppn_unat free_pages_bound [OF assms(2) 2(1)] by simp
    show ?thesis
      by (rule quiet_take [OF assms(2) binv 2(1) _ r]) (use 2(2,3) memset_outside [OF b] in auto)
  qed
qed

section \<open>Regions do not overlap\<close>

definition handed :: "pt \<Rightarrow> addr \<Rightarrow> u64 \<Rightarrow> bool" where
  "handed st p sz \<longleftrightarrow> (\<exists>b off. b < NBLOCKS \<and> b \<notin> free_pages (frames st) \<and> p = phys2kvirt st (ppn2phys (block2ppn b) + off)
     \<and> unat off + unat sz \<le> 4096
     \<and> (salloc_base st = ppn2phys (block2ppn b) \<longrightarrow> unat off + unat sz \<le> unat (salloc_cursor st)))"

definition apart :: "addr \<Rightarrow> u64 \<Rightarrow> addr \<Rightarrow> u64 \<Rightarrow> bool" where
  "apart p n q m \<longleftrightarrow> (\<forall>i < n. \<forall>j < m. p + i \<noteq> q + j)"

lemma block_addr_inj:
  assumes "b < NBLOCKS" "c < NBLOCKS" "x < 4096" "y < 4096"
    and "ppn2phys (block2ppn b) + of_nat x = ppn2phys (block2ppn c) + of_nat y"
  shows "b = c \<and> x = y"
proof -
  have "unat (ppn2phys (block2ppn b) + of_nat x) = 4096 * (0x80000 + b) + x" "unat (ppn2phys (block2ppn c) + of_nat y) = 4096 * (0x80000 + c) + y"
    using unat_page_offset [of "block2ppn b" x] unat_page_offset [of "block2ppn c" y] assms(1-4) by (simp_all add: block2ppn_unat)
  then have "4096 * (0x80000 + b) + x = 4096 * (0x80000 + c) + y" using assms(5) by metis
  from page_offset_unique [OF this assms(3,4)] show ?thesis by simp
qed

lemma region_apart:
  assumes "b < NBLOCKS" "c < NBLOCKS" "unat o1 + unat n \<le> 4096" "unat o2 + unat m \<le> 4096"
    and "b = c \<Longrightarrow> unat o1 + unat n \<le> unat o2"
  shows "apart (phys2kvirt st (ppn2phys (block2ppn b) + o1)) n (phys2kvirt st (ppn2phys (block2ppn c) + o2)) m"
  unfolding apart_def
proof (intro allI impI notI)
  fix i j assume ij: "i < n" "j < m"
    and e: "phys2kvirt st (ppn2phys (block2ppn b) + o1) + i = phys2kvirt st (ppn2phys (block2ppn c) + o2) + j"
  have "ppn2phys (block2ppn b) + of_nat (unat o1 + unat i) = ppn2phys (block2ppn c) + of_nat (unat o2 + unat j)"
    using e by (simp add: phys2kvirt_def add.assoc)
  moreover have "unat i < unat n" "unat j < unat m" using ij by (simp_all add: word_less_nat_alt)
  ultimately have "b = c \<and> unat o1 + unat i = unat o2 + unat j" using assms(3,4) by (intro block_addr_inj [OF assms(1,2)]) auto
  then show False using assms(5) ij by (auto simp: word_less_nat_alt)
qed

lemma salloc_handed:
  assumes ok: "salloc_ok sz st p st'" and binv: "buddy_inv (frames st)" and sz: "0 < sz"
  shows "handed st' p sz"
    and "handed st q n \<Longrightarrow> handed st' q n \<and> apart q n p sz"
proof -
  have k: "phys2kvirt st' = phys2kvirt st" using ok
    by (simp add: salloc_ok_def salloc_rest_def phys2kvirt_def is_paging_enabled_def fun_eq_iff)
  obtain off where off: "p = phys2kvirt st (salloc_base st' + off)" "unat off + unat sz \<le> 4096" "salloc_cursor st' = off + sz"
    and o: "salloc_base st' = salloc_base st \<and> off = salloc_cursor st \<and> frames st' = frames st
      \<or> off = 0 \<and> (\<exists>b \<in> free_pages (frames st). salloc_base st' = ppn2phys (block2ppn b)
         \<and> free_pages (frames st') = free_pages (frames st) - {b})"
    using ok unfolding salloc_ok_def by blast
  have binv': "buddy_inv (frames st')" using ok by (simp add: salloc_ok_def salloc_inv_def)
  obtain b r where b: "salloc_base st' = ppn2phys (block2ppn b)" "allocated (frames st') b = Some (0, r)"
    using ok salloc_ok_base [OF ok sz] by (auto simp: salloc_ok_def salloc_inv_def)
  have bN: "b < NBLOCKS" "b \<notin> free_pages (frames st')"
    using allocatedD(1) [OF binv' b(2)] ba.live_not_free [OF binv' b(2)] by (auto simp: pages_def)
  have cur: "unat (off + sz) = unat off + unat sz" using off(2) by (subst unat_add_64) auto
  show "handed st' p sz"
    unfolding handed_def using bN off b(1) cur k by (intro exI [of _ b] exI [of _ off]) simp
  assume h: "handed st q n"
  then obtain c off' where c: "c < NBLOCKS" "c \<notin> free_pages (frames st)" "q = phys2kvirt st (ppn2phys (block2ppn c) + off')"
    "unat off' + unat n \<le> 4096" "salloc_base st = ppn2phys (block2ppn c) \<Longrightarrow> unat off' + unat n \<le> unat (salloc_cursor st)"
    by (auto simp: handed_def)
  have inj: "ppn2phys (block2ppn b) = ppn2phys (block2ppn c) \<Longrightarrow> b = c"
    using block_addr_inj [OF bN(1) c(1), of 0 0] by simp
  have eq: "unat off' + unat n \<le> unat off" if "b = c"
  proof -
    have "b \<notin> free_pages (frames st)" using c(2) that by simp
    moreover have "b \<in> free_pages (frames st)" if "salloc_base st' = ppn2phys (block2ppn x)" "x \<in> free_pages (frames st)" for x
      using that b(1) block_addr_inj [OF bN(1) free_pages_bound [OF binv that(2)], of 0 0] by simp
    ultimately show ?thesis using o b(1) c(5) that by auto
  qed
  have "c \<notin> free_pages (frames st')" using o c(2) by auto
  moreover have "unat off' + unat n \<le> unat (salloc_cursor st')" if "salloc_base st' = ppn2phys (block2ppn c)"
    using eq that b(1) inj off(3) cur by auto
  ultimately have "handed st' q n"
    unfolding handed_def using c k by (intro exI [of _ c] exI [of _ off']) simp
  moreover have "apart q n p sz" unfolding c(3) off(1) b(1)
    by (rule region_apart [OF c(1) bN(1) c(4) off(2)]) (use eq in blast)
  ultimately show "handed st' q n \<and> apart q n p sz" by blast
qed

end
