(* ===== verification/Vma_Room.thy ===== *)
theory Vma_Room
  imports Vma_Map
begin

text \<open>
  When mapping a page of an area succeeds: the place in the tables is unused, and the allocator has pages for
  the page and for three tables.
\<close>

unbundle bit_operations_syntax

section \<open>An unused place\<close>

text \<open>
  \<open>unused m root vpn l\<close>: \<open>vpn\<close> is not mapped, and no table belongs to the page of level \<open>l\<close> around it.
\<close>

definition unused :: "mem \<Rightarrow> u64 \<Rightarrow> u64 \<Rightarrow> nat \<Rightarrow> bool" where
  "unused m root vpn l \<longleftrightarrow> (\<forall>d x. \<not> leaf_at m root vpn d x)
     \<and> (ent m root vpn (3 - l) = None \<or> ent m root vpn (3 - l) = Some 0)"

lemma highest_empty_first:
  assumes "length ptes = 5" "d \<le> j" "j < 5" "ptes ! j = 0" "1 \<le> d"
  shows "\<exists>r. highest_empty_loop d ptes = Some (int r) \<and> 4 - j \<le> r"
  using assms
proof (induction d ptes rule: highest_empty_loop.induct)
  case (1 d ptes)
  show ?case
  proof (cases "ptes ! d = 0")
    case True
    then show ?thesis using "1.prems"
      by (subst highest_empty_loop.simps) (auto simp: level2depth_def intro!: exI [of _ "4 - d"])
  next
    case False
    then have "d \<noteq> j" using "1.prems"(4) by auto
    then have "\<exists>r. highest_empty_loop (d + 1) ptes = Some (int r) \<and> 4 - j \<le> r"
      using False "1.prems" by (intro "1.IH") (auto simp: ensure_def)
    then show ?thesis using False "1.prems" by (subst highest_empty_loop.simps) simp
  qed
qed

lemma find_level_empty:
  assumes "\<And>d x. \<not> leaf_at (pmem st) (root_of satp) vpn d x" "l \<le> 3"
    and "ent (pmem st) (root_of satp) vpn (3 - l) = None \<or> ent (pmem st) (root_of satp) vpn (3 - l) = Some 0"
  shows "\<exists>r. raw_pt_find_level_of_highest_empty_pte satp vpn st = Some (int r) \<and> l \<le> r"
proof -
  let ?a = "walk_array (pmem st) satp vpn"
  have s: "satp2pte satp \<noteq> 0" using satp2pte_valid(1) [of satp] by (auto simp: pte_is_valid_bit)
  have four: "Suc (3 - l) = 4 - l" using assms(2) by simp
  have z: "?a ! (4 - l) = 0" using assms(2,3) walk_array_nth(2) [of "3 - l" "pmem st" satp vpn] unfolding four by auto
  then obtain r where r: "highest_empty_loop 1 ?a = Some (int r)" "4 - (4 - l) \<le> r"
    using highest_empty_first [OF walk_array_nth(3) _ _ z, of 1] assms(2) by force
  have "highest_empty_loop 0 ?a = highest_empty_loop 1 ?a"
    using s walk_array_nth(1,3) [of "pmem st" satp vpn] by (subst highest_empty_loop.simps) simp
  then show ?thesis using pt_get_pte_spec [of st satp vpn] assms(1,2) r
    by (auto simp: raw_pt_find_level_of_highest_empty_pte_def)
qed

lemma unused_level:
  assumes "unused (pmem st) (root_of satp) vpn l" "l \<le> 3"
  shows "\<exists>r. raw_pt_find_level_of_highest_empty_pte satp vpn st = Some (int r) \<and> l \<le> r"
  using assms by (intro find_level_empty) (simp_all add: unused_def)

text \<open>The place is the same for the start of the page of that level; smaller pages inside it are unused, too.\<close>

lemma unused_tab:
  assumes "unused m root vpn l" "l \<le> 3" "4 - l \<le> d" "d \<le> 4"
  shows "tab m root vpn d = None"
proof (rule ccontr)
  assume "tab m root vpn d \<noteq> None"
  then obtain p where "tab m root vpn d = Some p" by auto
  from tab_prefix [OF this, of "3 - l"] assms have "\<exists>e. ent m root vpn (3 - l) = Some e \<and> is_table e" by auto
  then show False using assms(1) by (auto simp: unused_def is_table_def pte_is_valid_bit)
qed

lemma unused_cong:
  assumes "unused m root vpn l" "l \<le> 3" "pre vpn' (4 - l) = pre vpn (4 - l)"
  shows "unused m root vpn' l"
proof -
  have l: "Suc (3 - l) = 4 - l" using assms(2) by simp
  have e: "ent m root vpn' d = ent m root vpn d" if "d \<le> 3 - l" for d
    using that assms(2,3) pre_mono [of "Suc d" "4 - l" vpn' vpn] by (intro ent_cong) auto
  have "\<not> leaf_at m root vpn' d x" for d x
  proof (cases "d \<le> 3 - l")
    case True
    then show ?thesis using assms(1) e [OF True] by (simp add: unused_def leaf_at_def)
  next
    case False
    have "tab m root vpn' d = None" if "d < 4"
    proof -
      have t: "tab m root vpn' (4 - l) = None"
        using unused_tab [OF assms(1,2), of "4 - l"] tab_cong [of "4 - l" vpn' vpn m root] assms(3) by simp
      show ?thesis
      proof (rule ccontr)
        assume "tab m root vpn' d \<noteq> None"
        then obtain p where "tab m root vpn' d = Some p" by auto
        from tab_prefix [OF this, of "3 - l"] False have "\<exists>x. ent m root vpn' (3 - l) = Some x \<and> is_table x" by auto
        then show False using e [of "3 - l"] assms(1) by (auto simp: unused_def is_table_def pte_is_valid_bit)
      qed
    qed
    then show ?thesis by (auto simp: leaf_at_def ent_def)
  qed
  then show ?thesis using assms(1) e [of "3 - l"] by (simp add: unused_def)
qed

section \<open>Room in the allocator\<close>

lemma needs_pte_room:
  assumes "buddy_inv (frames st)" "free_pages (frames st) \<noteq> {}" "v_flags vma AND VMA_IDENTITY = 0" "pg_level out = 0"
  shows "\<exists>out' st1. raw_pt_page_needs_pte vma ppn out st = Some (0, out', st1)"
proof -
  obtain b st1 where b: "b \<in> free_pages (frames st)" "pt_alloc 0 st = Some (ppn2phys (block2ppn b), st1)"
    using pt_alloc_page [OF assms(1)] assms(2) by blast
  have bN: "b < NBLOCKS" using free_pages_bound [OF assms(1) b(1)] .
  then have "phys2ppn_pt (ppn2phys (block2ppn b)) \<noteq> 0"
    using block2ppn_unat [OF bN] by (auto simp: phys2ppn_ppn2phys u64_eq_iff)
  moreover have "pg_level (raw_pt_page_pte_set_perm out (v_flags vma)) = 0" using assms(4) by simp
  ultimately show ?thesis using b(2) assms(3) by (auto simp: raw_pt_page_needs_pte_def Let_def)
qed

lemma back_level_room:
  assumes "buddy_inv (frames st)" "free_pages (frames st) \<noteq> {}" "v_flags vma AND VMA_IDENTITY = 0"
    and "pg_pte out = 0 \<or> pg_pte out = perms (v_flags vma)"
  shows "\<exists>k out' st1. back_level vma vpn ppn l out st = Some (Some k, out', st1)"
  using assms(4)
proof (induction l arbitrary: out)
  case 0
  let ?out = "out\<lparr>pg_vpn := vpn2prevpageboundary vpn 0, pg_level := 0\<rparr>"
  obtain out' st1 where "raw_pt_page_needs_pte vma ppn ?out st = Some (0, out', st1)"
    using needs_pte_room [OF assms(1-3), of ?out ppn] by auto
  then have "back_level vma vpn ppn 0 out st = Some (Some 0, out', st1)"
    by (subst back_level.simps) (simp add: pt_vma_new_page_at_vpn_of_level_def)
  then show ?case by blast
next
  case (Suc l)
  let ?out = "out\<lparr>pg_vpn := vpn2prevpageboundary vpn (Suc l), pg_level := Suc l\<rparr>"
  have "pg_pte ?out = 0 \<or> pg_pte ?out = perms (v_flags vma)" using Suc.prems by simp
  from needs_pte_spec [OF assms(1,3) this, of ppn] show ?case
  proof (elim disjE exE conjE)
    fix out' assume o: "raw_pt_page_needs_pte vma ppn ?out st = Some (- ENORESOURCES, out', st)" "pg_pte out' = perms (v_flags vma)"
    then have "back_level vma vpn ppn (Suc l) out st = back_level vma vpn ppn l out' st"
      by (subst back_level.simps) (simp add: pt_vma_new_page_at_vpn_of_level_def)
    then show ?thesis using Suc.IH [of out'] o(2) by simp
  next
    fix out' b st1
    assume "raw_pt_page_needs_pte vma ppn ?out st = Some (0, out', st1)"
    then have "back_level vma vpn ppn (Suc l) out st = Some (Some (Suc l), out', st1)"
      by (subst back_level.simps) (simp add: pt_vma_new_page_at_vpn_of_level_def)
    then show ?thesis by blast
  qed
qed

text \<open>A walk takes at most three pages for tables.\<close>

lemma extends_takes:
  assumes "pt_extends satp vpn st st'" "buddy_inv (frames st)"
  shows "card (free_pages (frames st) - free_pages (frames st')) \<le> 3"
proof -
  let ?t = "free_pages (frames st) - free_pages (frames st')"
  have "\<forall>b \<in> ?t. \<exists>d. d \<in> {1..3} \<and> tab (pmem st') (root_of satp) vpn d = Some (block2ppn b)"
    using assms(1) unfolding pt_extends_def by blast
  then obtain f where f: "\<forall>b \<in> ?t. f b \<in> {1..3} \<and> tab (pmem st') (root_of satp) vpn (f b) = Some (block2ppn b)"
    by (rule bchoice [THEN exE])
  have "inj_on f ?t"
  proof (rule inj_onI)
    fix b c assume bc: "b \<in> ?t" "c \<in> ?t" "f b = f c"
    then have "block2ppn b = block2ppn c" using f by (metis option.inject)
    then show "b = c" using block2ppn_inj free_pages_bound [OF assms(2)] bc by blast
  qed
  moreover have "f ` ?t \<subseteq> {1..3}" using f by blast
  ultimately have "card ?t \<le> card {1..3::nat}" by (metis card_image card_mono finite_atLeastAtMost)
  then show ?thesis by simp
qed

text \<open>The pages needed when the area has room for a page of level \<open>l\<close> around the address.\<close>

definition pages_needed :: "nat \<Rightarrow> nat" where
  "pages_needed l = (if l = 0 then 5 else 516)"

text \<open>
  \<open>has_room satp vma vpn st\<close>: the page to be mapped, whose size is the largest that fits into the area
  around \<open>vpn\<close>, is unused, and the allocator has the pages for it.
\<close>

definition has_room :: "u64 \<Rightarrow> vma \<Rightarrow> u64 \<Rightarrow> pt \<Rightarrow> bool" where
  "has_room satp vma vpn st \<longleftrightarrow> (\<forall>l. fit_level vma vpn PAGE_TERA = Some l \<longrightarrow>
     unused (pmem st) (root_of satp) vpn l \<and> pages_needed l \<le> card (free_pages (frames st)))"

lemma backed_room:
  assumes "backed k b st st1" "buddy_inv (frames st)" "k \<le> l" "pages_needed l \<le> card (free_pages (frames st))"
  shows "3 < card (free_pages (frames st1))"
proof -
  have b: "b + 2 ^ (k * 9) \<le> NBLOCKS" "free_pages (frames st1) = free_pages (frames st) - pages b (k * 9)"
    using assms(1) by (auto simp: backed_def)
  have "k < 2"
  proof (rule ccontr)
    assume "\<not> k < 2"
    then have "(2::nat) ^ 18 \<le> 2 ^ (k * 9)" by (intro power_increasing) simp_all
    then show False using b(1) by simp
  qed
  then have "card (pages b (k * 9)) \<le> (if l = 0 then 1 else 512)"
    using assms(3) by (auto simp: pages_def less_2_cases_iff)
  moreover have "card (free_pages (frames st)) - card (pages b (k * 9)) \<le> card (free_pages (frames st1))"
    unfolding b(2) by (rule diff_card_le_card_Diff) (simp add: pages_def)
  ultimately show ?thesis using assms(4) by (simp add: pages_needed_def split: if_splits)
qed

section \<open>Mapping succeeds\<close>

lemma unused_boundary:
  assumes "unused m root vpn l" "l \<le> 3"
  shows "unused m root (vpn2prevpageboundary vpn l) l"
  using unused_cong [OF assms pre_prevboundary [OF assms(2)]] .

lemma backed_inv:
  assumes inv: "pt_inv satp st" and b: "backed k b st st1"
  shows "pt_inv satp st1" "same_leaves (pmem st) (pmem st1) (root_of satp)"
    "\<And>v d. d \<le> 4 \<Longrightarrow> tab (pmem st1) (root_of satp) v d = tab (pmem st) (root_of satp) v d"
proof -
  obtain fr where fr: "buddy_inv fr" "b + 2 ^ (k * 9) \<le> NBLOCKS" "pages b (k * 9) \<subseteq> free_pages (frames st)"
    "free_pages fr = free_pages (frames st) - pages b (k * 9)" "allocated (frames st) b = None"
    "allocated fr = (allocated (frames st))(b := Some (k * 9, 1))"
    and st1: "st1 = st\<lparr>frames := fr, pmem := memset (pmem st) (ppn2phys (block2ppn b)) 0 (0x1000 * push_bit (k * 9) 1)\<rparr>"
    using b by (auto simp: backed_def)
  note A = pt_inv_alloc [OF inv fr st1]
  show "pt_inv satp st1" "same_leaves (pmem st) (pmem st1) (root_of satp)"
    "\<And>v d. d \<le> 4 \<Longrightarrow> tab (pmem st1) (root_of satp) v d = tab (pmem st) (root_of satp) v d" by (rule A, assumption?)+
qed

text \<open>Installing the entry at a place that is unused, with more than three free pages.\<close>

lemma map_unused:
  assumes inv: "pt_inv satp st1" and l: "k \<le> 3"
    and no: "\<And>d x. \<not> leaf_at (pmem st1) (root_of satp) vpn d x" "tab (pmem st1) (root_of satp) vpn (4 - k) = None"
    and room: "3 < card (free_pages (frames st1))" and pte: "pte_is_valid pte" "pte_is_leaf pte"
  shows "\<exists>st'. pt_set_pte_leaf satp vpn pte (4 - k) st1 = Some (0, st')"
proof -
  have nb: "\<not> blocked (pmem st1) (root_of satp) vpn (4 - k)" using no by (auto simp: blocked_def)
  obtain r st' where r: "pt_set_pte_leaf satp vpn pte (4 - k) st1 = Some (r, st')" "pt_extends satp vpn st1 st'"
    and o: "r = 0 \<or> free_pages (frames st') = {}"
    using pt_set_pte_leaf_spec [OF inv, of "4 - k" pte vpn] l pte nb by fastforce
  have "buddy_inv (frames st1)" using inv by (simp add: pt_inv_def)
  then have "card (free_pages (frames st1) - free_pages (frames st')) \<le> 3" using extends_takes [OF r(2)] by blast
  then have "free_pages (frames st') \<noteq> {}" using room by auto
  then show ?thesis using r(1) o by auto
qed

lemma map_page_succeeds:
  assumes inv: "pt_inv satp st" and area: "in_area vma vpn" and id: "v_flags vma AND VMA_IDENTITY = 0"
    and leaf: "bit (v_flags vma) 0 \<or> bit (v_flags vma) 3"
    and place: "has_room satp vma vpn st"
  shows "\<exists>r st'. pt_vma_map_page_at_vpn satp vma vpn ppn st = Some (r, st') \<and> 0 < r"
proof -
  let ?z = "\<lparr>pg_vpn = 0, pg_level = 0, pg_ppn = 0, pg_pte = 0\<rparr>"
  let ?root = "root_of satp"
  have binv: "buddy_inv (frames st)" using inv by (simp add: pt_inv_def)
  have "fits vma vpn 0" using fits_nat [OF area, of 0] area by (auto simp: in_area_def)
  then obtain l where l: "fit_level vma vpn 3 = Some l" "l \<le> 3" "fits vma vpn l"
    using fit_level_spec [of vma vpn 3] by (cases "fit_level vma vpn 3") auto
  have un: "unused (pmem st) ?root vpn l" and need: "pages_needed l \<le> card (free_pages (frames st))"
    using place l(1) by (auto simp: has_room_def)
  obtain ml where ml: "raw_pt_find_level_of_highest_empty_pte satp (vpn2prevpageboundary vpn l) st = Some (int ml)" "l \<le> ml"
    using unused_level [OF unused_boundary [OF un l(2)] l(2)] by blast
  have ne: "free_pages (frames st) \<noteq> {}" using need by (auto simp: pages_needed_def split: if_splits)
  have z: "pg_pte ?z = 0 \<or> pg_pte ?z = perms (v_flags vma)" by simp
  obtain k out b st1 where k: "back_level vma vpn ppn l ?z st = Some (Some k, out, st1)" "k \<le> l" "backed k b st st1"
    "pg_pte out = new_pte (v_flags vma) (block2ppn b)" "pg_vpn out = vpn2prevpageboundary vpn k" "pg_level out = k"
    using back_level_spec [OF binv id z, of vpn ppn l] back_level_room [OF binv ne id z, of vpn ppn l] by auto
  have k3: "k \<le> 3" using k(2) l(2) by simp
  note B = backed_inv [OF inv k(3)]
  let ?base = "vpn2prevpageboundary vpn k"
  have sub: "pre ?base (4 - l) = pre vpn (4 - l)"
    using k(2) by (intro pre_mono [OF _ _ pre_prevboundary [OF k3]]) simp_all
  note ub = unused_cong [OF un l(2) sub]
  have "\<not> leaf_at (pmem st1) ?root ?base d x" for d x using ub B(2) by (simp add: unused_def same_leaves_def)
  moreover have "tab (pmem st1) ?root ?base (4 - k) = None"
    using unused_tab [OF ub l(2), of "4 - k"] B(3) k(2) by simp
  moreover have "3 < card (free_pages (frames st1))" by (rule backed_room [OF k(3) binv k(2) need])
  ultimately obtain st' where st': "pt_set_pte_leaf satp ?base (new_pte (v_flags vma) (block2ppn b)) (4 - k) st1 = Some (0, st')"
    using map_unused [OF B(1) k3, of ?base "new_pte (v_flags vma) (block2ppn b)"] leaf new_pte_fields by blast
  then have run: "raw_pt_map_page satp out st1 = Some (0, st')"
    using k3 k(4-6) by (simp add: raw_pt_map_page_def level2depth_def)
  define q where "q = int (512 ^ k - unat vpn mod 512 ^ k)"
  have "unat vpn mod 512 ^ k < 512 ^ k" by simp
  then have pos: "q > 0" unfolding q_def by linarith
  have "pt_vma_new_page_at_vpn satp vma vpn ppn ?z st = Some (q, out, st1)"
    using l(1) ml k(1) page_remaining [OF k3, of vpn] by (simp add: pt_vma_new_page_at_vpn_def Let_def flip: q_def)
  then have "pt_vma_map_page_at_vpn satp vma vpn ppn st = Some (q, st')"
    using run pos by (simp add: pt_vma_map_page_at_vpn_def)
  then show ?thesis using pos by blast
qed

end
