(* ===== verification/Pt_Props.thy ===== *)
theory Pt_Props
  imports Regions Buddy_Props Vma_Room
begin

text \<open>
  The properties of \<^verbatim>\<open>pt.c\<close>: page tables agree with the translation of the hardware, mapping and
  unmapping change exactly one page, a page fault is answered by a cleared page, and the lists
  of areas and the small allocator behave as their callers expect.
\<close>

unbundle bit_operations_syntax

section \<open>A concrete address space\<close>

text \<open>An empty root table in block 2; the blocks 0 and 1 are free.\<close>

definition pt_ex :: pt where
  "pt_ex = \<lparr>pmem = (\<lambda>_. 0), frames = freed01, ksatp = 0, salloc_base = 0, salloc_cursor = 0,
     vm_nodes = node_init 8 \<lparr>nnext = (\<lambda>_. 0), nprev = (\<lambda>_. 0)\<rparr>,
     vm_vpn = (\<lambda>_. 0), vm_pagen = (\<lambda>_. 0), vm_flags = (\<lambda>_. 0), kvmas_head = 8,
     layout = buddy_layout_init 0x80200000, csr_satp = 0, csr_sstatus = 0, console = []\<rparr>"

abbreviation satp_ex :: u64 where "satp_ex \<equiv> 0x80002"

lemma entry_zero: "entry (\<lambda>_. 0) p i = 0"
proof -
  have "load_le k (\<lambda>_. 0) x = 0" for k x by (induction k arbitrary: x) auto
  then show ?thesis by (simp add: entry_def load64_def)
qed

lemma pre_0 [simp]: "pre vpn 0 = 0"
  by (rule bit_word_eqI) (auto simp: pre_def bit_simps)

lemma empty_root:
  assumes "buddy_inv fr" "live_page fr (block2ppn 2)"
  shows "pt_inv satp_ex (pt_ex\<lparr>frames := fr\<rparr>)"
proof -
  have root: "root_of satp_ex = block2ppn 2"
    by (simp add: u64_eq_iff block2ppn_unat unat_and_mask_64)
  have t: "tab (\<lambda>_. 0) r vpn d = Some p \<longleftrightarrow> d = 0 \<and> p = r" for r vpn d p
    by (cases d) (auto simp: entry_zero is_table_def pte_is_valid_bit Let_def split: option.splits)
  have "pt_wf (\<lambda>_. 0) fr (block2ppn 2)"
    by (rule pt_wfI) (auto simp: t assms ent_def entry_zero pte_ok_def)
  then show ?thesis by (simp only: pt_inv_def root) (simp add: pt_ex_def assms(1))
qed

lemma pt_ex_inv: "pt_inv satp_ex pt_ex"
proof -
  have "live_page freed01 (block2ppn 2)"
    by (auto simp: live_page_def freed01_inv(2) intro!: exI [of _ 2])
  from empty_root [OF freed01_inv(1) this] show ?thesis by (simp add: pt_ex_def)
qed

lemma pt_ex_leaf: "\<not> leaf_at (pmem pt_ex) root vpn d e"
  by (auto simp: leaf_at_def ent_def pt_ex_def entry_zero pte_is_leaf_bit)

section \<open>Walking\<close>

text \<open>(C8) \<open>pt_get_pte\<close> terminates and agrees with the Sv48 translation of the hardware: it finds the
  entry the processor uses, or fails exactly when the processor faults, as long as the leaf has
  no reserved encoding. (The translation ignores the bits of \<open>vpn\<close> above the 36 of a canonical page number.)\<close>
theorem pt_get_pte_sv48:
  assumes "pt_inv satp st" "\<forall>d e. leaf_at (pmem st) (root_of satp) vpn d e \<longrightarrow> hw_leaf d e"
  shows "case sv48_translate (pmem st) satp vpn of
      None \<Rightarrow> \<exists>r < 0. \<exists>ptes. pt_get_pte satp vpn (replicate 5 0) st = Some (r, ptes, None)
    | Some ppn \<Rightarrow> \<exists>d < 4. \<exists>ptes p. pt_get_pte satp vpn (replicate 5 0) st = Some (int (Suc d), ptes, Some p)
        \<and> ppn = pte_get_ppn (ptes ! Suc d) OR (vpn AND mask (9 * (3 - d)))"
proof -
  have wf: "pt_wf (pmem st) (frames st) (root_of satp)" using assms(1) by (simp add: pt_inv_def)
  note tr = sv48_translate_leaf [OF wf, of vpn]
  from pt_get_pte_spec [of st satp vpn] show ?thesis
  proof (elim disjE exE conjE)
    fix d e q
    assume l: "leaf_at (pmem st) (root_of satp) vpn d e"
      and g: "pt_get_pte satp vpn (replicate 5 0) st
        = Some (int (Suc d), walk_array (pmem st) satp vpn, Some (pte_at st q vpn d))"
    have d: "d < 4" and e: "walk_array (pmem st) satp vpn ! Suc d = e"
      using l by (auto simp: leaf_at_def walk_array_nth)
    have "sv48_translate (pmem st) satp vpn = Some (pte_get_ppn e OR (vpn AND mask (9 * (3 - d))))"
      using tr l assms(2) by blast
    then show ?thesis using g d e by auto
  next
    fix r assume n: "\<forall>d e. \<not> leaf_at (pmem st) (root_of satp) vpn d e" "r < 0"
      "pt_get_pte satp vpn (replicate 5 0) st = Some (r, walk_array (pmem st) satp vpn, None)"
    have "sv48_translate (pmem st) satp vpn = None" using tr n(1) by (meson not_Some_eq)
    then show ?thesis using n by auto
  qed
qed

theorem pt_get_pte_sv48_witness: "\<exists>r < 0. \<exists>ptes. pt_get_pte satp_ex 5 (replicate 5 0) pt_ex = Some (r, ptes, None)"
proof -
  have wf: "pt_wf (pmem pt_ex) (frames pt_ex) (root_of satp_ex)" using pt_ex_inv by (simp add: pt_inv_def)
  have "sv48_translate (pmem pt_ex) satp_ex 5 = None"
    using sv48_translate_leaf [OF wf, of 5] pt_ex_leaf by (meson not_Some_eq)
  then show ?thesis using pt_get_pte_sv48 [OF pt_ex_inv, of 5] pt_ex_leaf by simp
qed

text \<open>(C4) \<open>pt_set_pte_leaf\<close> terminates and keeps the tables a tree of allocated pages. On success the
  pages below the entry were unmapped before and are mapped to it now, and every other page is
  mapped as before. It fails only when a mapping or a table (even one without mappings) is in the way or no page is
  left for a missing table, and then no mapping changes. Pages are only taken for new tables on the way to the entry.\<close>
theorem pt_set_pte_leaf_correct:
  assumes "pt_inv satp st" "1 \<le> depth" "depth \<le> 4" "pte_is_valid pte" "pte_is_leaf pte"
  shows "\<exists>r st'. pt_set_pte_leaf satp vpn pte depth st = Some (r, st') \<and> pt_inv satp st' \<and> pt_grows satp st st'
    \<and> pt_extends satp vpn st st'
    \<and> (r = 0 \<and> (\<forall>vpn' d e. leaf_at (pmem st') (root_of satp) vpn' d e \<longleftrightarrow>
            (if pre vpn' depth = pre vpn depth then d = depth - 1 \<and> e = pte
             else leaf_at (pmem st) (root_of satp) vpn' d e))
          \<and> (\<forall>vpn' d e. pre vpn' depth = pre vpn depth \<longrightarrow> \<not> leaf_at (pmem st) (root_of satp) vpn' d e)
      \<or> r = - EMAPPED \<and> same_leaves (pmem st) (pmem st') (root_of satp)
          \<and> blocked (pmem st) (root_of satp) vpn depth
      \<or> r = - ENORESOURCES \<and> same_leaves (pmem st) (pmem st') (root_of satp) \<and> free_pages (frames st') = {}
          \<and> tab (pmem st) (root_of satp) vpn (depth - 1) = None)"
  by (rule pt_set_pte_leaf_spec [OF assms])

theorem pt_set_pte_leaf_correct_witness:
  "\<exists>r st'. pt_set_pte_leaf satp_ex 5 0x2000000F 1 pt_ex = Some (r, st') \<and> pt_inv satp_ex st'"
proof -
  have "pte_is_valid 0x2000000F" "pte_is_leaf 0x2000000F"
    by (simp_all add: pte_is_valid_bit pte_is_leaf_bit)
  from pt_set_pte_leaf_correct [OF pt_ex_inv _ _ this, of 1 5] show ?thesis by auto
qed

text \<open>(C29) \<open>pt_unmap_page\<close> unmaps exactly the page that contains \<open>vpn\<close> and returns its size; if there is
  none it returns an error and changes nothing.\<close>
theorem pt_unmap_page_correct:
  assumes "pt_inv satp st"
  shows "(\<exists>d e st'. leaf_at (pmem st) (root_of satp) vpn d e \<and> pt_inv satp st' \<and> pt_grows satp st st'
      \<and> pt_unmap_page satp vpn st = Some (512 ^ (3 - d), st')
      \<and> (\<forall>vpn' d' e'. leaf_at (pmem st') (root_of satp) vpn' d' e' \<longleftrightarrow>
          pre vpn' (Suc d) \<noteq> pre vpn (Suc d) \<and> leaf_at (pmem st) (root_of satp) vpn' d' e'))
    \<or> ((\<forall>d e. \<not> leaf_at (pmem st) (root_of satp) vpn d e) \<and> (\<exists>r < 0. pt_unmap_page satp vpn st = Some (r, st)))"
  by (rule pt_unmap_page_spec [OF assms])

theorem pt_unmap_page_correct_witness: "\<exists>r < 0. pt_unmap_page satp_ex 5 pt_ex = Some (r, pt_ex)"
  using pt_unmap_page_correct [OF pt_ex_inv, of 5] pt_ex_leaf by blast

text \<open>(C30) Mapping a page and unmapping it again gives back the mappings there were.\<close>
theorem map_unmap_restores:
  assumes "pt_inv satp st" "1 \<le> depth" "depth \<le> 4" "pte_is_valid pte" "pte_is_leaf pte"
    and "pt_set_pte_leaf satp vpn pte depth st = Some (0, st1)"
  shows "\<exists>st2. pt_unmap_page satp vpn st1 = Some (512 ^ (4 - depth), st2) \<and> pt_inv satp st2
    \<and> same_leaves (pmem st) (pmem st2) (root_of satp)"
proof -
  have s: "pt_inv satp st1" "\<And>vpn' d e. leaf_at (pmem st1) (root_of satp) vpn' d e \<longleftrightarrow>
        (if pre vpn' depth = pre vpn depth then d = depth - 1 \<and> e = pte else leaf_at (pmem st) (root_of satp) vpn' d e)"
    "\<And>vpn' d e. pre vpn' depth = pre vpn depth \<Longrightarrow> \<not> leaf_at (pmem st) (root_of satp) vpn' d e"
    using pt_set_pte_leaf_spec [OF assms(1-5), of vpn] assms(6) by auto
  have l: "leaf_at (pmem st1) (root_of satp) vpn (depth - 1) pte" using s(2) by simp
  obtain d e st2 where d: "leaf_at (pmem st1) (root_of satp) vpn d e" "pt_inv satp st2"
    "pt_unmap_page satp vpn st1 = Some (512 ^ (3 - d), st2)"
    "\<And>vpn' d' e'. leaf_at (pmem st2) (root_of satp) vpn' d' e' \<longleftrightarrow>
       pre vpn' (Suc d) \<noteq> pre vpn (Suc d) \<and> leaf_at (pmem st1) (root_of satp) vpn' d' e'"
    using pt_unmap_page_spec [OF s(1), of vpn] l by blast
  have "d = depth - 1" using leaf_at_unique [OF d(1) l] by simp
  then have "Suc d = depth" "3 - d = 4 - depth" using assms(2) by auto
  moreover have "same_leaves (pmem st) (pmem st2) (root_of satp)"
    unfolding same_leaves_def using d(4) s(2,3) \<open>Suc d = depth\<close> by auto
  ultimately show ?thesis using d(2,3) by auto
qed

theorem map_unmap_restores_witness:
  "\<exists>st1 st2. pt_set_pte_leaf satp_ex 5 0x2000000F 1 pt_ex = Some (0, st1)
     \<and> pt_unmap_page satp_ex 5 st1 = Some (134217728, st2)"
proof -
  have p: "pte_is_valid 0x2000000F" "pte_is_leaf 0x2000000F"
    by (simp_all add: pte_is_valid_bit pte_is_leaf_bit)
  obtain r st1 where r: "pt_set_pte_leaf satp_ex 5 0x2000000F 1 pt_ex = Some (r, st1)"
    and o: "r = 0 \<or> blocked (pmem pt_ex) (root_of satp_ex) 5 1 \<or> tab (pmem pt_ex) (root_of satp_ex) 5 (1 - 1) = None"
    using pt_set_pte_leaf_spec [OF pt_ex_inv _ _ p, of 1 5] by auto
  have "tab (pmem pt_ex) (root_of satp_ex) 5 1 = None"
    by (simp add: pt_ex_def entry_zero is_table_def pte_is_valid_bit)
  then have "r = 0" using o pt_ex_leaf by (auto simp: blocked_def)
  then show ?thesis using map_unmap_restores [OF pt_ex_inv _ _ p, of 1 5 st1] r by auto
qed


section \<open>Areas\<close>

lemma block_or_offset:
  assumes "2 ^ (l * 9) dvd b" "b + 2 ^ (l * 9) \<le> NBLOCKS" "l \<le> 1"
  shows "block2ppn b AND mask (9 * l) = 0"
    and "block2ppn b OR (vpn AND mask (9 * l)) = block2ppn (b + unat vpn mod 512 ^ l)"
proof -
  have bN: "b < NBLOCKS" using assms(2) by (smt (verit) add_leE le_neq_implies_less less_add_same_cancel1 not_less zero_less_numeral zero_less_power)
  have l: "l = 0 \<or> l = 1" using assms(3) by auto
  have d: "(512::nat) ^ l dvd 0x80000 + b"
    using l assms(1) by (auto intro!: dvd_add)
  have z: "unat (block2ppn b AND mask (9 * l)) = 0"
    using l d block2ppn_unat [OF bN] by (auto simp: unat_and_mask_64 dvd_eq_mod_eq_0)
  then show and0: "block2ppn b AND mask (9 * l) = 0" by (simp add: unat_eq_zero)
  have r: "unat (vpn AND mask (9 * l)) = unat vpn mod 512 ^ l" using l by (auto simp: unat_and_mask_64)
  have rl: "unat vpn mod 512 ^ l < 512 ^ l" by simp
  have "block2ppn b AND (vpn AND mask (9 * l)) = (block2ppn b AND mask (9 * l)) AND vpn" by (simp add: ac_simps)
  then have "block2ppn b AND (vpn AND mask (9 * l)) = 0" using and0 by simp
  then have "block2ppn b OR (vpn AND mask (9 * l)) = block2ppn b + (vpn AND mask (9 * l))"
    by (simp add: disjunctive_add_eq_or)
  moreover have "b + unat vpn mod 512 ^ l < NBLOCKS"
    using rl l assms(2) by auto
  ultimately show "block2ppn b OR (vpn AND mask (9 * l)) = block2ppn (b + unat vpn mod 512 ^ l)"
    using bN r by (simp add: u64_eq_iff block2ppn_unat unat_add_64)
qed

lemma mapped_new_hw:
  assumes inv: "pt_inv satp st" "pt_inv satp st'" and m: "mapped_new satp vma vpn st st' l b"
    and flags: "bit (v_flags vma) 0"
  shows "\<exists>c \<in> free_pages (frames st). sv48_translate (pmem st') satp vpn = Some (block2ppn c)
      \<and> (\<forall>a. drop_bit 12 a = block2ppn c \<longrightarrow> pmem st' a = 0)"
    and "pre vpn' (4 - l) \<noteq> pre vpn (4 - l) \<Longrightarrow>
      sv48_translate (pmem st') satp vpn' = sv48_translate (pmem st) satp vpn'"
proof -
  have wf: "pt_wf (pmem st) (frames st) (root_of satp)" "pt_wf (pmem st') (frames st') (root_of satp)"
    and binv: "buddy_inv (frames st')" using inv by (auto simp: pt_inv_def)
  have l: "l \<le> 3" and al: "allocated (frames st') b = Some (l * 9, 1)" using m by (auto simp: mapped_new_def)
  note d = allocatedD [OF binv al]
  have l1: "l \<le> 1" using d(2) by simp
  note o = block_or_offset [OF d(6,7) l1]
  let ?e = "new_pte (v_flags vma) (block2ppn b)"
  have ppn: "pte_get_ppn ?e = block2ppn b"
    using block2ppn_unat [OF d(1)] d(1) by (simp add: new_pte_fields u64_eq_iff unat_and_mask_64)
  have "hw_leaf (3 - l) ?e"
    using o(1) l flags by (simp add: hw_leaf_def ppn bit_new_pte)
  moreover have "leaf_at (pmem st') (root_of satp) vpn (3 - l) ?e" using m by (simp add: mapped_new_def)
  ultimately have t: "sv48_translate (pmem st') satp vpn = Some (block2ppn (b + unat vpn mod 512 ^ l))"
    using sv48_translate_leaf [OF wf(2), of vpn] o(2) [of vpn] l ppn by fastforce
  have "b + unat vpn mod 512 ^ l \<in> pages b (l * 9)"
  proof -
    have "unat vpn mod 512 ^ l < 512 ^ l" by simp
    also have "(512::nat) ^ l = 2 ^ (l * 9)" by (simp add: power_mult mult.commute [of l])
    finally show ?thesis by (simp add: pages_def)
  qed
  then show "\<exists>c \<in> free_pages (frames st). sv48_translate (pmem st') satp vpn = Some (block2ppn c)
      \<and> (\<forall>a. drop_bit 12 a = block2ppn c \<longrightarrow> pmem st' a = 0)"
    using t m by (auto simp: mapped_new_def)
  show "sv48_translate (pmem st') satp vpn' = sv48_translate (pmem st) satp vpn'"
    if p: "pre vpn' (4 - l) \<noteq> pre vpn (4 - l)"
  proof -
    have "leaf_at (pmem st') (root_of satp) vpn' d e \<longleftrightarrow> leaf_at (pmem st) (root_of satp) vpn' d e" for d e
      using m p by (simp add: mapped_new_def)
    then have "sv48_translate (pmem st') satp vpn' = Some q \<longleftrightarrow> sv48_translate (pmem st) satp vpn' = Some q" for q
      using sv48_translate_leaf [OF wf(1), of vpn' q] sv48_translate_leaf [OF wf(2), of vpn' q] by simp
    then show ?thesis by (rule option_eqI)
  qed
qed

lemma same_leaves_translate:
  assumes "pt_inv satp st" "pt_inv satp st'"
    and "\<And>d e. leaf_at (pmem st') (root_of satp) vpn d e = leaf_at (pmem st) (root_of satp) vpn d e"
  shows "sv48_translate (pmem st') satp vpn = sv48_translate (pmem st) satp vpn"
proof -
  have wf: "pt_wf (pmem st) (frames st) (root_of satp)" "pt_wf (pmem st') (frames st') (root_of satp)"
    using assms(1,2) by (simp_all add: pt_inv_def)
  have "sv48_translate (pmem st') satp vpn = Some q \<longleftrightarrow> sv48_translate (pmem st) satp vpn = Some q" for q
    using sv48_translate_leaf [OF wf(1), of vpn q] sv48_translate_leaf [OF wf(2), of vpn q] assms(3) by simp
  then show ?thesis by (rule option_eqI)
qed


text \<open>An address space with an empty root table and the free pages there are after booting.\<close>

lemma rich_ex: "\<exists>fr. pt_inv satp_ex (pt_ex\<lparr>frames := fr\<rparr>) \<and> 7679 \<le> card (free_pages fr)"
proof -
  obtain fr where fr: "buddy_inv fr" "free_pages fr = {512..<8191}"
    using raw_buddy_init_inv [of used_state "0x80200000"] by (auto simp: used_state_def word_le_nat_alt word_less_nat_alt)
  have "live_page fr (block2ppn 2)" by (auto simp: live_page_def fr(2) intro!: exI [of _ 2])
  then show ?thesis using empty_root [OF fr(1)] fr(2) by (intro exI [of _ fr]) simp
qed

lemma unused_ex: "unused (\<lambda>_. 0) root vpn l"
proof -
  have "ent (\<lambda>_. 0) root vpn d = None \<or> ent (\<lambda>_. 0) root vpn d = Some 0" for d
    by (cases "tab (\<lambda>_. 0) root vpn d") (simp_all add: ent_def entry_zero)
  then show ?thesis using pt_ex_leaf by (simp add: unused_def pt_ex_def)
qed

lemma room_ex:
  assumes "516 \<le> card (free_pages (frames st))" "pmem st = (\<lambda>_. 0)"
  shows "has_room satp vma vpn st"
  using assms unused_ex by (simp add: has_room_def pages_needed_def)


text \<open>The page size: \<open>pt_vma_new_page_at_vpn\<close> starts from the largest page, at most 512 GiB, whose
  aligned position around \<open>vpn\<close> lies in the area; there is one for every page of the area.\<close>
lemma fit_level_largest:
  assumes "in_area vma vpn"
  shows "\<exists>l \<le> PAGE_TERA. fit_level vma vpn PAGE_TERA = Some l
    \<and> unat (v_vpn vma) \<le> unat vpn div 512 ^ l * 512 ^ l
    \<and> unat vpn div 512 ^ l * 512 ^ l + 512 ^ l \<le> unat (v_vpn vma) + unat (v_pagen vma)
    \<and> (\<forall>k. l < k \<longrightarrow> k \<le> PAGE_TERA \<longrightarrow> \<not> fits vma vpn k)"
proof -
  have "fits vma vpn 0" using fits_nat [OF assms, of 0] assms by (auto simp: in_area_def)
  then obtain l where "fit_level vma vpn 3 = Some l" "l \<le> 3" "fits vma vpn l" "\<forall>k. l < k \<longrightarrow> k \<le> 3 \<longrightarrow> \<not> fits vma vpn k"
    using fit_level_spec [of vma vpn 3] by (cases "fit_level vma vpn 3") auto
  then show ?thesis using fits_nat [OF assms, of l] by auto
qed

text \<open>(C32) \<open>vpn2vma\<close> terminates on a well-formed list of areas and returns the first area that contains
  the page, or \<open>NULL\<close> if no area does.\<close>
theorem vpn2vma_correct:
  assumes "dlist (vm_nodes st) head xs"
  shows "vpn2vma head vpn st = Some (case find (covers st vpn) xs of None \<Rightarrow> NULL | Some n \<Rightarrow> vma_of n)"
  by (rule vpn2vma_find [OF assms])

theorem vpn2vma_correct_witness: "vpn2vma 8 0x100 pt_ex = Some NULL"
proof -
  have "dlist (vm_nodes pt_ex) 8 []" by (simp add: pt_ex_def dlist_node_init)
  then show ?thesis using vpn2vma_correct [of pt_ex 8 "[]" "0x100"] by simp
qed

text \<open>(C33) \<open>pt_salloc\<close> terminates. It returns a region inside a page that belongs to it, behind all
  regions it handed out of that page before, or at the start of a page that was free; it returns
  \<open>NULL\<close> only when no page is left.\<close>
theorem pt_salloc_correct:
  assumes "salloc_inv st" "0 < sz" "unat sz \<le> 4096"
  shows "(\<exists>p st'. pt_salloc sz st = Some (p, st') \<and> salloc_ok sz st p st')
    \<or> (\<exists>st'. pt_salloc sz st = Some (NULL, st') \<and> salloc_inv st' \<and> salloc_rest st st' \<and> salloc_base st' = 0
         \<and> frames st' = frames st \<and> pmem st' = pmem st \<and> free_pages (frames st) = {})"
  by (rule pt_salloc_spec [OF assms])

theorem pt_salloc_correct_witness: "\<exists>p st'. pt_salloc 40 pt_ex = Some (p, st') \<and> salloc_ok 40 pt_ex p st'"
proof -
  have "salloc_inv pt_ex" by (simp add: salloc_inv_def pt_ex_def freed01_inv(1))
  moreover have "free_pages (frames pt_ex) \<noteq> {}" by (simp add: pt_ex_def freed01_inv(2))
  ultimately show ?thesis using pt_salloc_correct [of pt_ex 40] by simp
qed

section \<open>The processor's registers\<close>

text \<open>\<open>ksatp_enable_paging\<close> switches the processor to Sv48 and keeps the root of the page tables.\<close>
lemma enable_paging_correct:
  "is_paging_enabled (ksatp_enable_paging st)
   \<and> csr_satp (ksatp_enable_paging st) = ksatp (ksatp_enable_paging st)
   \<and> root_of (ksatp (ksatp_enable_paging st)) = root_of (ksatp st)"
proof -
  have k: "ksatp (ksatp_enable_paging st) = satp_set (ksatp st) 9 (mask 4) 60"
    by (simp add: ksatp_enable_paging_def Let_def mask_4)
  have "drop_bit 60 (satp_set (ksatp st) 9 (mask 4) 60) = satp_get (satp_set (ksatp st) 9 (mask 4) 60) (mask 4) 60"
    by (rule bit_word_eqI) (auto simp: satp_get_def bit_simps dest: bit_imp_le_length)
  also have "\<dots> = 9" by (subst satp_get_set_same) (simp_all add: mask_eq_exp_minus_1)
  finally have "is_paging_enabled (ksatp_enable_paging st)"
    unfolding is_paging_enabled_def k by simp
  moreover have "root_of (satp_set (ksatp st) 9 (mask 4) 60) = root_of (ksatp st)"
    by (rule bit_word_eqI) (auto simp: satp_set_bit bit_simps)
  moreover have "csr_satp (ksatp_enable_paging st) = ksatp (ksatp_enable_paging st)"
    by (simp add: ksatp_enable_paging_def Let_def)
  ultimately show ?thesis by (simp add: k)
qed

section \<open>Deviations\<close>

text \<open>\<open>set_vma_protection\<close> is meant to clear the bit \<open>SUM\<close> of \<open>sstatus\<close>; because it uses logical
  negation it clears the whole register, so undoing \<open>unset_vma_protection\<close> loses every other bit.\<close>
lemma set_vma_protection_clears_all: "csr_sstatus (set_vma_protection (unset_vma_protection st)) = 0"
  by (simp add: set_vma_protection_def)

text \<open>(C37) Mapping a page that is mapped already does not only fail: the error of
  \<open>pt_vma_new_page_at_vpn\<close> is taken for a size, the empty page structure is mapped, and page 0 of
  the address space is unmapped.\<close>
theorem map_again_unmaps_page_zero:
  assumes "pt_inv satp st" "fit_level vma vpn PAGE_TERA = Some 0" "leaf_at (pmem st) (root_of satp) vpn d e"
    and "leaf_at (pmem st) (root_of satp) 0 3 e0"
  shows "\<exists>st'. pt_vma_map_page_at_vpn satp vma vpn ppn st = Some (- EMAPPED, st')
    \<and> (\<forall>d e. \<not> leaf_at (pmem st') (root_of satp) 0 d e)"
proof -
  let ?z = "\<lparr>pg_vpn = 0, pg_level = 0, pg_ppn = 0, pg_pte = 0\<rparr>"
  have b: "vpn2prevpageboundary vpn 0 = vpn" by (simp add: prevboundary_mask)
  have "raw_pt_find_level_of_highest_empty_pte satp vpn st = Some (- EMAPPED)"
    using pt_get_pte_spec [of st satp vpn] assms(3)
    by (auto simp: raw_pt_find_level_of_highest_empty_pte_def)
  then have new: "pt_vma_new_page_at_vpn satp vma vpn ppn ?z st = Some (- EMAPPED, ?z, st)"
    using assms(2) b by (simp add: pt_vma_new_page_at_vpn_def)
  obtain st' where r: "pt_set_pte_leaf satp 0 0 4 st = Some (0, st')"
    "\<And>vpn' d e. leaf_at (pmem st') (root_of satp) vpn' d e \<longleftrightarrow> pre vpn' 4 \<noteq> pre 0 4 \<and> leaf_at (pmem st) (root_of satp) vpn' d e"
    using pt_set_pte_zero [OF assms(1), of 0] assms(4) by blast
  then show ?thesis
    using new by (simp add: pt_vma_map_page_at_vpn_def raw_pt_map_page_def level2depth_def)
qed

lemma pages_0: "pages b 0 = {b}"
  by (auto simp: pages_def)

lemma frames_ex: "\<exists>fr. buddy_inv fr \<and> free_pages fr = {0, 1, 3} \<and> live_page fr (block2ppn 2)"
proof -
  note u = all_used_views [OF used_state_inv]
  have a: "allocated used_state b = Some (0, 1)" if "b < NBLOCKS" for b
    using u(3) [of 0] that by (simp add: init_view_def)
  obtain s where s: "buddy_inv s" "free_pages s = {} \<union> {0}" "allocated s = (allocated used_state)(0 := None)"
    using buddy_free_last [OF u(1) a [of 0]] unfolding pages_0 u(2) by auto
  have a: "allocated s 1 = Some (0, 1)" using s(3) a [of 1] by simp
  obtain s1 where s1: "buddy_inv s1" "free_pages s1 = {} \<union> {0} \<union> {1}" "allocated s1 = (allocated s)(1 := None)"
    using buddy_free_last [OF s(1) a] unfolding pages_0 s(2) by auto
  have "allocated s1 3 = Some (0, 1)" using s1(3) s(3) u(3) [of 0] by (simp add: init_view_def)
  then obtain s2 where "buddy_inv s2" "free_pages s2 = {} \<union> {0} \<union> {1} \<union> {3}"
    using buddy_free_last [OF s1(1), of 3 0] unfolding pages_0 s1(2) by auto
  then show ?thesis by (intro exI [of _ s2]) (auto simp: live_page_def intro!: exI [of _ 2])
qed

lemma free_entry:
  assumes "pt_inv satp st" "d < 4" "tab (pmem st) (root_of satp) vpn d = Some p"
    and "tab (pmem st) (root_of satp) vpn (Suc d) = None" "\<And>e. \<not> leaf_at (pmem st) (root_of satp) vpn d e"
  shows "ent (pmem st) (root_of satp) vpn d = Some 0"
proof -
  have e: "ent (pmem st) (root_of satp) vpn d = Some (entry (pmem st) p (idx vpn d))"
    using assms(3) by (simp add: ent_def)
  then have "pte_ok d (entry (pmem st) p (idx vpn d))"
    using assms(1,2) unfolding pt_inv_def pt_wf_def by blast
  moreover have "\<not> is_table (entry (pmem st) p (idx vpn d))" using assms(3,4) by (auto simp: Let_def)
  moreover have "\<not> pte_is_leaf (entry (pmem st) p (idx vpn d))" using assms(2,5) e by (simp add: leaf_at_def)
  ultimately show ?thesis using e by (auto simp: pte_ok_def is_table_def)
qed

lemma grow_table:
  assumes inv: "pt_inv satp st" and d: "d < 3" and none: "\<And>vpn d e. \<not> leaf_at (pmem st) (root_of satp) vpn d e"
    and t: "tab (pmem st) (root_of satp) vpn d \<noteq> None" "tab (pmem st) (root_of satp) vpn (Suc d) = None"
    and free: "free_pages (frames st) \<noteq> {}"
  shows "\<exists>st' b. pt_inv satp st' \<and> tab (pmem st') (root_of satp) vpn (Suc d) \<noteq> None
    \<and> tab (pmem st') (root_of satp) vpn (Suc (Suc d)) = None
    \<and> (\<forall>vpn d e. \<not> leaf_at (pmem st') (root_of satp) vpn d e) \<and> free_pages (frames st') = free_pages (frames st) - {b}"
proof -
  have binv: "buddy_inv (frames st)" using inv by (simp add: pt_inv_def)
  obtain p where p: "tab (pmem st) (root_of satp) vpn d = Some p" using t(1) by blast
  have e: "ent (pmem st) (root_of satp) vpn d = Some 0"
    using free_entry [OF inv _ p] t(2) none d by simp
  obtain b fr v where b: "b \<in> free_pages (frames st)" "buddy_inv fr" "free_pages fr = free_pages (frames st) - {b}"
    "allocated (frames st) b = None" "allocated fr = (allocated (frames st))(b := Some (0, 1))"
    "is_table v" "pte_get_ppn v = block2ppn b" "\<not> bit v 2"
    using pt_alloc_pt_spec [OF binv] free by blast
  note I = pt_inv_install [OF inv d p e b refl]
  have "tab (pmem st) (root_of satp) vpn (Suc (Suc d)) = None" using t(2) by simp
  then show ?thesis
    using I(1,4) I(7) [of "Suc (Suc d)" vpn] I(2) none b(3) d unfolding same_leaves_def
    by (intro exI conjI) (assumption | simp)+
qed

lemma tables_ex: "\<exists>st. pt_inv satp_ex st \<and> tab (pmem st) (root_of satp_ex) 0 3 \<noteq> None
  \<and> (\<forall>vpn d e. \<not> leaf_at (pmem st) (root_of satp_ex) vpn d e)"
proof -
  obtain fr where fr: "buddy_inv fr" "free_pages fr = {0, 1, 3}" "live_page fr (block2ppn 2)" using frames_ex by blast
  let ?s = "pt_ex\<lparr>frames := fr\<rparr>"
  have i: "pt_inv satp_ex ?s" using empty_root [OF fr(1,3)] .
  have ne: "{0, 1, 3 :: nat} - {b} - {c} \<noteq> {}" for b c by (auto simp: insert_Diff_if)
  have n: "\<not> leaf_at (pmem ?s) r vpn d e" for r vpn d e using pt_ex_leaf by simp
  have t: "tab (pmem ?s) (root_of satp_ex) 0 0 \<noteq> None" "tab (pmem ?s) (root_of satp_ex) 0 (Suc 0) = None"
    by (simp_all add: pt_ex_def entry_zero is_table_def pte_is_valid_bit)
  obtain s1 b where s1: "pt_inv satp_ex s1" "tab (pmem s1) (root_of satp_ex) 0 (Suc 0) \<noteq> None"
    "tab (pmem s1) (root_of satp_ex) 0 (Suc (Suc 0)) = None"
    "\<And>vpn d e. \<not> leaf_at (pmem s1) (root_of satp_ex) vpn d e" "free_pages (frames s1) = {0, 1, 3} - {b}"
    using grow_table [OF i _ n t] fr(2) by auto
  obtain s2 c where s2: "pt_inv satp_ex s2" "tab (pmem s2) (root_of satp_ex) 0 (Suc (Suc 0)) \<noteq> None"
    "tab (pmem s2) (root_of satp_ex) 0 (Suc (Suc (Suc 0))) = None"
    "\<And>vpn d e. \<not> leaf_at (pmem s2) (root_of satp_ex) vpn d e" "free_pages (frames s2) = {0, 1, 3} - {b} - {c}"
    using grow_table [OF s1(1) _ s1(4,2,3)] s1(5) by auto
  obtain s3 where "pt_inv satp_ex s3" "tab (pmem s3) (root_of satp_ex) 0 3 \<noteq> None"
    "\<And>vpn d e. \<not> leaf_at (pmem s3) (root_of satp_ex) vpn d e"
    using grow_table [OF s2(1) _ s2(4,2,3)] ne [of b c] s2(5) unfolding numeral_3_eq_3 by auto
  then show ?thesis by blast
qed

lemma leaf_tab: "leaf_at m root vpn d e \<Longrightarrow> tab m root vpn d \<noteq> None"
  by (auto simp: leaf_at_def ent_def)

lemma no_tab_4:
  assumes "pt_inv satp st"
  shows "tab (pmem st) (root_of satp) vpn 4 = None"
proof (rule ccontr)
  assume "tab (pmem st) (root_of satp) vpn 4 \<noteq> None"
  then obtain e where "ent (pmem st) (root_of satp) vpn 3 = Some e" "is_table e"
    using tab_prefix [of "pmem st" "root_of satp" vpn 4 _ 3] by auto
  then show False using assms pt_wfD(3) [of "pmem st" "frames st" "root_of satp" 3 vpn e]
    by (auto simp: pt_inv_def pte_ok_def is_table_def pte_is_valid_bit)
qed

lemma two_leaves_ex: "\<exists>st. pt_inv satp_ex st \<and> leaf_at (pmem st) (root_of satp_ex) 0 3 0x2000000F
    \<and> leaf_at (pmem st) (root_of satp_ex) 1 3 0x2000040F"
proof -
  obtain s p where s: "pt_inv satp_ex s" "tab (pmem s) (root_of satp_ex) 0 3 \<noteq> None"
    "\<And>vpn d e. \<not> leaf_at (pmem s) (root_of satp_ex) vpn d e" using tables_ex by blast
  have v: "pte_is_valid 0x2000000F" "pte_is_leaf 0x2000000F" "pte_is_valid 0x2000040F" "pte_is_leaf 0x2000040F"
    by (simp_all add: pte_is_valid_bit pte_is_leaf_bit)
  have p: "pre 1 4 \<noteq> pre 0 4" "pre 1 3 = pre 0 3" by (simp_all add: pre_def mask_eq_exp_minus_1)
  obtain s1 where s1: "pt_inv satp_ex s1" "leaf_at (pmem s1) (root_of satp_ex) 0 3 0x2000000F"
    "\<And>d e. \<not> leaf_at (pmem s1) (root_of satp_ex) 1 d e"
    using pt_set_pte_leaf_spec [OF s(1) _ _ v(1,2), of 4 0] s(2,3) p(1) no_tab_4 [OF s(1)] by (auto simp: blocked_def)
  have "tab (pmem s1) (root_of satp_ex) 1 3 \<noteq> None"
    using leaf_tab [OF s1(2)] tab_cong [of 3 1 0] p(2) by simp
  then show ?thesis
    using pt_set_pte_leaf_spec [OF s1(1) _ _ v(3,4), of 4 1] s1(2,3) p(1) no_tab_4 [OF s1(1)] by (auto simp: blocked_def)
qed

theorem map_again_unmaps_page_zero_witness:
  "\<exists>vma st st'. pt_inv satp_ex st \<and> leaf_at (pmem st) (root_of satp_ex) 0 3 0x2000000F
     \<and> leaf_at (pmem st) (root_of satp_ex) 1 3 0x2000040F
     \<and> pt_vma_map_page_at_vpn satp_ex vma 1 0 st = Some (- EMAPPED, st')
     \<and> (\<forall>d e. \<not> leaf_at (pmem st') (root_of satp_ex) 0 d e)"
proof -
  let ?vma = "\<lparr>v_vpn = 1, v_pagen = 1, v_flags = 7\<rparr>"
  obtain st where st: "pt_inv satp_ex st" "leaf_at (pmem st) (root_of satp_ex) 0 3 0x2000000F"
    "leaf_at (pmem st) (root_of satp_ex) 1 3 0x2000040F" using two_leaves_ex by blast
  have "fit_level ?vma 1 PAGE_TERA = Some 0" by (simp add: fit_level.simps vpn2prevpageboundary_def level2pagen_def)
  from map_again_unmaps_page_zero [OF st(1) this st(3,2), of 0] st show ?thesis by blast
qed

end
