(* ===== verification/Console.thy ===== *)
theory Console
  imports Pt_Walk
begin

text \<open>
  What the printing functions add to the console. Literals and numbers always print, so the
  handlers that report errors terminate.
\<close>

definition bytes_of :: "string \<Rightarrow> u8 list" where
  "bytes_of s = takeWhile (\<lambda>c. c \<noteq> 0) (map of_char s)"

lemma is_cstr_takeWhile:
  assumes "length xs < 2 ^ 64 - 1"
  shows "is_cstr (at_array (xs @ [0]) 0) (takeWhile (\<lambda>c. c \<noteq> 0) xs)"
proof -
  let ?t = "takeWhile (\<lambda>c. c \<noteq> 0) xs"
  have l: "length ?t \<le> length xs" by (rule length_takeWhile_le)
  then have L: "length ?t < 2 ^ 64 - 1" using assms by linarith
  have u: "unat (of_nat i :: u64) = i" if "i \<le> length xs" for i
    using that assms by (simp add: unat_of_nat_64)
  have e: "(xs @ [0]) ! length ?t = 0"
  proof (cases "length ?t = length xs")
    case False
    then have "length ?t < length xs" using l by simp
    then show ?thesis using nth_length_takeWhile [of "\<lambda>c. c \<noteq> 0" xs] by (simp add: nth_append)
  qed (simp only: nth_append_length)
  have "at_array (xs @ [0]) 0 (of_nat i) = ?t ! i" if "i < length ?t" for i
    using that l u [of i] by (simp add: at_array_def nth_append takeWhile_nth)
  moreover have "at_array (xs @ [0]) 0 (of_nat (length ?t)) = 0"
    using u [OF l] l e by (simp add: at_array_def)
  moreover have "0 \<notin> set ?t" by (auto dest: set_takeWhileD)
  ultimately show ?thesis unfolding is_cstr_def using L by blast
qed

lemma raw_printstr_lit: "length s < 2 ^ 64 - 1 \<Longrightarrow> raw_printstr (lit s) out = Some (out @ bytes_of s)"
  unfolding lit_def bytes_of_def by (rule raw_printstr_cstr [OF is_cstr_takeWhile]) simp

lemma printstr_console:
  "length s < 2 ^ 64 - 1 \<Longrightarrow> printstr s st = Some (st\<lparr>console := console st @ bytes_of s\<rparr>)"
  by (simp add: printstr_def raw_printstr_lit)

lemma printerr_console:
  assumes "length s < 2 ^ 32"
  shows "\<exists>xs. printerr s st = Some (st\<lparr>console := console st @ xs\<rparr>)"
proof -
  have "length ([CHR 0x1B] @ ''[31m'' @ s @ [CHR 0x1B] @ ''[0m'') < 2 ^ 64 - 1" using assms by simp
  then show ?thesis unfolding printerr_def by (blast intro: printstr_console)
qed

lemma raw_printnum_appends: "\<exists>xs. raw_printnum v out = Some (out @ xs)"
  using raw_printnum_roundtrip by blast

lemma printptr_appends: "\<exists>xs. printptr v c out = Some (out @ xs)"
  using raw_printnum_appends [of v out] by (auto simp: printptr_def put_def)

lemma MAG_cstr: "is_cstr MAG [27, 91, 51, 53, 109]" and RESET_cstr: "is_cstr RESET [27, 91, 48, 109]"
  using is_cstr_takeWhile [of "[27, 91, 51, 53, 109]"] is_cstr_takeWhile [of "[27, 91, 48, 109]"]
  by (simp_all add: MAG_def RESET_def)

lemma printdbg_appends:
  assumes "length s < 2 ^ 64 - 1"
  shows "\<exists>xs. printdbg (lit s) v out = Some (out @ xs)"
proof -
  obtain xs where "printptr v 10 (out @ bytes_of s @ [27, 91, 51, 53, 109]) = Some (out @ bytes_of s @ [27, 91, 51, 53, 109] @ xs)"
    using printptr_appends [of v 10 "out @ bytes_of s @ [27, 91, 51, 53, 109]"] by auto
  then show ?thesis
    by (simp add: printdbg_def raw_printstr_lit [OF assms] raw_printstr_cstr [OF MAG_cstr] raw_printstr_cstr [OF RESET_cstr])
qed

end
