(* ===== verification/Elfpars.thy ===== *)
theory Elfpars
  imports Console
begin

text \<open>
  \<^verbatim>\<open>elfpars.c\<close>: the structures of \<^verbatim>\<open>elfpars.h\<close>, \<open>parse_header\<close> and \<open>parse_elf\<close>. Binaries are read
  from byte memory; \<open>elf_header_at\<close> is the layout of \<open>struct elf_header\<close>.
\<close>

section \<open>Structures\<close>

abbreviation (input) RISCV_ELF :: u16 where "RISCV_ELF \<equiv> 243"
abbreviation (input) ET_REL :: u16 where "ET_REL \<equiv> 1"
abbreviation (input) ET_EXEC :: u16 where "ET_EXEC \<equiv> 2"
abbreviation (input) PT_LOAD :: u32 where "PT_LOAD \<equiv> 1"
abbreviation (input) SELFMAG :: u32 where "SELFMAG \<equiv> 4"

definition ELFMAG :: cptr where
  "ELFMAG = at_array [127, 69, 76, 70, 0] 0"

record elf_header =
  eh_ident :: "u8 list"
  eh_type :: u16
  eh_machine :: u16
  eh_version :: u32
  eh_entry :: u64
  eh_phoff :: u64
  eh_shoff :: u64
  eh_flags :: u32
  eh_ehsize :: u16
  eh_phentsize :: u16
  eh_phnum :: u16
  eh_shentsize :: u16
  eh_shnum :: u16
  eh_shstrndx :: u16

definition elf_header_at :: "mem \<Rightarrow> addr \<Rightarrow> elf_header" where
  "elf_header_at m p =
     \<lparr>eh_ident = map (\<lambda>i. m (p + of_nat i)) [0..<16], eh_type = load16 m (p + 16), eh_machine = load16 m (p + 18),
      eh_version = load32 m (p + 20), eh_entry = load64 m (p + 24), eh_phoff = load64 m (p + 32),
      eh_shoff = load64 m (p + 40), eh_flags = load32 m (p + 48), eh_ehsize = load16 m (p + 52),
      eh_phentsize = load16 m (p + 54), eh_phnum = load16 m (p + 56), eh_shentsize = load16 m (p + 58),
      eh_shnum = load16 m (p + 60), eh_shstrndx = load16 m (p + 62)\<rparr>"

record elf_simple =
  e_entry :: u64
  size_load :: u64
  offset_load :: u64
  virtual_load :: u64
  elf_valid :: int

record elf_jake =
  elf :: elf_simple
  ptr_elf :: addr

section \<open>The parsers\<close>

text \<open>\<open>parse_header\<close>: the header is copied to \<open>head\<close> and then checked there.\<close>

definition parse_header :: "addr \<Rightarrow> addr \<Rightarrow> u32 \<Rightarrow> mem \<Rightarrow> uart \<Rightarrow> (int \<times> mem \<times> uart) option" where
  "parse_header head ptr len m out =
     (let fail = (\<lambda>s m. do { out \<leftarrow> raw_printstr (lit s) out; Some (- 1, m, out) })
      in if head = NULL then fail (''[!!] head null.'' @ [CHR 0x0A]) m
         else if ptr = NULL then fail (''[!!] ptr null.'' @ [CHR 0x0A]) m
         else if len = 0 then Some (- 1, m, out)
         else
           let m = memcpy m head ptr 64; h = elf_header_at m head
           in if strncmp (at m head) ELFMAG SELFMAG = 0
              then fail (''[!!] ELFMAG not found, aborting.'' @ [CHR 0x0A]) m
              else if eh_type h \<noteq> ET_EXEC \<and> eh_type h \<noteq> ET_REL
              then fail (''[!!] e_type not ET_EXEC or ET_REL, aborting.'' @ [CHR 0x0A]) m
              else if eh_machine h \<noteq> RISCV_ELF
              then fail (''[!!] e_machine not RISCV_ELF, aborting.'' @ [CHR 0x0A]) m
              else Some (0, m, out))"

text \<open>
  \<open>parse_elf\<close>: the search for the first loadable program header. Without one, the pointer is
  left behind the last header and the load fields are read from there.
\<close>

function find_load_loop :: "mem \<Rightarrow> int \<Rightarrow> u16 \<Rightarrow> u16 \<Rightarrow> addr \<Rightarrow> int \<times> addr" where
  "find_load_loop m t e_phnum e_phentsize ptr_ph =
     (if t < uint e_phnum then
        (if load32 m ptr_ph = PT_LOAD then (1, ptr_ph)
         else find_load_loop m (t + 1) e_phnum e_phentsize (ptr_ph + ucast e_phentsize))
      else (0, ptr_ph))"
  by pat_completeness auto
termination
  by (relation "measure (\<lambda>(m, t, n, _, _). nat (uint n - t))") auto

declare find_load_loop.simps [simp del]

definition parse_elf :: "mem \<Rightarrow> addr \<Rightarrow> int \<times> elf_jake" where
  "parse_elf m ptr =
     (let e_entry = load64 m (ptr + 0x18);
          e_phoff = load64 m (ptr + 0x20);
          e_phentsize = load16 m (ptr + 0x36);
          e_phnum = load16 m (ptr + 0x38);
          (valid, ptr_ph) = find_load_loop m 0 e_phnum e_phentsize (ptr + e_phoff)
      in (0, \<lparr>elf = \<lparr>e_entry = e_entry, size_load = load64 m (ptr_ph + 0x20),
                     offset_load = load64 m (ptr_ph + 0x08), virtual_load = load64 m (ptr_ph + 0x10),
                     elf_valid = valid\<rparr>,
              ptr_elf = ptr\<rparr>))"

section \<open>What they do\<close>

text \<open>The address of program header \<open>i\<close>, and the first one that is loadable.\<close>

definition phdr :: "mem \<Rightarrow> addr \<Rightarrow> nat \<Rightarrow> addr" where
  "phdr m ptr i = ptr + eh_phoff (elf_header_at m ptr) + of_nat i * ucast (eh_phentsize (elf_header_at m ptr))"

definition first_load :: "mem \<Rightarrow> addr \<Rightarrow> nat option" where
  "first_load m ptr =
     find (\<lambda>i. load32 m (phdr m ptr i) = PT_LOAD) [0..<unat (eh_phnum (elf_header_at m ptr))]"

lemma find_load_loop_find:
  assumes "i \<le> unat n"
  shows "find_load_loop m (int i) n sz (base + of_nat i * ucast sz) =
    (case find (\<lambda>j. load32 m (base + of_nat j * ucast sz) = PT_LOAD) [i..<unat n] of
       Some j \<Rightarrow> (1, base + of_nat j * ucast sz)
     | None \<Rightarrow> (0, base + of_nat (unat n) * ucast sz))"
  using assms
proof (induction "unat n - i" arbitrary: i)
  case 0
  then have "i = unat n" by simp
  then show ?case by (subst find_load_loop.simps) simp
next
  case (Suc k)
  then have i: "i < unat n" by simp
  have "base + of_nat i * ucast sz + ucast sz = base + of_nat (Suc i) * ucast sz"
    by (simp add: algebra_simps)
  moreover have "int i < int (unat n)" using i by (simp only: of_nat_less_iff)
  then have "int i < uint n" by simp
  ultimately show ?case
    using Suc.hyps(1) [of "Suc i"] Suc.hyps(2) i
    by (subst find_load_loop.simps) (simp add: upt_conv_Cons ac_simps)
qed

text \<open>(C34) \<open>parse_elf\<close> always returns 0. It takes the entry point from the header and the load fields
  from the first loadable program header; \<open>valid\<close> tells whether there is one, and if there is
  none the load fields are whatever bytes follow the program headers.\<close>
theorem parse_elf_first_load:
  "parse_elf m ptr =
     (let ph = (case first_load m ptr of Some i \<Rightarrow> phdr m ptr i
                | None \<Rightarrow> phdr m ptr (unat (eh_phnum (elf_header_at m ptr))))
      in (0, \<lparr>elf = \<lparr>e_entry = eh_entry (elf_header_at m ptr), size_load = load64 m (ph + 0x20),
                     offset_load = load64 m (ph + 0x08), virtual_load = load64 m (ph + 0x10),
                     elf_valid = of_bool (first_load m ptr \<noteq> None)\<rparr>,
              ptr_elf = ptr\<rparr>))"
  using find_load_loop_find [of 0 "load16 m (ptr + 0x38)" m "load16 m (ptr + 0x36)" "ptr + load64 m (ptr + 0x20)"]
  by (simp add: parse_elf_def first_load_def phdr_def elf_header_at_def Let_def split: option.splits)

lemma all_less_4: "(\<forall>j < (4::nat). P j) \<longleftrightarrow> P 0 \<and> P 1 \<and> P 2 \<and> P 3"
  by (auto simp: less_Suc_eq numeral_eq_Suc)

lemma upt_0_4: "[0..<4] = [0, 1, 2, 3]"
  by code_simp

lemma load16_bytes: "load16 m a = of_nat (unat (m a) + 256 * unat (m (a + 1)))"
  by (simp add: load16_def numeral_2_eq_2)

lemma load16_copy:
  assumes "\<And>i. i < 64 \<Longrightarrow> m' (p + of_nat i) = m (q + of_nat i)" "k + 2 \<le> 64"
  shows "load16 m' (p + of_nat k) = load16 m (q + of_nat k)"
  using assms(1) [of k] assms(1) [of "Suc k"] assms(2)
  by (simp add: load16_bytes add.commute add.left_commute)

text \<open>(C35) \<open>parse_header\<close> accepts a binary exactly when it starts with the magic number and its header
  says that it is an executable or relocatable RISC-V file.\<close>
theorem parse_header_accepts:
  assumes "head \<noteq> NULL" "ptr \<noteq> NULL" "len \<noteq> 0" "\<And>a b. a < 64 \<Longrightarrow> b < 64 \<Longrightarrow> head + a \<noteq> ptr + b"
  shows "\<exists>r m' out'. parse_header head ptr len m out = Some (r, m', out')
    \<and> (r = 0 \<or> r = - 1) \<and> (\<forall>i < 64. m' (head + of_nat i) = m (ptr + of_nat i))
    \<and> (r = 0 \<longleftrightarrow> take 4 (eh_ident (elf_header_at m ptr)) = [127, 69, 76, 70]
        \<and> eh_type (elf_header_at m ptr) \<in> {ET_REL, ET_EXEC} \<and> eh_machine (elf_header_at m ptr) = RISCV_ELF)"
proof -
  define m' where "m' = memcpy m head ptr 64"
  have c: "m' (head + of_nat i) = m (ptr + of_nat i)" if "i < 64" for i :: nat
  proof -
    have "(of_nat i :: u64) < 64" using that by (simp add: word_less_nat_alt unat_of_nat_64)
    then show ?thesis using memcpy_disjoint [OF assms(4), where m = m and x = "head + of_nat i"] by (simp add: m'_def)
  qed
  have ty: "load16 m' (head + 16) = load16 m (ptr + 16)" "load16 m' (head + 18) = load16 m (ptr + 18)"
    using load16_copy [of m' head m ptr 16] load16_copy [of m' head m ptr 18] c by simp_all
  have s: "strncmp (at m' head) ELFMAG SELFMAG = 0 \<longleftrightarrow>
      take 4 (eh_ident (elf_header_at m ptr)) \<noteq> [127, 69, 76, 70]"
    using c [of 0] c [of 1] c [of 2] c [of 3]
    by (simp add: strncmp_iff at_def ELFMAG_def at_array_def elf_header_at_def all_less_4 take_map upt_0_4)
  show ?thesis
    using assms(1-3) c s ty
    by (auto simp: raw_printstr_lit parse_header_def Let_def m'_def [symmetric] elf_header_at_def)
qed

theorem parse_header_accepts_witness:
  "\<exists>m r m' out'. parse_header 0x1000 0x2000 64 m [] = Some (r, m', out') \<and> r = 0"
proof -
  let ?m = "(\<lambda>_. 0)(0x2000 := 127, 0x2001 := 69, 0x2002 := 76, 0x2003 := 70, 0x2010 := 2, 0x2012 := 243) :: mem"
  have d: "(0x1000 :: u64) + a \<noteq> 0x2000 + b" if "a < 64" "b < 64" for a b
  proof
    assume "0x1000 + a = 0x2000 + b"
    then have "unat (0x1000 + a) = unat (0x2000 + b)" by simp
    moreover have "unat (0x1000 + a) = 0x1000 + unat a" "unat (0x2000 + b) = 0x2000 + unat b"
      using that by (subst unat_add_64; simp add: word_less_nat_alt)+
    ultimately show False using that by (simp add: word_less_nat_alt)
  qed
  have "take 4 (eh_ident (elf_header_at ?m 0x2000)) = [127, 69, 76, 70]"
    by (simp add: elf_header_at_def take_map upt_0_4)
  moreover have "eh_type (elf_header_at ?m 0x2000) = ET_EXEC" "eh_machine (elf_header_at ?m 0x2000) = RISCV_ELF"
    by (simp_all add: elf_header_at_def load16_bytes)
  ultimately show ?thesis
    using parse_header_accepts [OF _ _ _ d, of 64 ?m "[]"] by (intro exI [of _ ?m]) auto
qed

end
