(* ===== verification/Kernel_State.thy ===== *)
theory Kernel_State
  imports Console Elfpars Vma
begin

text \<open>
  The state of the running kernel: the structures of \<^verbatim>\<open>process.h\<close>, the control and status
  registers and the timer registers the trap handlers use, and the ways in which a handler
  can end. The memory and page tables are the record \<open>pt\<close> of \<open>Pt_Walk\<close>.
\<close>

unbundle bit_operations_syntax

section \<open>Processes\<close>

datatype process_status = PROCESS_FREE_SLOT | PROCESS_RUNNING | PROCESS_PAUSED | PROCESS_RESERVED

abbreviation MAX_PROCESSES :: nat where "MAX_PROCESSES \<equiv> 256"
abbreviation (input) STACK_PAGES :: u64 where "STACK_PAGES \<equiv> 1"
abbreviation (input) USER_HEAP_BASE :: u64 where "USER_HEAP_BASE \<equiv> 0x80006000"
abbreviation (input) USER_HEAP_BASE_VPN :: u64 where "USER_HEAP_BASE_VPN \<equiv> 0x80006"

definition USER_STACK_BASE :: u64 where
  "USER_STACK_BASE = push_bit 47 1 - 1 - STACK_PAGES * PAGE_SIZE"

definition USER_STACK_BASE_VPN :: u64 where
  "USER_STACK_BASE_VPN = drop_bit 12 USER_STACK_BASE"

definition satp2virt :: "u64 \<Rightarrow> u64" where
  "satp2virt x = push_bit 12 (x AND 0xFFFFFFFF) OR 0xffff800000000000"

text \<open>The registers of a process; \<open>tf_satp\<close> and \<open>tf_sepc\<close> hold its address space and program counter.\<close>

record trap_frame =
  tf_sp :: u64
  tf_ra :: u64
  tf_t0 :: u64
  tf_t1 :: u64
  tf_t2 :: u64
  tf_a0 :: u64
  tf_a1 :: u64
  tf_a2 :: u64
  tf_a3 :: u64
  tf_a4 :: u64
  tf_a5 :: u64
  tf_a6 :: u64
  tf_a7 :: u64
  tf_t3 :: u64
  tf_t4 :: u64
  tf_t5 :: u64
  tf_t6 :: u64
  tf_satp :: u64
  tf_sepc :: u64
  tf_gp :: u64
  tf_tp :: u64
  tf_s0 :: u64
  tf_s1 :: u64
  tf_s2 :: u64
  tf_s3 :: u64
  tf_s4 :: u64
  tf_s5 :: u64
  tf_s6 :: u64
  tf_s7 :: u64
  tf_s8 :: u64
  tf_s9 :: u64
  tf_s10 :: u64
  tf_s11 :: u64

record process =
  p_pid :: u32
  p_status :: process_status
  p_uvmas :: addr
  p_tf :: trap_frame
  p_satp :: u64
  p_elf :: elf_jake

section \<open>The machine\<close>

text \<open>
  \<open>kreg\<close> is what \<open>read_r\<close> returns for a register of the kernel, which the C code does not
  determine; \<open>ecall_pc\<close> is the address of the instruction in \<open>ecall\<close>; the last two are the addresses
  of the linked applications.
\<close>

record machine =
  csr_sepc :: u64
  csr_scause :: u64
  csr_stval :: u64
  csr_sscratch :: u64
  csr_stvec :: u64
  csr_mtvec :: u64
  csr_mstatus :: u64
  csr_mie :: u64
  csr_mip :: u64
  csr_mepc :: u64
  csr_mcause :: u64
  csr_mscratch :: u64
  csr_mtval :: u64
  csr_mideleg :: u64
  csr_medeleg :: u64
  csr_misa :: u64
  mtime :: u64
  mtimecmp :: u64
  kreg :: "string \<Rightarrow> u64"
  ecall_pc :: u64
  sym_testing :: addr
  sym_hello_jr :: addr

record kernel =
  vm :: pt
  process_list :: "nat \<Rightarrow> process"
  proc_running :: nat
  processes_total :: int
  last_pid :: u32
  tf_user :: trap_frame
  tf_user_ptr :: addr
  tf_generic :: trap_frame
  timer_check :: u64
  mach :: machine

text \<open>
  How a function of the kernel ends: it returns; it enters user mode with \<open>sret\<close>, where the
  registers, the address space and the program counter are those of the frame; it powers the
  machine off; or it spins forever.
\<close>

datatype ctl = Returns | Resumes trap_frame | Off | Stalls

definition seq :: "(kernel \<Rightarrow> (ctl \<times> kernel) option) \<Rightarrow> (kernel \<Rightarrow> (ctl \<times> kernel) option) \<Rightarrow> kernel \<Rightarrow> (ctl \<times> kernel) option" where
  "seq f g k = do { (c, k) \<leftarrow> f k; if c = Returns then g k else Some (c, k) }"

section \<open>Access to the state\<close>

definition upd_vm :: "(pt \<Rightarrow> pt) \<Rightarrow> kernel \<Rightarrow> kernel" where
  "upd_vm f k = k\<lparr>vm := f (vm k)\<rparr>"

definition upd_mach :: "(machine \<Rightarrow> machine) \<Rightarrow> kernel \<Rightarrow> kernel" where
  "upd_mach f k = k\<lparr>mach := f (mach k)\<rparr>"

definition upd_proc :: "nat \<Rightarrow> (process \<Rightarrow> process) \<Rightarrow> kernel \<Rightarrow> kernel" where
  "upd_proc t f k = k\<lparr>process_list := (process_list k)(t := f (process_list k t))\<rparr>"

definition in_vm :: "(pt \<Rightarrow> ('a \<times> pt) option) \<Rightarrow> kernel \<Rightarrow> ('a \<times> kernel) option" where
  "in_vm f k = do { (r, v) \<leftarrow> f (vm k); Some (r, k\<lparr>vm := v\<rparr>) }"

definition kprinterr :: "string \<Rightarrow> kernel \<Rightarrow> kernel option" where
  "kprinterr s k = do { v \<leftarrow> printerr s (vm k); Some (k\<lparr>vm := v\<rparr>) }"

definition kprintstr :: "string \<Rightarrow> kernel \<Rightarrow> kernel option" where
  "kprintstr s k = do { v \<leftarrow> printstr s (vm k); Some (k\<lparr>vm := v\<rparr>) }"

definition kprintdbg :: "string \<Rightarrow> u64 \<Rightarrow> kernel \<Rightarrow> kernel option" where
  "kprintdbg s v k =
     do { out \<leftarrow> printdbg (lit s) v (console (vm k)); Some (upd_vm (\<lambda>st. st\<lparr>console := out\<rparr>) k) }"

fun print_list :: "(string \<times> u64) list \<Rightarrow> kernel \<Rightarrow> kernel option" where
  "print_list [] k = Some k"
| "print_list ((s, v) # xs) k = do { k \<leftarrow> kprintdbg s v k; print_list xs k }"

text \<open>Memory as the kernel sees it through its own addresses.\<close>

definition kmem :: "pt \<Rightarrow> mem" where
  "kmem st = (\<lambda>a. pmem st (kaddr st a))"

text \<open>
  The supervisor's registers are views of the machine's: \<open>sstatus\<close> of \<open>mstatus\<close>, \<open>sie\<close> and \<open>sip\<close> of
  \<open>mie\<close> and \<open>mip\<close> where \<open>mideleg\<close> delegates them. The timer bit of \<open>mip\<close> compares \<open>mtime\<close> and \<open>mtimecmp\<close>.
\<close>

abbreviation (input) SSTATUS_BITS :: u64 where "SSTATUS_BITS \<equiv> 0x80000003000DE762"

definition read_mstatus :: "kernel \<Rightarrow> u64" where
  "read_mstatus k = (csr_mstatus (mach k) AND NOT SSTATUS_BITS) OR (csr_sstatus (vm k) AND SSTATUS_BITS)"

definition write_mstatus :: "u64 \<Rightarrow> kernel \<Rightarrow> kernel" where
  "write_mstatus v k =
     upd_vm (\<lambda>st. st\<lparr>csr_sstatus := v AND SSTATUS_BITS\<rparr>) (upd_mach (\<lambda>m. m\<lparr>csr_mstatus := v\<rparr>) k)"

definition read_mip :: "kernel \<Rightarrow> u64" where
  "read_mip k = (csr_mip (mach k) AND NOT 0x80) OR (if mtimecmp (mach k) \<le> mtime (mach k) then 0x80 else 0)"

definition read_sip :: "kernel \<Rightarrow> u64" where
  "read_sip k = read_mip k AND csr_mideleg (mach k)"

definition read_sie :: "kernel \<Rightarrow> u64" where
  "read_sie k = csr_mie (mach k) AND csr_mideleg (mach k)"

definition write_sie :: "u64 \<Rightarrow> kernel \<Rightarrow> kernel" where
  "write_sie v = upd_mach (\<lambda>m. m\<lparr>csr_mie := (csr_mie m AND NOT (csr_mideleg m)) OR (v AND csr_mideleg m)\<rparr>)"

end
