(* ===== verification/Process.thy ===== *)
theory Process
  imports Kernel_State
begin

text \<open>
  \<^verbatim>\<open>process.c\<close>: the process table, creating and killing processes, the scheduler and the context
  switch. A function that ends in \<open>sret\<close> has the result \<open>Resumes\<close>.
\<close>

unbundle bit_operations_syntax

section \<open>The process table\<close>

definition proc_init_process_list :: "addr \<Rightarrow> kernel \<Rightarrow> kernel" where
  "proc_init_process_list ksatp_addr k =
     (let k = k\<lparr>process_list := (\<lambda>t. if t < MAX_PROCESSES
                 then (process_list k t)\<lparr>p_pid := 0, p_status := PROCESS_FREE_SLOT\<rparr> else process_list k t)\<rparr>
      in upd_proc 0 (\<lambda>p. p\<lparr>p_status := PROCESS_RESERVED, p_satp := ksatp_addr\<rparr>) k)"

function find_slot_loop :: "nat \<Rightarrow> kernel \<Rightarrow> nat" where
  "find_slot_loop count k =
     (if count < MAX_PROCESSES \<and> p_status (process_list k count) \<noteq> PROCESS_FREE_SLOT
      then find_slot_loop (count + 1) k else count)"
  by pat_completeness auto
termination
  by (relation "measure (\<lambda>(c, k). MAX_PROCESSES - c)") auto

declare find_slot_loop.simps [simp del]

definition proc_find_free_process_slot :: "kernel \<Rightarrow> int" where
  "proc_find_free_process_slot k =
     (if processes_total k = int MAX_PROCESSES then - 1
      else let count = find_slot_loop 1 k in if count = MAX_PROCESSES then - 1 else int count)"

definition proc_copy_frame :: "trap_frame \<Rightarrow> trap_frame \<Rightarrow> trap_frame" where
  "proc_copy_frame dst src =
     dst\<lparr>tf_ra := tf_ra src, tf_sp := tf_sp src, tf_gp := tf_gp src, tf_tp := tf_tp src, tf_t0 :=
          tf_t0 src, tf_t1 := tf_t1 src, tf_t2 := tf_t2 src, tf_s0 := tf_s0 src, tf_s1 := tf_s1
          src, tf_a0 := tf_a0 src, tf_a1 := tf_a1 src, tf_a2 := tf_a2 src, tf_a3 := tf_a3 src,
          tf_a4 := tf_a4 src, tf_a5 := tf_a5 src, tf_a6 := tf_a6 src, tf_a7 := tf_a7 src, tf_s2 :=
          tf_s2 src, tf_s3 := tf_s3 src, tf_s4 := tf_s4 src, tf_s5 := tf_s5 src, tf_s6 := tf_s6
          src, tf_s7 := tf_s7 src, tf_s8 := tf_s8 src, tf_s9 := tf_s9 src, tf_s10 := tf_s10 src,
          tf_s11 := tf_s11 src, tf_t3 := tf_t3 src, tf_t4 := tf_t4 src, tf_t5 := tf_t5 src, tf_t6
          := tf_t6 src, tf_satp := tf_satp src, tf_sepc := tf_sepc src\<rparr>"

definition proc_print_frame :: "trap_frame \<Rightarrow> kernel \<Rightarrow> kernel option" where
  "proc_print_frame src =
     (let tabs = [CHR 0x09, CHR 0x09]
      in print_list
        [(''sp: ''@ tabs, tf_sp src), (''ra: ''@ tabs, tf_ra src), (''t0: ''@ tabs, tf_t0 src),
         (''t1: ''@ tabs, tf_t1 src), (''t2: ''@ tabs, tf_t2 src), (''a0: ''@ tabs, tf_a0 src),
         (''a1: ''@ tabs, tf_a1 src), (''a2: ''@ tabs, tf_a2 src), (''a3: ''@ tabs, tf_a3 src),
         (''a4: ''@ tabs, tf_a4 src), (''a5: ''@ tabs, tf_a5 src), (''a6: ''@ tabs, tf_a6 src),
         (''a7: ''@ tabs, tf_a7 src), (''t3: ''@ tabs, tf_t3 src), (''t4: ''@ tabs, tf_t4 src),
         (''t5: ''@ tabs, tf_t5 src), (''t6: ''@ tabs, tf_t6 src), (''gp: ''@ tabs, tf_gp src),
         (''tp: ''@ tabs, tf_tp src), (''s0: ''@ tabs, tf_s0 src), (''s1: ''@ tabs, tf_s1 src),
         (''s2: ''@ tabs, tf_s2 src), (''s3: ''@ tabs, tf_s3 src), (''s4: ''@ tabs, tf_s4 src),
         (''s5: ''@ tabs, tf_s5 src), (''s6: ''@ tabs, tf_s6 src), (''s7: ''@ tabs, tf_s7 src),
         (''s8: ''@ tabs, tf_s8 src), (''s9: ''@ tabs, tf_s9 src), (''s1: ''@ tabs, tf_s10 src),
         (''s1: ''@ tabs, tf_s11 src), (''satp: ''@ tabs, tf_satp src), (''sepc: ''@ tabs, tf_sepc src)])"

section \<open>Scheduling\<close>

text \<open>\<open>context_switch\<close>: \<open>load_context\<close> resumes four bytes behind the saved program counter.\<close>

definition context_switch :: "kernel \<Rightarrow> (ctl \<times> kernel) option" where
  "context_switch k =
     do { ensure (proc_running k < MAX_PROCESSES);
          let f = p_tf (process_list k (proc_running k));
          let f = f\<lparr>tf_sepc := tf_sepc f + 4\<rparr>;
          Some (Resumes f, upd_vm (\<lambda>st. st\<lparr>csr_satp := tf_satp f\<rparr>) (upd_mach (\<lambda>m. m\<lparr>csr_sepc := tf_sepc f\<rparr>) k)) }"

text \<open>The search of \<open>proc_scheduler\<close>, entered with the index and the count before an iteration.\<close>

function scheduler_loop :: "nat \<Rightarrow> nat \<Rightarrow> kernel \<Rightarrow> nat \<times> nat" where
  "scheduler_loop i j k =
     (let i = (i + 1) mod MAX_PROCESSES; j = j + 1
      in if p_status (process_list k i) \<noteq> PROCESS_PAUSED \<and> j < MAX_PROCESSES then scheduler_loop i j k else (i, j))"
  by pat_completeness auto
termination
  by (relation "measure (\<lambda>(i, j, k). MAX_PROCESSES - j)") auto

declare scheduler_loop.simps [simp del]

definition proc_scheduler :: "kernel \<Rightarrow> (ctl \<times> kernel) option" where
  "proc_scheduler k =
     (let (i, j) = scheduler_loop (proc_running k) 0 k
      in if j = MAX_PROCESSES then
           do { k \<leftarrow> kprinterr ''ERROR: Attempted to find another process but only one was running :('' k;
                Some (Returns, k) }
         else
           let k = k\<lparr>proc_running := i\<rparr>
           in context_switch (upd_proc i (\<lambda>p. p\<lparr>p_status := PROCESS_RUNNING\<rparr>) k))"

section \<open>Killing a process\<close>

definition reset_elf_struct :: "elf_jake \<Rightarrow> elf_jake" where
  "reset_elf_struct out =
     out\<lparr>elf := (elf out)\<lparr>e_entry := 0, offset_load := 0, size_load := 0, elf_valid := 0, virtual_load := 0\<rparr>\<rparr>"

partial_function (option) kill_loop :: "addr \<Rightarrow> u64 \<Rightarrow> addr \<Rightarrow> pt \<Rightarrow> pt option" where
  "kill_loop uvmas satp node st =
     (if node \<noteq> uvmas then
        do { let uvma = vma_of node;
             let nx = nnext (vm_nodes st) node;
             st \<leftarrow> pt_vma_destroy satp uvma st;
             kill_loop uvmas satp nx st }
      else Some st)"

text \<open>The argument \<open>proc_index\<close> is not used: the running process is killed.\<close>

definition proc_kill_process :: "nat \<Rightarrow> kernel \<Rightarrow> kernel option" where
  "proc_kill_process proc_index k =
     do { let k = upd_vm (\<lambda>st. st\<lparr>csr_satp := ksatp st\<rparr>) k;
          let t = proc_running k;
          ensure (t < MAX_PROCESSES);
          let p = process_list k t;
          ensure (p_uvmas p \<noteq> NULL);
          v \<leftarrow> kill_loop (p_uvmas p) (p_satp p) (nnext (vm_nodes (vm k)) (p_uvmas p)) (vm k);
          Some (upd_proc t (\<lambda>p. p\<lparr>p_pid := 0, p_status := PROCESS_FREE_SLOT, p_uvmas := 0, p_satp := 0,
                  p_elf := (reset_elf_struct (p_elf p))\<lparr>ptr_elf := NULL\<rparr>\<rparr>) (k\<lparr>vm := v\<rparr>)) }"

section \<open>Creating a process\<close>

definition proc_setup_satp :: "u64 \<Rightarrow> u64 \<Rightarrow> u64" where
  "proc_setup_satp satp root_pt =
     (let satp = satp_set satp SATP_MODE_BARE SATP_MODE_MASK SATP_MODE_SHIFT;
          satp = satp_set satp (pte_get_ppn root_pt) SATP_PPN_MASK SATP_PPN_SHIFT
      in satp_set satp SATP_MODE_SV48 SATP_MODE_MASK SATP_MODE_SHIFT)"

definition proc_copy_kernel_pt :: "u64 \<Rightarrow> pt \<Rightarrow> pt" where
  "proc_copy_kernel_pt satp st =
     (let ptr_ksatp = kaddr st (satp2virt (ksatp st)); ptr_satp = kaddr st (satp2virt satp)
      in st\<lparr>pmem := memcpy (store64 (pmem st) ptr_satp 0) (ptr_satp + 8) (ptr_ksatp + 8) (1024 * 4 - 8)\<rparr>)"

text \<open>\<open>VERIFY_VMAS\<close>: complains about the flags of the two areas.\<close>

definition VERIFY_VMAS :: "addr \<Rightarrow> addr \<Rightarrow> kernel \<Rightarrow> kernel option" where
  "VERIFY_VMAS text_vma stack_vma k =
     do { k \<leftarrow> (if vm_flags (vm k) text_vma AND 0x4d \<noteq> 77
               then kprinterr (''ERROR: Text VMA flags are incorrect'' @ [CHR 0x0A]) k else Some k);
          if vm_flags (vm k) stack_vma AND 0x45 \<noteq> 69
          then kprinterr (''ERROR: Stack VMA flags are incorrect'' @ [CHR 0x0A]) k else Some k }"

text \<open>The number of pages is an \<open>int\<close>, which is converted to the \<open>size_t\<close> that \<open>pt_vma_new\<close> takes.\<close>

definition text_pages_needed :: "u64 \<Rightarrow> u64" where
  "text_pages_needed sz =
     (let n = ucast (sz div PAGE_SIZE) :: u32;
          n = (if sz mod PAGE_SIZE \<noteq> 0 then n + 1 else n)
      in scast n)"

definition fail_vmas :: "string \<Rightarrow> kernel \<Rightarrow> (addr \<times> kernel) option" where
  "fail_vmas s k = do { k \<leftarrow> kprinterr (s @ [CHR 0x0A]) k; Some (NULL, k) }"

definition proc_create_process_vmas :: "nat \<Rightarrow> elf_jake \<Rightarrow> kernel \<Rightarrow> (addr \<times> kernel) option" where
  "proc_create_process_vmas t e k =
     do { ensure (t < MAX_PROCESSES);
          (root_pt, k) \<leftarrow> in_vm pt_alloc_pt k;
          if root_pt = 0 then fail_vmas ''ERROR: null pointer to pt_alloc_pt.'' k
          else do {
            let k = upd_proc t (\<lambda>p. p\<lparr>p_satp := proc_setup_satp (p_satp p) root_pt\<rparr>) k;
            let satp = p_satp (process_list k t);
            let k = upd_vm (proc_copy_kernel_pt satp) k;
            ((r, head), k) \<leftarrow> in_vm (\<lambda>st. do { (r, p, st) \<leftarrow> pt_init_vmas_head st; Some ((r, p), st) }) k;
            let k = upd_proc t (\<lambda>p. p\<lparr>p_uvmas := head\<rparr>) k;
            if r < 0 then fail_vmas ''ERROR: init_head failed in proc_create_process_vmas.'' k
            else do {
              (text_vma, k) \<leftarrow> in_vm (pt_alloc_vma head) k;
              (stack_vma, k) \<leftarrow> in_vm (pt_alloc_vma head) k;
              if text_vma = NULL \<or> stack_vma = NULL
              then fail_vmas ''ERROR: pt_alloc_vma failed in proc_create_process_vma.'' k
              else do {
                let flags = VMA_READ OR VMA_WRITE OR VMA_EXEC OR VMA_USER;
                let vpn_stack = USER_STACK_BASE_VPN;
                let vpn_text = drop_bit PAGE_SHIFT (virtual_load (elf e));
                (c, k) \<leftarrow> in_vm (pt_vma_new satp vpn_text (text_pages_needed (size_load (elf e))) flags text_vma) k;
                if c < 0 then fail_vmas ''ERROR: pt_vma_new text failed.'' k
                else do {
                  (c, k) \<leftarrow> in_vm (pt_vma_new satp vpn_stack STACK_PAGES flags stack_vma) k;
                  if c < 0 then fail_vmas ''ERROR: pt_vma_new stack failed.'' k
                  else do {
                    k \<leftarrow> VERIFY_VMAS text_vma stack_vma k;
                    Some (vpn2virt vpn_stack, upd_vm (\<lambda>st. st\<lparr>csr_satp := satp\<rparr>) k) } } } } } }"

definition zero_frame :: trap_frame where
  "zero_frame = \<lparr>tf_sp = 0, tf_ra = 0, tf_t0 = 0, tf_t1 = 0, tf_t2 = 0, tf_a0 = 0, tf_a1 = 0, tf_a2 = 0,
      tf_a3 = 0, tf_a4 = 0, tf_a5 = 0, tf_a6 = 0, tf_a7 = 0, tf_t3 = 0, tf_t4 = 0, tf_t5 = 0,
      tf_t6 = 0, tf_satp = 0, tf_sepc = 0, tf_gp = 0, tf_tp = 0, tf_s0 = 0, tf_s1 = 0, tf_s2 =
      0, tf_s3 = 0, tf_s4 = 0, tf_s5 = 0, tf_s6 = 0, tf_s7 = 0, tf_s8 = 0, tf_s9 = 0, tf_s10 =
      0, tf_s11 = 0\<rparr>"

text \<open>
  \<open>proc_run_process\<close>: a negative number if no process was started; otherwise user mode is
  entered at the entry point with all registers zero except \<open>sp\<close> and \<open>a3\<close>.
\<close>

definition proc_run_process :: "addr \<Rightarrow> u64 \<Rightarrow> kernel \<Rightarrow> ((int + trap_frame) \<times> kernel) option" where
  "proc_run_process ptr a3 k =
     do { let k = upd_vm (\<lambda>st. st\<lparr>csr_satp := ksatp st\<rparr>) k;
          let slot = proc_find_free_process_slot k;
          if slot < 0 then Some (Inl slot, k)
          else do {
            let t = nat slot;
            let k = upd_proc t (\<lambda>p. p\<lparr>p_pid := last_pid k\<rparr>) k;
            let (r, e) = parse_elf (kmem (vm k)) ptr;
            if r \<noteq> 0 then Some (Inl (- 1), k)
            else do {
              (virt_stack, k) \<leftarrow> proc_create_process_vmas t e k;
              if virt_stack = NULL then Some (Inl (- 1), k)
              else do {
                let k = upd_proc t (\<lambda>p. p\<lparr>p_status := PROCESS_RUNNING\<rparr>) k;
                let k = k\<lparr>processes_total := processes_total k + 1, last_pid := last_pid k + 1, proc_running := t\<rparr>;
                let k = upd_proc t (\<lambda>p. p\<lparr>p_elf := e\<rparr>) k;
                let k = upd_mach (\<lambda>m. m\<lparr>csr_sepc := e_entry (elf e)\<rparr>) k;
                Some (Inr (zero_frame\<lparr>tf_a3 := a3, tf_sp := virt_stack + PAGE_SIZE * STACK_PAGES,
                        tf_satp := csr_satp (vm k), tf_sepc := e_entry (elf e)\<rparr>), k) } } } }"

section \<open>Loading code\<close>

text \<open>\<open>proc_copy_binary\<close>; \<open>page_index\<close> and the index of the last page are \<open>int\<close>s.\<close>

definition proc_copy_binary :: "addr \<Rightarrow> elf_jake \<Rightarrow> u32 \<Rightarrow> pt \<Rightarrow> (int \<times> pt) option" where
  "proc_copy_binary virt_text e page_index st =
     (if virt_text = NULL \<or> ptr_elf e = NULL then
        do { st \<leftarrow> printerr (''ERROR: null pointer to proc_copy_binary.'' @ [CHR 0x0A]) st; Some (- 1, st) }
      else
        let src = ptr_elf e + offset_load (elf e) + PAGE_SIZE * scast page_index;
            n = (if page_index = ucast (size_load (elf e) div PAGE_SIZE) then size_load (elf e) mod PAGE_SIZE else PAGE_SIZE)
        in Some (0, st\<lparr>pmem := memcpy (pmem st) (kaddr st virt_text) (kaddr st src) n\<rparr>))"

definition set_sscratch :: "kernel \<Rightarrow> kernel" where
  "set_sscratch k =
     (let tmp_scratch = VIRT_MEM_KERNEL_BASE + phys_end (layout (vm k)) + kstack_size (layout (vm k))
      in (upd_mach (\<lambda>m. m\<lparr>csr_sscratch := tmp_scratch\<rparr>) k)\<lparr>tf_user_ptr := tmp_scratch - 264\<rparr>)"

end
