(* ===== verification/Timer.thy ===== *)
theory Timer
  imports Process
begin

text \<open>\<^verbatim>\<open>timer.c\<close> and \<^verbatim>\<open>debug.c\<close>: programming the timer, and printing the registers.\<close>

unbundle bit_operations_syntax

section \<open>The timer\<close>

abbreviation (input) PERIOD_TIMER :: u64 where "PERIOD_TIMER \<equiv> 100000"
abbreviation (input) MIE :: u64 where "MIE \<equiv> 0x8"
abbreviation (input) SIE :: u64 where "SIE \<equiv> 0x2"
abbreviation (input) MTIE :: u64 where "MTIE \<equiv> 0x80"
abbreviation (input) STIE :: u64 where "STIE \<equiv> 0x20"
abbreviation (input) MASK_LOW :: u64 where "MASK_LOW \<equiv> 0xFFFFFFF"
abbreviation (input) MASK_HIGH :: u64 where "MASK_HIGH \<equiv> 0xFFFFFFFFFFFFFF"

definition increase_timer :: "kernel \<Rightarrow> kernel" where
  "increase_timer k =
     (let total = mtime (mach k) + PERIOD_TIMER;
          k = upd_mach (\<lambda>m. m\<lparr>mtimecmp := total AND MASK_LOW\<rparr>) k
      in upd_mach (\<lambda>m. m\<lparr>mtimecmp := total AND MASK_HIGH\<rparr>) k)"

definition timer_setup :: "kernel \<Rightarrow> kernel" where
  "timer_setup k =
     (let mstatus = read_mstatus k; mie = csr_mie (mach k); sie = read_sie k;
          k = write_mstatus (mstatus OR MIE OR SIE) k;
          k = upd_mach (\<lambda>m. m\<lparr>csr_mie := mie OR MTIE OR STIE\<rparr>) k;
          k = write_sie (sie OR MTIE OR STIE) k
      in increase_timer k)"

section \<open>Printing registers\<close>

abbreviation (input) bits_of :: "u64 \<Rightarrow> nat \<Rightarrow> u64 \<Rightarrow> u64" where
  "bits_of v n m \<equiv> drop_bit n (v AND push_bit n m)"

definition print_call_info :: "kernel \<Rightarrow> kernel option" where
  "print_call_info k =
     print_list
       [(''sstatus: '', csr_sstatus (vm k)), (''SPIE: '', csr_sstatus (vm k) AND 0x20),
        (''UPIE: '', csr_sstatus (vm k) AND 0x10), (''SPP: '', bits_of (csr_sstatus (vm k)) 8 1),
        (''sepc: '', csr_sepc (mach k)), (''stval: '', csr_stval (mach k)), (''sip: '', read_sip k),
        (''sie: '', read_sie k), (''scause: '', csr_scause (mach k)), (''sscratch: '', csr_sscratch (mach k)),
        (''sp: '', kreg (mach k) ''sp'')] k"

definition mprint_call_info :: "kernel \<Rightarrow> kernel option" where
  "mprint_call_info k =
     (let tab = [CHR 0x09]
      in print_list
       [(''sscratch: '', csr_sscratch (mach k)), (''mscratch: '', csr_mscratch (mach k)),
        (''sstatus: '', csr_sstatus (vm k)), (''sepc: '', csr_sepc (mach k)), (''mepc: '', csr_mepc (mach k)),
        (''stval: '', csr_stval (mach k)), (''mtval: '', csr_mtval (mach k)), (''sip: '', read_sip k),
        (''sie: '', read_sie k), (''mie: '', csr_mie (mach k)), (''mstatus: '', read_mstatus k),
        (''MPIE: '', read_mstatus k AND 0x80), (''SPIE: '', read_mstatus k AND 0x20),
        (''UPIE: '', read_mstatus k AND 0x10), (''SPP: '', bits_of (read_mstatus k) 8 1),
        (''MPP: '', bits_of (read_mstatus k) 11 3), (''mideleg: '', csr_mideleg (mach k)),
        (''medeleg: '', csr_medeleg (mach k)), (''mip: '', read_mip k), (''scause: '', csr_scause (mach k)),
        (''mcause: '', csr_mcause (mach k)), (''misa: '' @ tab @ tab, csr_misa (mach k)),
        (''mtime: '' @ tab @ tab, mtime (mach k)), (''mtimecmp: '' @ tab, mtimecmp (mach k)),
        (''satp: '', csr_satp (vm k))] k)"

definition print_all_registers :: "kernel \<Rightarrow> kernel option" where
  "print_all_registers k =
     do { k \<leftarrow> print_list
            (map (\<lambda>r. (r @ '': '', kreg (mach k) r))
               [''sp'', ''ra'', ''t0'', ''t1'', ''t2'', ''t3'', ''t4'', ''t5'', ''t6'', ''a0'', ''a1'', ''a2'', ''a3'',
                ''a4'', ''a5'', ''a6'', ''a7'', ''tp'', ''gp'', ''s1'']
             @ [(''sepc: '', csr_sepc (mach k)), (''satp: '', csr_satp (vm k))]) k;
          k \<leftarrow> kprintstr (''tf_user:'' @ [CHR 0x0A]) k;
          proc_print_frame (tf_user k) k }"

end
