(* ===== verification/Exception.thy ===== *)
theory Exception
  imports Timer
begin

text \<open>
  \<^verbatim>\<open>exception.c\<close> and the trampoline \<open>trap_handler_s\<close> of \<^verbatim>\<open>trap.S\<close>: machine calls, the timer
  interrupt, the system calls and page faults.
\<close>

unbundle bit_operations_syntax

section \<open>Machine mode\<close>

abbreviation (input) ENV_CALL :: u64 where "ENV_CALL \<equiv> 8 OR 9"
abbreviation (input) ECALL_CLEAR_TIMER_S :: u64 where "ECALL_CLEAR_TIMER_S \<equiv> 2"
abbreviation (input) ECALL_TURNOFF :: u64 where "ECALL_TURNOFF \<equiv> 4"
abbreviation (input) ECALL_TIMER_SETUP :: u64 where "ECALL_TIMER_SETUP \<equiv> 5"

definition trigger_timer_s :: "kernel \<Rightarrow> kernel" where
  "trigger_timer_s k = upd_mach (\<lambda>m. m\<lparr>csr_mip := read_mip k OR 0x20\<rparr>) k"

definition clear_timer_s :: "kernel \<Rightarrow> kernel" where
  "clear_timer_s k = upd_mach (\<lambda>m. m\<lparr>csr_mip := read_mip k AND NOT 0x20\<rparr>) k"

definition fix_mepc :: "kernel \<Rightarrow> kernel" where
  "fix_mepc = upd_mach (\<lambda>m. m\<lparr>csr_mepc := csr_mepc m + 4\<rparr>)"

definition fix_sepc :: "kernel \<Rightarrow> kernel" where
  "fix_sepc = upd_mach (\<lambda>m. m\<lparr>csr_sepc := csr_sepc m + 4\<rparr>)"

definition die_m :: "string \<Rightarrow> kernel \<Rightarrow> (ctl \<times> kernel) option" where
  "die_m s k =
     do { k \<leftarrow> kprinterr (s @ [CHR 0x0A]) k;
          k \<leftarrow> mprint_call_info k;
          k \<leftarrow> print_all_registers k;
          Some (Off, k) }"

definition mcall :: "trap_frame \<Rightarrow> kernel \<Rightarrow> (ctl \<times> kernel) option" where
  "mcall tpointer k =
     (let k = k\<lparr>tf_generic := tpointer\<rparr>
      in if read_mip k AND 0x80 = 0x80 then
           let mstatus = read_mstatus k; spp = bits_of mstatus 8 1; mpp = bits_of mstatus 11 3;
               k = increase_timer k
           in if mpp = 0 \<and> spp = 0 then Some (Returns, trigger_timer_s k)
              else if mpp = 3 then
                do { k \<leftarrow> kprinterr (''ERROR: Timer interrupt is too fast.'' @ [CHR 0x0A]) k; Some (Off, k) }
              else Some (Returns, k)
         else if csr_mcause (mach k) AND ENV_CALL = ENV_CALL then
           (if tf_a0 (tf_generic k) = ECALL_TIMER_SETUP then Some (Returns, fix_mepc (timer_setup k))
            else if tf_a0 (tf_generic k) = ECALL_CLEAR_TIMER_S then Some (Returns, fix_mepc (clear_timer_s k))
            else if tf_a0 (tf_generic k) = ECALL_TURNOFF then Some (Off, k)
            else die_m ''ERROR: unrecognized ECALL. Stalling.'' k)
         else die_m ''ERROR: Unknown event to machine handler. Stalling.'' k)"

text \<open>
  The instruction \<open>ecall\<close> in supervisor mode: the trap sets \<open>mcause\<close>, \<open>mepc\<close> and the previous mode,
  and \<open>mret\<close> goes back to \<open>mepc\<close>; when \<open>mcall\<close> leaves \<open>mepc\<close> at the instruction, it runs again.
\<close>

definition trap_m :: "kernel \<Rightarrow> kernel" where
  "trap_m k =
     write_mstatus ((read_mstatus k AND NOT 0x1800) OR 0x800)
       (upd_mach (\<lambda>m. m\<lparr>csr_mcause := 9, csr_mepc := ecall_pc m\<rparr>) k)"

partial_function (option) ecall :: "u64 \<Rightarrow> kernel \<Rightarrow> (ctl \<times> kernel) option" where
  "ecall ID k =
     do { (c, k) \<leftarrow> mcall ((tf_generic k)\<lparr>tf_a0 := ID, tf_a1 := 0, tf_a2 := 0\<rparr>) (trap_m k);
          if c = Returns \<and> csr_mepc (mach k) = ecall_pc (mach k) then ecall ID k else Some (c, k) }"

definition ecall_disable_tint :: "kernel \<Rightarrow> (ctl \<times> kernel) option" where
  "ecall_disable_tint = ecall ECALL_CLEAR_TIMER_S"

definition ecall_poweroff :: "kernel \<Rightarrow> (ctl \<times> kernel) option" where
  "ecall_poweroff = ecall ECALL_TURNOFF"

definition ecall_timer_setup :: "kernel \<Rightarrow> (ctl \<times> kernel) option" where
  "ecall_timer_setup = ecall ECALL_TIMER_SETUP"

definition proc_turnoff :: "kernel \<Rightarrow> (ctl \<times> kernel) option" where
  "proc_turnoff = ecall_poweroff"

section \<open>The timer interrupt\<close>

text \<open>A handler that returns a number (\<open>Inl\<close>), or does not return (\<open>Inr\<close>).\<close>

definition returning :: "int \<Rightarrow> (ctl \<times> kernel) option \<Rightarrow> ((int + ctl) \<times> kernel) option" where
  "returning r x = do { (c, k) \<leftarrow> x; Some (if c = Returns then Inl r else Inr c, k) }"

abbreviation (input) spp_set :: "kernel \<Rightarrow> bool" where
  "spp_set k \<equiv> bits_of (csr_sstatus (vm k)) 8 1 \<noteq> 0"

definition save_frame :: "kernel \<Rightarrow> kernel" where
  "save_frame k = upd_proc (proc_running k) (\<lambda>p. p\<lparr>p_tf := proc_copy_frame (p_tf p) (tf_user k)\<rparr>) k"

definition set_status :: "process_status \<Rightarrow> kernel \<Rightarrow> kernel" where
  "set_status s k = upd_proc (proc_running k) (\<lambda>p. p\<lparr>p_status := s\<rparr>) k"

definition timer_handler :: "kernel \<Rightarrow> ((int + ctl) \<times> kernel) option" where
  "timer_handler k =
     (if read_sip k AND 0x20 = 0x20 then
        if spp_set k then
          do { k \<leftarrow> kprinterr (''TIMER ERROR: this should not happen.'' @ [CHR 0x0A]) k; Some (Inr Stalls, k) }
        else do {
          (c, k) \<leftarrow> ecall_disable_tint k;
          if c \<noteq> Returns then Some (Inr c, k)
          else if processes_total k > 1 then
            do { ensure (proc_running k < MAX_PROCESSES);
                 let k = save_frame (k\<lparr>timer_check := 1\<rparr>);
                 let k = upd_proc (proc_running k) (\<lambda>p. p\<lparr>p_tf := (p_tf p)\<lparr>tf_sepc := tf_sepc (p_tf p) - 4\<rparr>\<rparr>) k;
                 returning 1 (proc_scheduler (set_status PROCESS_PAUSED k)) }
          else if processes_total k = 0 then
            do { k \<leftarrow> kprinterr (''TIMER ERROR: this should not happen.'' @ [CHR 0x0A]) k;
                 returning 1 (proc_turnoff k) }
          else Some (Inl 1, k) }
      else Some (Inl 0, k))"

section \<open>System calls\<close>

definition set_a3 :: "u64 \<Rightarrow> kernel \<Rightarrow> kernel" where
  "set_a3 v k = k\<lparr>tf_user := (tf_user k)\<lparr>tf_a3 := v\<rparr>\<rparr>"

definition scall_handler_print :: "kernel \<Rightarrow> kernel" where
  "scall_handler_print k = upd_vm (\<lambda>st. st\<lparr>console := put (ucast (tf_a1 (tf_user k))) (console st)\<rparr>) k"

definition scall_handler_end :: "kernel \<Rightarrow> (ctl \<times> kernel) option" where
  "scall_handler_end k =
     do { k \<leftarrow> proc_kill_process (proc_running k) k;
          let k = k\<lparr>processes_total := processes_total k - 1\<rparr>;
          if processes_total k = 0 then
            do { k \<leftarrow> kprintstr (''No more processes to run.'' @ [CHR 0x0A]) k;
                 seq proc_turnoff proc_scheduler k }
          else proc_scheduler k }"

definition scall_handler_execv :: "kernel \<Rightarrow> (ctl \<times> kernel) option" where
  "scall_handler_execv k =
     do { ensure (proc_running k < MAX_PROCESSES);
          let k = save_frame (set_a3 0 (set_status PROCESS_PAUSED k));
          let a1 = tf_a1 (tf_user k);
          seq (\<lambda>k. if a1 = 0 \<or> a1 = 1 then Some (Returns, k)
                else do { k \<leftarrow> kprinterr (''ERROR: Non-existing application.'' @ [CHR 0x0A]) k; ecall_poweroff k })
            (\<lambda>k. do {
              (r, k) \<leftarrow> proc_run_process
                (if a1 = 0 then sym_testing (mach k) else if a1 = 1 then sym_hello_jr (mach k) else NULL) (tf_a2 (tf_user k)) k;
              case r of
                Inr f \<Rightarrow> Some (Resumes f, k)
              | Inl n \<Rightarrow>
                  if n < 0 then
                    let k = set_a3 (- 1) k;
                        k = upd_vm (\<lambda>st. st\<lparr>csr_satp := p_satp (process_list k (proc_running k))\<rparr>) k
                    in Some (Returns, set_status PROCESS_RUNNING k)
                  else Some (Returns, k) }) k }"

definition scall_handler_yield :: "kernel \<Rightarrow> (ctl \<times> kernel) option" where
  "scall_handler_yield k =
     (if processes_total k \<le> 1 then
        do { k \<leftarrow> kprinterr ([CHR 0x0A, CHR 0x0A] @ ''Not more than one process is running, I was in scall_handler_yield :(''
                  @ [CHR 0x0A, CHR 0x0A]) k;
             Some (Returns, k) }
      else do {
        ensure (proc_running k < MAX_PROCESSES);
        proc_scheduler (save_frame (set_status PROCESS_PAUSED k)) })"

definition scall_handler_getpid :: "kernel \<Rightarrow> kernel" where
  "scall_handler_getpid k = set_a3 (ucast (p_pid (process_list k (proc_running k)))) k"

partial_function (option) free_vpn_loop :: "pt \<Rightarrow> addr \<Rightarrow> addr \<Rightarrow> u64 \<Rightarrow> u32 \<Rightarrow> (u64 \<times> u32) option" where
  "free_vpn_loop st head node max_vpn vpn_max_pagen =
     (if node \<noteq> head then
        (let uvma = vma_of node; nx = nnext (vm_nodes st) node
         in if vm_vpn st uvma \<noteq> USER_STACK_BASE_VPN \<and> vm_vpn st uvma \<ge> USER_HEAP_BASE_VPN
                \<and> vm_vpn st uvma > max_vpn
            then free_vpn_loop st head nx (vm_vpn st uvma) (ucast (vm_pagen st uvma))
            else free_vpn_loop st head nx max_vpn vpn_max_pagen)
      else Some (max_vpn, vpn_max_pagen))"

definition get_free_vpn :: "nat \<Rightarrow> kernel \<Rightarrow> u64 option" where
  "get_free_vpn t k =
     do { ensure (t < MAX_PROCESSES \<and> p_uvmas (process_list k t) \<noteq> NULL);
          (max_vpn, vpn_max_pagen) \<leftarrow> free_vpn_loop (vm k) (p_uvmas (process_list k (proc_running k)))
            (nnext (vm_nodes (vm k)) (p_uvmas (process_list k t))) 0 0;
          Some (if max_vpn = 0 then USER_HEAP_BASE_VPN else max_vpn + scast vpn_max_pagen) }"

definition scall_handler_mmap :: "kernel \<Rightarrow> kernel option" where
  "scall_handler_mmap k =
     do { ensure (proc_running k < MAX_PROCESSES);
          let p = process_list k (proc_running k);
          let flags = VMA_READ OR VMA_WRITE OR VMA_EXEC OR VMA_USER;
          vpn \<leftarrow> get_free_vpn (proc_running k) k;
          (new_vma, k) \<leftarrow> in_vm (pt_alloc_vma (p_uvmas p)) k;
          if new_vma = NULL then Some (set_a3 NULL k)
          else do {
            (ret, k) \<leftarrow> in_vm (pt_vma_new (p_satp p) vpn (tf_a1 (tf_user k)) flags new_vma) k;
            if ret < 0 then Some (set_a3 NULL k) else Some (set_a3 (vpn2virt vpn) k) } }"

definition scall_handler_timerstatus :: "kernel \<Rightarrow> kernel" where
  "scall_handler_timerstatus k = set_a3 (timer_check k) k"

abbreviation (input) SCALL_PRINT :: u64 where "SCALL_PRINT \<equiv> 1"
abbreviation (input) SCALL_END :: u64 where "SCALL_END \<equiv> 2"
abbreviation (input) SCALL_EXECV :: u64 where "SCALL_EXECV \<equiv> 3"
abbreviation (input) SCALL_YIELD :: u64 where "SCALL_YIELD \<equiv> 4"
abbreviation (input) SCALL_MMAP :: u64 where "SCALL_MMAP \<equiv> 5"
abbreviation (input) SCALL_GETPID :: u64 where "SCALL_GETPID \<equiv> 6"
abbreviation (input) SCALL_TIMERSTATUS :: u64 where "SCALL_TIMERSTATUS \<equiv> 7"

definition scall_handler :: "kernel \<Rightarrow> (ctl \<times> kernel) option" where
  "scall_handler k =
     (let k = set_a3 (- 1) k; a0 = tf_a0 (tf_user k)
      in if a0 = SCALL_PRINT then Some (Returns, scall_handler_print k)
         else if a0 = SCALL_END then scall_handler_end k
         else if a0 = SCALL_EXECV then scall_handler_execv k
         else if a0 = SCALL_YIELD then scall_handler_yield k
         else if a0 = SCALL_GETPID then Some (Returns, scall_handler_getpid k)
         else if a0 = SCALL_MMAP then do { k \<leftarrow> scall_handler_mmap k; Some (Returns, k) }
         else if a0 = SCALL_TIMERSTATUS then Some (Returns, scall_handler_timerstatus k)
         else do {
           k \<leftarrow> kprinterr (''Unknown syscall. Stalling.'' @ [CHR 0x0A]) k;
           k \<leftarrow> kprintdbg ''syscall: '' a0 k;
           k \<leftarrow> print_call_info k;
           ecall_poweroff k })"

section \<open>Page faults and the trap handler\<close>

abbreviation (input) ILLEGAL_INSTRUCTION :: u64 where "ILLEGAL_INSTRUCTION \<equiv> 2"
abbreviation (input) LOAD_ACCESS_FAULT :: u64 where "LOAD_ACCESS_FAULT \<equiv> 5"
abbreviation (input) STORE_AMO_ACCESS_FAULT :: u64 where "STORE_AMO_ACCESS_FAULT \<equiv> 7"
abbreviation (input) ENV_CALL_U :: u64 where "ENV_CALL_U \<equiv> 8"
abbreviation (input) ENV_CALL_S :: u64 where "ENV_CALL_S \<equiv> 9"
abbreviation (input) INSTRUCTION_PAGE_FAULT :: u64 where "INSTRUCTION_PAGE_FAULT \<equiv> 12"
abbreviation (input) LOAD_PAGE_FAULT :: u64 where "LOAD_PAGE_FAULT \<equiv> 13"
abbreviation (input) STORE_AMO_PAGE_FAULT :: u64 where "STORE_AMO_PAGE_FAULT \<equiv> 15"

definition vma_has_perm :: "vma \<Rightarrow> u64 \<Rightarrow> u32" where
  "vma_has_perm vma scause =
     (if scause = LOAD_ACCESS_FAULT \<or> scause = LOAD_PAGE_FAULT then ucast (v_flags vma AND VMA_READ)
      else if scause = STORE_AMO_ACCESS_FAULT \<or> scause = STORE_AMO_PAGE_FAULT then ucast (v_flags vma AND VMA_WRITE)
      else if scause = INSTRUCTION_PAGE_FAULT then ucast (v_flags vma AND VMA_EXEC)
      else 0)"

definition handle_text_demand :: "u64 \<Rightarrow> kernel \<Rightarrow> (int \<times> kernel) option" where
  "handle_text_demand stval k =
     do { ensure (proc_running k < MAX_PROCESSES);
          let p = process_list k (proc_running k);
          (virt_text, k) \<leftarrow> in_vm (get_kvirt (p_satp p) stval) k;
          let page_index = (ucast ((stval - virtual_load (elf (p_elf p))) div PAGE_SIZE) :: u32);
          (r, k) \<leftarrow> in_vm (proc_copy_binary virt_text (p_elf p) page_index) k;
          Some (if r \<noteq> 0 then - 1 else 0, k) }"

definition hlt :: "kernel \<Rightarrow> (ctl \<times> kernel) option" where
  "hlt k =
     do { let RED = [CHR 0x1B] @ ''[31m'';
          k \<leftarrow> kprinterr (''*** *** ***'' @ [CHR 0x0A]) k;
          k \<leftarrow> kprintstr RED k;
          k \<leftarrow> print_call_info k;
          k \<leftarrow> kprinterr (''frame that died:'' @ [CHR 0x0A]) k;
          k \<leftarrow> proc_print_frame (tf_user k) k;
          k \<leftarrow> kprintdbg (RED @ ''Process that was running: '') (of_nat (proc_running k)) k;
          k \<leftarrow> kprintdbg (RED @ ''Out of: '') (of_int (processes_total k)) k;
          k \<leftarrow> kprintdbg (RED @ ''PID: '') (ucast (p_pid (process_list k (proc_running k)))) k;
          k \<leftarrow> kprintstr ([CHR 0x1B] @ ''[0m'') k;
          k \<leftarrow> kprinterr (''*** hlt ***'' @ [CHR 0x0A]) k;
          ecall_poweroff k }"

definition err_hlt :: "string \<Rightarrow> kernel \<Rightarrow> (ctl \<times> kernel) option" where
  "err_hlt s k = do { k \<leftarrow> kprinterr (s @ [CHR 0x0A]) k; hlt k }"

text \<open>The case of \<open>scall\<close> for access and page faults.\<close>

definition page_fault :: "u64 \<Rightarrow> kernel \<Rightarrow> (ctl \<times> kernel) option" where
  "page_fault scause k =
     do { let spp = spp_set k;
          let satp = csr_satp (vm k);
          let stval = csr_stval (mach k);
          let vpn = virt2vpn stval;
          let p = process_list k (proc_running k);
          ensure (spp \<or> (proc_running k < MAX_PROCESSES \<and> p_uvmas p \<noteq> NULL));
          vma \<leftarrow> vpn2vma (if spp then kvmas_head (vm k) else p_uvmas p) vpn (vm k);
          if vma = NULL then err_hlt ''major pf'' k
          else if vma_has_perm (vma_at (vm k) vma) scause = 0 then err_hlt ''major pf'' k
          else do {
            (r, k) \<leftarrow> in_vm (pt_vma_map_page_at_vpn satp (vma_at (vm k) vma) vpn 0) k;
            if r \<le> 0 then err_hlt ''no resources'' k
            else if \<not> spp \<and> stval \<le> virtual_load (elf (p_elf p)) + size_load (elf (p_elf p))
                    \<and> stval \<ge> virtual_load (elf (p_elf p)) then
              do { (r, k) \<leftarrow> handle_text_demand stval k;
                   if r \<noteq> 0 then hlt k else Some (Returns, k) }
            else Some (Returns, k) } }"

definition scall :: "kernel \<Rightarrow> (ctl \<times> kernel) option" where
  "scall k =
     do { (r, k) \<leftarrow> timer_handler k;
          case r of
            Inr c \<Rightarrow> Some (c, k)
          | Inl n \<Rightarrow>
              if n \<noteq> 0 then Some (Returns, k)
              else
                let scause = csr_scause (mach k) AND NOT (push_bit 63 1)
                in if drop_bit 63 scause AND 1 \<noteq> 0 then err_hlt ''ERROR: Interrupt not implemented.'' k
                   else if scause = ILLEGAL_INSTRUCTION then
                     do { k \<leftarrow> kprinterr (''illegal instruction'' @ [CHR 0x0A]) k;
                          k \<leftarrow> print_all_registers k;
                          hlt k }
                   else if scause = ENV_CALL_U \<or> scause = ENV_CALL_S then
                     seq scall_handler (\<lambda>k. Some (Returns, fix_sepc k)) k
                   else if scause \<in> {LOAD_ACCESS_FAULT, LOAD_PAGE_FAULT, STORE_AMO_ACCESS_FAULT, STORE_AMO_PAGE_FAULT,
                       INSTRUCTION_PAGE_FAULT} then page_fault scause k
                   else do {
                     k \<leftarrow> kprinterr (''uncaught exception'' @ [CHR 0x0A]) k;
                     k \<leftarrow> kprintdbg ''scause: '' scause k;
                     hlt k } }"

text \<open>
  \<open>trap_handler_s\<close>: the registers are saved in \<open>tf_user\<close>; when \<open>scall\<close> returns they are loaded
  again, except for the program counter, which is what \<open>scall\<close> left in \<open>sepc\<close>.
\<close>

definition trap_handler_s :: "trap_frame \<Rightarrow> kernel \<Rightarrow> (ctl \<times> kernel) option" where
  "trap_handler_s regs k =
     do { let k = k\<lparr>tf_user := regs\<lparr>tf_satp := csr_satp (vm k), tf_sepc := csr_sepc (mach k)\<rparr>\<rparr>;
          (c, k) \<leftarrow> scall k;
          if c = Returns then
            let k = upd_vm (\<lambda>st. st\<lparr>csr_satp := tf_satp (tf_user k)\<rparr>) k
            in Some (Resumes ((tf_user k)\<lparr>tf_sepc := csr_sepc (mach k)\<rparr>), k)
          else Some (c, k) }"

end
