(* ===== verification/Traps.thy ===== *)
theory Traps
  imports Exception
begin

text \<open>
  What the kernel's helper functions leave alone. Printing, machine calls and everything that
  works on memory keep the process table, the running process and the saved user registers.
\<close>

unbundle bit_operations_syntax

section \<open>The process part of the state\<close>

definition keeps :: "kernel \<Rightarrow> kernel \<Rightarrow> bool" where
  "keeps k k' \<longleftrightarrow> process_list k' = process_list k \<and> proc_running k' = proc_running k
     \<and> processes_total k' = processes_total k \<and> last_pid k' = last_pid k \<and> tf_user k' = tf_user k
     \<and> timer_check k' = timer_check k"

lemma keeps_refl [simp]: "keeps k k"
  by (simp add: keeps_def)

lemma keeps_trans: "keeps k k' \<Longrightarrow> keeps k' k'' \<Longrightarrow> keeps k k''"
  by (simp add: keeps_def)

lemma keeps_upd [simp]:
  "keeps k0 (k\<lparr>vm := v\<rparr>) = keeps k0 k" "keeps k0 (k\<lparr>mach := m\<rparr>) = keeps k0 k" "keeps k0 (k\<lparr>tf_generic := f\<rparr>) = keeps k0 k"
  "keeps k0 (upd_vm g k) = keeps k0 k" "keeps k0 (upd_mach h k) = keeps k0 k" "keeps k0 (write_mstatus w k) = keeps k0 k"
  "keeps k0 (write_sie w k) = keeps k0 k" "keeps k0 (increase_timer k) = keeps k0 k" "keeps k0 (trigger_timer_s k) = keeps k0 k"
  "keeps k0 (clear_timer_s k) = keeps k0 k" "keeps k0 (fix_mepc k) = keeps k0 k" "keeps k0 (fix_sepc k) = keeps k0 k"
  "keeps k0 (trap_m k) = keeps k0 k" "keeps k0 (timer_setup k) = keeps k0 k"
  "keeps (k\<lparr>vm := v\<rparr>) k0 = keeps k k0" "keeps (k\<lparr>mach := m\<rparr>) k0 = keeps k k0" "keeps (k\<lparr>tf_generic := f\<rparr>) k0 = keeps k k0"
  "keeps (upd_vm g k) k0 = keeps k k0" "keeps (upd_mach h k) k0 = keeps k k0" "keeps (write_mstatus w k) k0 = keeps k k0"
  "keeps (write_sie w k) k0 = keeps k k0" "keeps (increase_timer k) k0 = keeps k k0" "keeps (trigger_timer_s k) k0 = keeps k k0"
  "keeps (clear_timer_s k) k0 = keeps k k0" "keeps (fix_mepc k) k0 = keeps k k0" "keeps (fix_sepc k) k0 = keeps k k0"
  "keeps (trap_m k) k0 = keeps k k0" "keeps (timer_setup k) k0 = keeps k k0"
  by (simp_all add: keeps_def upd_vm_def upd_mach_def write_mstatus_def write_sie_def increase_timer_def
      trigger_timer_s_def clear_timer_s_def fix_mepc_def fix_sepc_def trap_m_def timer_setup_def Let_def)

lemma keeps_print:
  "kprinterr s k = Some k' \<Longrightarrow> keeps k k'" "kprintstr s k = Some k' \<Longrightarrow> keeps k k'"
  "kprintdbg s v k = Some k' \<Longrightarrow> keeps k k'"
  by (auto simp: kprinterr_def kprintstr_def kprintdbg_def split: bind_splits)

lemma keeps_print_list: "print_list xs k = Some k' \<Longrightarrow> keeps k k'"
proof (induction xs k rule: print_list.induct)
  case (2 s v xs k)
  then obtain k1 where "kprintdbg s v k = Some k1" "print_list xs k1 = Some k'" by (auto split: bind_splits)
  then show ?case using 2(1) keeps_print(3) keeps_trans by blast
qed simp

lemma keeps_in_vm: "in_vm f k = Some (r, k') \<Longrightarrow> keeps k k'"
  by (auto simp: in_vm_def split: bind_splits)

lemma keeps_printers:
  "proc_print_frame f k = Some k' \<Longrightarrow> keeps k k'" "print_call_info k = Some k' \<Longrightarrow> keeps k k'"
  "mprint_call_info k = Some k' \<Longrightarrow> keeps k k'" "print_all_registers k = Some k' \<Longrightarrow> keeps k k'"
proof -
  show p: "proc_print_frame f k = Some k' \<Longrightarrow> keeps k k'" for f k k'
    unfolding proc_print_frame_def Let_def by (rule keeps_print_list)
  show "print_call_info k = Some k' \<Longrightarrow> keeps k k'" "mprint_call_info k = Some k' \<Longrightarrow> keeps k k'"
    unfolding print_call_info_def mprint_call_info_def Let_def by (rule keeps_print_list, assumption)+
  show "print_all_registers k = Some k' \<Longrightarrow> keeps k k'"
    unfolding print_all_registers_def
    by (auto simp del: print_list.simps map_append list.map split: bind_splits
        dest!: p keeps_print_list keeps_print intro: keeps_trans)
qed

section \<open>Machine calls\<close>

lemma keeps_die_m: "die_m s k = Some (c, k') \<Longrightarrow> keeps k k' \<and> c = Off"
  by (auto simp: die_m_def split: bind_splits dest!: keeps_print keeps_printers intro: keeps_trans)

lemma keeps_mcall:
  assumes "mcall f k = Some (c, k')"
  shows "keeps k k'"
proof -
  let ?k = "k\<lparr>tf_generic := f\<rparr>"
  have "keeps ?k k'"
    using assms unfolding mcall_def Let_def
    by (auto split: if_splits bind_splits dest!: keeps_print keeps_die_m intro: keeps_trans)
  then show ?thesis by (simp add: keeps_def)
qed

lemma keeps_ecall: "ecall ID k = Some (c, k') \<Longrightarrow> keeps k k'"
proof -
  have "keeps k (snd r)" if "ecall ID k = Some r" for ID k r
    using that
  proof (rule ecall.raw_induct [rotated])
    fix ec ID k r
    assume IH: "\<And>ID k r. ec ID k = Some r \<Longrightarrow> keeps k (snd r)"
      and r: "mcall ((tf_generic k)\<lparr>tf_a0 := ID, tf_a1 := 0, tf_a2 := 0\<rparr>) (trap_m k) \<bind>
        (\<lambda>(c, k). if c = Returns \<and> csr_mepc (mach k) = ecall_pc (mach k) then ec ID k else Some (c, k)) = Some r"
    then obtain c k1 where m: "mcall ((tf_generic k)\<lparr>tf_a0 := ID, tf_a1 := 0, tf_a2 := 0\<rparr>) (trap_m k) = Some (c, k1)"
      by (auto split: bind_splits)
    have "keeps k k1" using keeps_mcall [OF m] by simp
    then show "keeps k (snd r)" using r m IH keeps_trans by (fastforce split: if_splits)
  qed
  then show "ecall ID k = Some (c, k') \<Longrightarrow> keeps k k'" by fastforce
qed

lemma read_write_mstatus [simp]: "read_mstatus (write_mstatus v k) = v"
  by (rule bit_word_eqI) (auto simp: read_mstatus_def write_mstatus_def upd_vm_def upd_mach_def bit_simps)

lemma field_set: "((x AND NOT m) OR a) AND m = (a :: u64) AND m"
  by (rule bit_word_eqI) (auto simp: bit_simps)

lemma and_cleared: "(x AND NOT m) AND m = (0 :: u64)"
  by (rule bit_word_eqI) (auto simp: bit_simps)

lemma trap_m_mpp: "bits_of (read_mstatus (trap_m k)) 11 3 = 1"
proof -
  have "((read_mstatus k AND NOT 0x1800) OR 0x800) AND 0x1800 = 0x800" unfolding field_set by simp
  then show ?thesis by (simp add: trap_m_def)
qed

lemma trap_m_mach [simp]: "csr_mcause (mach (trap_m k)) = 9" "csr_mepc (mach (trap_m k)) = ecall_pc (mach k)"
  "ecall_pc (mach (trap_m k)) = ecall_pc (mach k)" "mtime (mach (trap_m k)) = mtime (mach k)"
  "mtimecmp (mach (trap_m k)) = mtimecmp (mach k)" "csr_mip (mach (trap_m k)) = csr_mip (mach k)"
  by (simp_all add: trap_m_def write_mstatus_def upd_vm_def upd_mach_def)

text \<open>\<open>mcall\<close> as it is entered from \<open>ecall\<close>: a pending machine timer is served first.\<close>

lemma mcall_ecall:
  assumes "f = (tf_generic k)\<lparr>tf_a0 := ID, tf_a1 := 0, tf_a2 := 0\<rparr>"
  shows "mtimecmp (mach k) \<le> mtime (mach k) \<Longrightarrow>
      mcall f (trap_m k) = Some (Returns, increase_timer ((trap_m k)\<lparr>tf_generic := f\<rparr>))"
    and "\<not> mtimecmp (mach k) \<le> mtime (mach k) \<Longrightarrow> ID = ECALL_CLEAR_TIMER_S \<Longrightarrow>
      mcall f (trap_m k) = Some (Returns, fix_mepc (clear_timer_s ((trap_m k)\<lparr>tf_generic := f\<rparr>)))"
    and "\<not> mtimecmp (mach k) \<le> mtime (mach k) \<Longrightarrow> ID = ECALL_TURNOFF \<Longrightarrow>
      mcall f (trap_m k) = Some (Off, (trap_m k)\<lparr>tf_generic := f\<rparr>)"
    and "\<not> mtimecmp (mach k) \<le> mtime (mach k) \<Longrightarrow> ID = ECALL_TIMER_SETUP \<Longrightarrow>
      mcall f (trap_m k) = Some (Returns, fix_mepc (timer_setup ((trap_m k)\<lparr>tf_generic := f\<rparr>)))"
proof -
  let ?k = "(trap_m k)\<lparr>tf_generic := f\<rparr>"
  have mip: "read_mip ?k AND 0x80 = 0x80 \<longleftrightarrow> mtimecmp (mach k) \<le> mtime (mach k)"
    unfolding read_mip_def field_set by simp
  have mpp: "bits_of (read_mstatus ?k) 11 3 = 1" using trap_m_mpp [of k] by (simp add: read_mstatus_def)
  have a0: "tf_a0 f = ID" by (simp add: assms)
  show "mtimecmp (mach k) \<le> mtime (mach k) \<Longrightarrow>
      mcall f (trap_m k) = Some (Returns, increase_timer ?k)"
    using mip mpp unfolding mcall_def Let_def by simp
  show "\<not> mtimecmp (mach k) \<le> mtime (mach k) \<Longrightarrow> ID = ECALL_CLEAR_TIMER_S \<Longrightarrow>
      mcall f (trap_m k) = Some (Returns, fix_mepc (clear_timer_s ?k))"
    "\<not> mtimecmp (mach k) \<le> mtime (mach k) \<Longrightarrow> ID = ECALL_TURNOFF \<Longrightarrow>
      mcall f (trap_m k) = Some (Off, ?k)"
    "\<not> mtimecmp (mach k) \<le> mtime (mach k) \<Longrightarrow> ID = ECALL_TIMER_SETUP \<Longrightarrow>
      mcall f (trap_m k) = Some (Returns, fix_mepc (timer_setup ?k))"
    using mip unfolding mcall_def Let_def by (simp_all add: a0)
qed

text \<open>The compare register is 56 bits wide after \<open>increase_timer\<close>, so the time must not be close to that.\<close>

definition time_ok :: "kernel \<Rightarrow> bool" where
  "time_ok k \<longleftrightarrow> unat (mtime (mach k)) + 100000 < 2 ^ 56"

lemma increase_timer_later:
  assumes "time_ok k"
  shows "mtimecmp (mach (increase_timer k)) = mtime (mach k) + PERIOD_TIMER"
    and "\<not> mtimecmp (mach (increase_timer k)) \<le> mtime (mach k)"
proof -
  have u: "unat (mtime (mach k) + 100000) = unat (mtime (mach k)) + 100000"
    using assms by (simp add: time_ok_def unat_add_64)
  have m: "(0xFFFFFFFFFFFFFF :: u64) = mask 56" by (simp add: mask_eq_exp_minus_1)
  have "(mtime (mach k) + 100000) AND mask 56 = mtime (mach k) + 100000"
    using assms by (simp add: u64_eq_iff unat_and_mask_64 u time_ok_def)
  then show c: "mtimecmp (mach (increase_timer k)) = mtime (mach k) + PERIOD_TIMER"
    by (simp add: increase_timer_def Let_def upd_mach_def m)
  show "\<not> mtimecmp (mach (increase_timer k)) \<le> mtime (mach k)"
    unfolding c by (simp add: word_le_nat_alt u)
qed

text \<open>What a machine call leaves alone besides \<open>keeps\<close>.\<close>

definition same_traps :: "kernel \<Rightarrow> kernel \<Rightarrow> bool" where
  "same_traps k k' \<longleftrightarrow> csr_sepc (mach k') = csr_sepc (mach k) \<and> csr_scause (mach k') = csr_scause (mach k)
     \<and> csr_stval (mach k') = csr_stval (mach k) \<and> csr_mideleg (mach k') = csr_mideleg (mach k)
     \<and> mtime (mach k') = mtime (mach k) \<and> ecall_pc (mach k') = ecall_pc (mach k)
     \<and> sym_testing (mach k') = sym_testing (mach k) \<and> sym_hello_jr (mach k') = sym_hello_jr (mach k)
     \<and> (\<exists>s. vm k' = (vm k)\<lparr>csr_sstatus := s\<rparr>)"

lemma same_traps_trans: "same_traps k k' \<Longrightarrow> same_traps k' k'' \<Longrightarrow> same_traps k k''"
  by (auto simp: same_traps_def)

lemma same_traps_upd:
  "same_traps k (increase_timer ((trap_m k)\<lparr>tf_generic := f\<rparr>))"
  "same_traps k (fix_mepc (clear_timer_s ((trap_m k)\<lparr>tf_generic := f\<rparr>)))"
  by (auto simp: same_traps_def increase_timer_def fix_mepc_def clear_timer_s_def trap_m_def write_mstatus_def
      upd_mach_def upd_vm_def Let_def)

lemma ecall_pending:
  assumes "mtimecmp (mach k) \<le> mtime (mach k)"
  shows "\<exists>k1. ecall ID k = ecall ID k1 \<and> keeps k k1 \<and> same_traps k k1
    \<and> (time_ok k \<longrightarrow> \<not> mtimecmp (mach k1) \<le> mtime (mach k1))"
proof -
  let ?f = "(tf_generic k)\<lparr>tf_a0 := ID, tf_a1 := 0, tf_a2 := 0\<rparr>"
  let ?k = "(trap_m k)\<lparr>tf_generic := ?f\<rparr>"
  let ?k1 = "increase_timer ?k"
  have "csr_mepc (mach ?k1) = ecall_pc (mach ?k1)"
    by (simp add: increase_timer_def upd_mach_def Let_def)
  then have "ecall ID k = ecall ID ?k1"
    by (subst ecall.simps) (simp add: mcall_ecall(1) [OF refl assms])
  moreover have "mtime (mach ?k1) = mtime (mach k)" by (simp add: increase_timer_def upd_mach_def Let_def)
  moreover have "time_ok k \<Longrightarrow> time_ok ?k" by (simp add: time_ok_def)
  ultimately show ?thesis
    using increase_timer_later(2) [of ?k] same_traps_upd(1) [of k ?f] by (intro exI [of _ ?k1]) auto
qed

lemma ecall_now:
  assumes "\<not> mtimecmp (mach k) \<le> mtime (mach k)"
  shows "\<exists>k'. ecall ECALL_CLEAR_TIMER_S k = Some (Returns, k') \<and> keeps k k' \<and> same_traps k k'
      \<and> csr_mip (mach k') AND 0x20 = 0"
    and "\<exists>k'. ecall ECALL_TURNOFF k = Some (Off, k')"
proof -
  let ?f = "\<lambda>ID. (tf_generic k)\<lparr>tf_a0 := ID, tf_a1 := 0, tf_a2 := 0\<rparr>"
  let ?k = "(trap_m k)\<lparr>tf_generic := ?f ECALL_CLEAR_TIMER_S\<rparr>"
  let ?k1 = "fix_mepc (clear_timer_s ?k)"
  have "csr_mepc (mach ?k1) = ecall_pc (mach ?k1) + 4"
    by (simp add: fix_mepc_def clear_timer_s_def upd_mach_def)
  then have "ecall ECALL_CLEAR_TIMER_S k = Some (Returns, ?k1)"
    by (subst ecall.simps) (simp add: mcall_ecall(2) [OF refl assms refl])
  moreover have "csr_mip (mach ?k1) AND 0x20 = 0"
    using and_cleared [of "read_mip ?k" 32] by (simp add: fix_mepc_def clear_timer_s_def upd_mach_def)
  ultimately show "\<exists>k'. ecall ECALL_CLEAR_TIMER_S k = Some (Returns, k') \<and> keeps k k' \<and> same_traps k k'
      \<and> csr_mip (mach k') AND 0x20 = 0"
    using same_traps_upd(2) [of k "?f ECALL_CLEAR_TIMER_S"] by (intro exI [of _ ?k1]) simp
  show "\<exists>k'. ecall ECALL_TURNOFF k = Some (Off, k')"
    by (subst ecall.simps) (simp add: mcall_ecall(3) [OF refl assms refl])
qed

lemma ecall_clear:
  assumes "time_ok k"
  shows "\<exists>k'. ecall ECALL_CLEAR_TIMER_S k = Some (Returns, k') \<and> keeps k k' \<and> same_traps k k'
      \<and> csr_mip (mach k') AND 0x20 = 0"
proof (cases "mtimecmp (mach k) \<le> mtime (mach k)")
  case True
  from ecall_pending [OF True, of ECALL_CLEAR_TIMER_S] assms
  obtain k1 where k1: "ecall ECALL_CLEAR_TIMER_S k = ecall ECALL_CLEAR_TIMER_S k1" "keeps k k1" "same_traps k k1"
    "\<not> mtimecmp (mach k1) \<le> mtime (mach k1)" by blast
  from ecall_now(1) [OF k1(4)] obtain k2 where "ecall ECALL_CLEAR_TIMER_S k1 = Some (Returns, k2)" "keeps k1 k2"
    "same_traps k1 k2" "csr_mip (mach k2) AND 0x20 = 0" by blast
  then show ?thesis using k1(1) keeps_trans [OF k1(2)] same_traps_trans [OF k1(3)] by (intro exI [of _ k2]) simp
next
  case False
  then show ?thesis by (rule ecall_now(1))
qed

lemma ecall_off: "time_ok k \<Longrightarrow> \<exists>k'. ecall ECALL_TURNOFF k = Some (Off, k')"
  using ecall_pending [of k ECALL_TURNOFF] ecall_now(2) [of k] ecall_now(2)
  by (cases "mtimecmp (mach k) \<le> mtime (mach k)") force+

text \<open>The power-off call never returns to its caller.\<close>

lemma ecall_off_only: "ecall ECALL_TURNOFF k = Some (c, k') \<Longrightarrow> c = Off"
proof -
  have "ID = ECALL_TURNOFF \<longrightarrow> fst r = Off" if "ecall ID k = Some r" for ID k r
    using that
  proof (rule ecall.raw_induct [rotated])
    fix ec ID k r
    assume IH: "\<And>ID k r. ec ID k = Some r \<Longrightarrow> ID = ECALL_TURNOFF \<longrightarrow> fst r = Off"
      and r: "mcall ((tf_generic k)\<lparr>tf_a0 := ID, tf_a1 := 0, tf_a2 := 0\<rparr>) (trap_m k) \<bind>
        (\<lambda>(c, k). if c = Returns \<and> csr_mepc (mach k) = ecall_pc (mach k) then ec ID k else Some (c, k)) = Some r"
    show "ID = ECALL_TURNOFF \<longrightarrow> fst r = Off"
    proof (cases "mtimecmp (mach k) \<le> mtime (mach k)")
      case True
      then show ?thesis using r IH unfolding mcall_ecall(1) [OF refl True]
        by (auto simp: increase_timer_def upd_mach_def Let_def)
    next
      case False
      then show ?thesis using r mcall_ecall(3) [OF refl False] by auto
    qed
  qed
  then show "ecall ECALL_TURNOFF k = Some (c, k') \<Longrightarrow> c = Off" by fastforce
qed

lemma ecall_ctl: "ecall ID k = Some (c, k') \<Longrightarrow> c = Returns \<or> c = Off"
proof -
  have m: "c = Returns \<or> c = Off" if "mcall f k = Some (c, k')" for f k c k'
    using that by (auto simp: mcall_def Let_def split: if_splits bind_splits dest: keeps_die_m)
  have "fst r = Returns \<or> fst r = Off" if "ecall ID k = Some r" for ID k r
    using that
    by (rule ecall.raw_induct [rotated]) ((auto split: bind_splits if_splits)[1], (metis m)+)
  then show "ecall ID k = Some (c, k') \<Longrightarrow> c = Returns \<or> c = Off" by fastforce
qed

end
