(* ===== verification/Scheduler.thy ===== *)
theory Scheduler
  imports Traps
begin

text \<open>
  The scheduler refines a queue. The waiting processes, in the order in which the search of
  \<open>proc_scheduler\<close> meets them, form a queue; a process that gives up the processor goes to its
  end and the process at its head runs next.
\<close>

section \<open>Cyclic order\<close>

abbreviation (input) slot_after :: "nat \<Rightarrow> nat \<Rightarrow> nat" where
  "slot_after r d \<equiv> (r + d) mod MAX_PROCESSES"

definition cyc :: "nat \<Rightarrow> nat list" where
  "cyc r = map (slot_after r) [1..<MAX_PROCESSES]"

lemma slot_after_inj:
  assumes "d < MAX_PROCESSES" "e < MAX_PROCESSES" "slot_after r d = slot_after r e"
  shows "d = e"
proof -
  have "256 dvd int d - int e"
    using arg_cong [OF assms(3), of int] by (simp add: of_nat_mod mod_eq_dvd_iff)
  moreover have "\<bar>int d - int e\<bar> < 256" using assms(1,2) by linarith
  ultimately have "int d - int e = 0" using zdvd_imp_le [of 256 "\<bar>int d - int e\<bar>"] by fastforce
  then show ?thesis by simp
qed

lemma map_add_upt_from: "map (\<lambda>e. e + n) [a..<b] = [a + n..<b + n]"
  by (rule nth_equalityI) auto

lemma upt_three: "1 \<le> d \<Longrightarrow> d < n \<Longrightarrow> [1 + d..<n + d] = [Suc d..<n] @ n # [Suc n..<n + d]"
  using upt_add_eq_append [of "1 + d" n d] by (simp add: upt_conv_Cons)

lemma upt_split: "1 \<le> d \<Longrightarrow> d < n \<Longrightarrow> [1..<n] = [1..<d] @ d # [Suc d..<n]"
  using upt_add_eq_append [of 1 d "n - d"] by (simp add: upt_conv_Cons)

lemma cyc_next:
  assumes "r < MAX_PROCESSES" "1 \<le> d" "d < MAX_PROCESSES"
  shows "cyc (slot_after r d) = map (slot_after r) [Suc d..<MAX_PROCESSES] @ r # map (slot_after r) [1..<d]"
proof -
  have "cyc (slot_after r d) = map (\<lambda>e. slot_after r (e + d)) [1..<MAX_PROCESSES]"
    by (simp add: cyc_def mod_simps ac_simps)
  also have "\<dots> = map (slot_after r) (map (\<lambda>e. e + d) [1..<MAX_PROCESSES])" by simp
  also have "map (\<lambda>e. e + d) [1..<MAX_PROCESSES] = [1 + d..<MAX_PROCESSES + d]" by (rule map_add_upt_from)
  also have "\<dots> = [Suc d..<MAX_PROCESSES] @ MAX_PROCESSES # [Suc MAX_PROCESSES..<MAX_PROCESSES + d]"
    by (rule upt_three [OF assms(2,3)])
  also have "[Suc MAX_PROCESSES..<MAX_PROCESSES + d] = map (\<lambda>e. e + MAX_PROCESSES) [1..<d]"
    using map_add_upt_from [of MAX_PROCESSES 1 d] by (simp add: add.commute)
  finally show ?thesis using assms(1) by (simp flip: add.assoc)
qed

section \<open>The queue\<close>

definition waiting :: "(nat \<Rightarrow> process) \<Rightarrow> nat \<Rightarrow> nat list" where
  "waiting ps r = filter (\<lambda>t. p_status (ps t) = PROCESS_PAUSED) (cyc r)"

abbreviation run_queue :: "kernel \<Rightarrow> nat list" where
  "run_queue k \<equiv> waiting (process_list k) (proc_running k)"

lemma filter_Cons_split:
  assumes "filter P (map f [a..<b]) = t # ts"
  shows "\<exists>d. a \<le> d \<and> d < b \<and> t = f d \<and> P (f d) \<and> (\<forall>e \<in> {a..<d}. \<not> P (f e)) \<and> ts = filter P (map f [Suc d..<b])"
  using assms
proof (induction "b - a" arbitrary: a)
  case (Suc n)
  then have ab: "a < b" by simp
  show ?case
  proof (cases "P (f a)")
    case True
    then show ?thesis using Suc.prems ab by (intro exI [of _ a]) (simp add: upt_conv_Cons)
  next
    case False
    have "n = b - Suc a" "filter P (map f [Suc a..<b]) = t # ts"
      using False Suc.hyps(2) Suc.prems ab by (auto simp: upt_conv_Cons)
    from Suc.hyps(1) [OF this] obtain d where "Suc a \<le> d" "d < b" "t = f d" "P (f d)" "\<forall>e \<in> {Suc a..<d}. \<not> P (f e)"
        "ts = filter P (map f [Suc d..<b])" by blast
    moreover have "\<forall>e \<in> {a..<d}. \<not> P (f e)"
      using calculation(5) False by (metis Suc_leI atLeastLessThan_iff le_neq_implies_less)
    ultimately show ?thesis by (intro exI [of _ d]) auto
  qed
qed simp

text \<open>The search stops at the head of the queue, or after a full round when the queue is empty.\<close>

lemma scheduler_loop_found:
  assumes "j < d" "d < MAX_PROCESSES" "p_status (process_list k (slot_after r d)) = PROCESS_PAUSED"
    and "\<forall>e \<in> {Suc j..<d}. p_status (process_list k (slot_after r e)) \<noteq> PROCESS_PAUSED"
  shows "scheduler_loop (slot_after r j) j k = (slot_after r d, d)"
  using assms
proof (induction "d - j" arbitrary: j)
  case (Suc n)
  have nx: "(slot_after r j + 1) mod MAX_PROCESSES = slot_after r (Suc j)" by (simp add: mod_simps)
  show ?case
  proof (cases "Suc j = d")
    case True
    then show ?thesis using Suc.prems(3) by (subst scheduler_loop.simps) (simp only: nx Let_def, simp)
  next
    case False
    then have "p_status (process_list k (slot_after r (Suc j))) \<noteq> PROCESS_PAUSED" "Suc j < d"
      using Suc.prems(1,4) bspec [OF Suc.prems(4), of "Suc j"] by simp_all
    then show ?thesis
      using Suc.hyps(1) [of "Suc j"] Suc.hyps(2) Suc.prems by (subst scheduler_loop.simps) (simp only: nx Let_def, simp)
  qed
qed simp

lemma scheduler_loop_none:
  assumes "j < MAX_PROCESSES" "r < MAX_PROCESSES"
    and "\<forall>e \<in> {Suc j..<MAX_PROCESSES}. p_status (process_list k (slot_after r e)) \<noteq> PROCESS_PAUSED"
  shows "scheduler_loop (slot_after r j) j k = (r, MAX_PROCESSES)"
  using assms
proof (induction "MAX_PROCESSES - j" arbitrary: j)
  case (Suc n)
  have nx: "(slot_after r j + 1) mod MAX_PROCESSES = slot_after r (Suc j)" by (simp add: mod_simps)
  show ?case
  proof (cases "Suc j = MAX_PROCESSES")
    case True
    then have j: "j = 255" by simp
    show ?thesis using assms(2) unfolding j by (subst scheduler_loop.simps) (simp add: Let_def mod_simps)
  next
    case False
    then have "p_status (process_list k (slot_after r (Suc j))) \<noteq> PROCESS_PAUSED" "Suc j < MAX_PROCESSES"
      using Suc.prems(1) bspec [OF Suc.prems(3), of "Suc j"] by simp_all
    then show ?thesis
      using Suc.hyps(1) [of "Suc j"] Suc.hyps(2) Suc.prems by (subst scheduler_loop.simps) (simp only: nx Let_def, simp)
  qed
qed simp

lemma waiting_Cons:
  assumes "waiting ps r = t # ts"
  obtains d where "1 \<le> d" "d < MAX_PROCESSES" "t = slot_after r d" "p_status (ps t) = PROCESS_PAUSED"
    "\<forall>e \<in> {1..<d}. p_status (ps (slot_after r e)) \<noteq> PROCESS_PAUSED"
    "ts = filter (\<lambda>t. p_status (ps t) = PROCESS_PAUSED) (map (slot_after r) [Suc d..<MAX_PROCESSES])"
  using filter_Cons_split [OF assms [unfolded waiting_def cyc_def]] by blast

lemma cyc_set:
  assumes r: "r < MAX_PROCESSES"
  shows "set (cyc r) = {t. t < MAX_PROCESSES \<and> t \<noteq> r}"
proof (intro set_eqI iffI)
  fix t assume "t \<in> set (cyc r)"
  then obtain d where "1 \<le> d" "d < MAX_PROCESSES" "t = slot_after r d" by (auto simp: cyc_def)
  then show "t \<in> {t. t < MAX_PROCESSES \<and> t \<noteq> r}" using slot_after_inj [of d 0 r] r by auto
next
  fix t assume t: "t \<in> {t. t < MAX_PROCESSES \<and> t \<noteq> r}"
  define d where "d = (if r < t then t - r else t + 256 - r)"
  have "1 \<le> d" "d < MAX_PROCESSES" "t = slot_after r d" using t r by (auto simp: d_def)
  then show "t \<in> set (cyc r)" by (auto simp: cyc_def)
qed

lemma waiting_set:
  "r < MAX_PROCESSES \<Longrightarrow> set (waiting ps r) = {t. t < MAX_PROCESSES \<and> t \<noteq> r \<and> p_status (ps t) = PROCESS_PAUSED}"
  by (auto simp: waiting_def cyc_set)

text \<open>The effect on the queue of switching to its head, with or without requeueing the old process.\<close>

lemma waiting_switch:
  assumes "waiting ps r = t # ts" "r < MAX_PROCESSES"
    and "p_status (ps' t) \<noteq> PROCESS_PAUSED" "\<And>u. u \<noteq> t \<Longrightarrow> u \<noteq> r \<Longrightarrow> u < MAX_PROCESSES \<Longrightarrow> p_status (ps' u) = p_status (ps u)"
  shows "waiting ps' t = (if p_status (ps' r) = PROCESS_PAUSED then ts @ [r] else ts)"
proof -
  let ?P = "\<lambda>t. p_status (ps t) = PROCESS_PAUSED" and ?P' = "\<lambda>t. p_status (ps' t) = PROCESS_PAUSED"
  obtain d where d: "1 \<le> d" "d < MAX_PROCESSES" "t = slot_after r d" "\<forall>e \<in> {1..<d}. \<not> ?P (slot_after r e)"
    "ts = filter ?P (map (slot_after r) [Suc d..<MAX_PROCESSES])"
    using waiting_Cons [OF assms(1)] by blast
  have r: "r = slot_after r 0" using assms(2) by simp
  have same: "?P' (slot_after r e) = ?P (slot_after r e)" if "e < MAX_PROCESSES" "e \<noteq> d" "e \<noteq> 0" for e
  proof -
    have "slot_after r e \<noteq> t" "slot_after r e \<noteq> slot_after r 0"
      using slot_after_inj [of e d r] slot_after_inj [of e 0 r] that d(2,3) by auto
    then show ?thesis using assms(4) [of "slot_after r e"] r by simp
  qed
  have "filter ?P' (map (slot_after r) [Suc d..<MAX_PROCESSES]) = ts"
    unfolding d(5) by (rule filter_cong) (auto simp: same)
  moreover have "filter ?P' (map (slot_after r) [1..<d]) = []"
    using d(2,4) same by (auto simp: filter_empty_conv)
  ultimately show ?thesis
    unfolding waiting_def d(3) cyc_next [OF assms(2) d(1,2)] by simp
qed


section \<open>The invariant of the process table\<close>

text \<open>Exactly one process runs, slot 0 is the kernel's, and \<open>processes_total\<close> counts the live processes.\<close>

definition sched_inv :: "kernel \<Rightarrow> bool" where
  "sched_inv k \<longleftrightarrow> proc_running k < MAX_PROCESSES \<and> p_status (process_list k 0) = PROCESS_RESERVED
     \<and> p_status (process_list k (proc_running k)) = PROCESS_RUNNING
     \<and> (\<forall>t < MAX_PROCESSES. t \<noteq> proc_running k \<longrightarrow> p_status (process_list k t) \<noteq> PROCESS_RUNNING)
     \<and> processes_total k = 1 + int (length (run_queue k))"

lemma sched_inv_keeps: "keeps k k' \<Longrightarrow> sched_inv k \<Longrightarrow> sched_inv k'"
  by (simp add: sched_inv_def keeps_def)

definition resume_frame :: "process \<Rightarrow> trap_frame" where
  "resume_frame p = (p_tf p)\<lparr>tf_sepc := tf_sepc (p_tf p) + 4\<rparr>"

lemma waiting_cong:
  assumes "r < MAX_PROCESSES" "\<And>t. t < MAX_PROCESSES \<Longrightarrow> t \<noteq> r \<Longrightarrow> p_status (ps' t) = p_status (ps t)"
  shows "waiting ps' r = waiting ps r"
  unfolding waiting_def by (rule filter_cong) (use assms in \<open>auto simp: cyc_set\<close>)

lemma proc_scheduler_head:
  assumes "proc_running k < MAX_PROCESSES" "run_queue k = t # ts"
  shows "\<exists>k'. proc_scheduler k = Some (Resumes (resume_frame (process_list k t)), k')
    \<and> process_list k' = (process_list k)(t := (process_list k t)\<lparr>p_status := PROCESS_RUNNING\<rparr>)
    \<and> proc_running k' = t \<and> processes_total k' = processes_total k \<and> last_pid k' = last_pid k
    \<and> vm k' = (vm k)\<lparr>csr_satp := tf_satp (p_tf (process_list k t))\<rparr> \<and> tf_user k' = tf_user k"
proof -
  obtain d where d: "1 \<le> d" "d < MAX_PROCESSES" "t = slot_after (proc_running k) d"
    "p_status (process_list k t) = PROCESS_PAUSED"
    "\<forall>e \<in> {1..<d}. p_status (process_list k (slot_after (proc_running k) e)) \<noteq> PROCESS_PAUSED"
    using waiting_Cons [OF assms(2)] by blast
  have "scheduler_loop (slot_after (proc_running k) 0) 0 k = (slot_after (proc_running k) d, d)"
    by (rule scheduler_loop_found) (use d in auto)
  then have "scheduler_loop (proc_running k) 0 k = (t, d)" using assms(1) d(3) by simp
  moreover have "t < MAX_PROCESSES" using d(3) by simp
  ultimately show ?thesis
    using d(2) by (simp add: proc_scheduler_def context_switch_def upd_proc_def upd_vm_def upd_mach_def resume_frame_def Let_def)
qed

lemma proc_scheduler_empty:
  assumes "proc_running k < MAX_PROCESSES" "run_queue k = []"
  shows "\<exists>v. proc_scheduler k = Some (Returns, k\<lparr>vm := v\<rparr>)"
proof -
  have "\<forall>e \<in> {Suc 0..<MAX_PROCESSES}. p_status (process_list k (slot_after (proc_running k) e)) \<noteq> PROCESS_PAUSED"
    using assms(2) by (simp add: waiting_def cyc_def filter_empty_conv)
  then have "scheduler_loop (slot_after (proc_running k) 0) 0 k = (proc_running k, MAX_PROCESSES)"
    by (intro scheduler_loop_none) (use assms(1) in auto)
  then have "scheduler_loop (proc_running k) 0 k = (proc_running k, MAX_PROCESSES)" using assms(1) by simp
  moreover obtain xs where "printerr ''ERROR: Attempted to find another process but only one was running :('' (vm k)
      = Some ((vm k)\<lparr>console := console (vm k) @ xs\<rparr>)"
    using printerr_console [of "''ERROR: Attempted to find another process but only one was running :(''" "vm k"] by auto
  ultimately show ?thesis by (auto simp: proc_scheduler_def kprinterr_def)
qed

text \<open>The running process leaves the processor: paused, or for good.\<close>

lemma scheduler_next:
  assumes inv: "sched_inv k" and q: "run_queue k = t # ts"
    and k1: "process_list k1 = (process_list k)(proc_running k := p)" "proc_running k1 = proc_running k"
      "processes_total k1 = processes_total k - of_bool (p_status p \<noteq> PROCESS_PAUSED)"
    and p: "p_status p = PROCESS_PAUSED \<or> p_status p = PROCESS_FREE_SLOT"
  shows "\<exists>k'. proc_scheduler k1 = Some (Resumes (resume_frame (process_list k t)), k') \<and> sched_inv k'
    \<and> proc_running k' = t \<and> run_queue k' = (if p_status p = PROCESS_PAUSED then ts @ [proc_running k] else ts)
    \<and> process_list k' = (process_list k)(proc_running k := p, t := (process_list k t)\<lparr>p_status := PROCESS_RUNNING\<rparr>)
    \<and> last_pid k' = last_pid k1 \<and> vm k' = (vm k1)\<lparr>csr_satp := tf_satp (p_tf (process_list k t))\<rparr> \<and> tf_user k' = tf_user k1"
proof -
  let ?r = "proc_running k"
  have r: "?r < MAX_PROCESSES" "p_status (process_list k ?r) = PROCESS_RUNNING" "?r \<noteq> 0"
    using inv by (auto simp: sched_inv_def)
  have "t \<in> set (run_queue k)" by (simp add: q)
  then have t: "t < MAX_PROCESSES" "t \<noteq> ?r" "p_status (process_list k t) = PROCESS_PAUSED"
    unfolding waiting_set [OF r(1)] by auto
  have "run_queue k1 = t # ts"
    unfolding k1(2) q [symmetric] by (rule waiting_cong [OF r(1)]) (simp add: k1(1))
  then obtain k' where k': "proc_scheduler k1 = Some (Resumes (resume_frame (process_list k t)), k')"
    "process_list k' = (process_list k)(?r := p, t := (process_list k t)\<lparr>p_status := PROCESS_RUNNING\<rparr>)"
    "proc_running k' = t" "processes_total k' = processes_total k1" "last_pid k' = last_pid k1"
    "vm k' = (vm k1)\<lparr>csr_satp := tf_satp (p_tf (process_list k t))\<rparr>"
    "tf_user k' = tf_user k1"
    using proc_scheduler_head [of k1 t ts] r(1) k1 t(2) by auto
  have w: "run_queue k' = (if p_status p = PROCESS_PAUSED then ts @ [?r] else ts)"
  proof -
    have "waiting (process_list k') t = (if p_status (process_list k' ?r) = PROCESS_PAUSED then ts @ [?r] else ts)"
      by (rule waiting_switch [OF q r(1)]) (use t(2) k'(2) in auto)
    then show ?thesis using k'(2,3) t(2) by simp
  qed
  moreover have "sched_inv k'"
    using inv p t r(3) k'(2-4) k1(3) q w unfolding sched_inv_def by auto
  ultimately show ?thesis using k' by blast
qed

end
