(* ===== verification/Handlers.thy ===== *)
theory Handlers
  imports Scheduler
begin

text \<open>
  The trap handlers and the process table: for every way a handler can end, what happened to
  the running process, to the queue and to the saved registers of the other processes.
\<close>

unbundle bit_operations_syntax

lemma seq_Some: "seq f g k = Some (c, k') \<longleftrightarrow>
    (\<exists>d k0. f k = Some (d, k0) \<and> (if d = Returns then g k0 = Some (c, k') else d = c \<and> k0 = k'))"
  by (auto simp: seq_def split: bind_splits if_splits)

lemma proc_copy_frame_eq [simp]: "proc_copy_frame dst src = src"
  by (simp add: proc_copy_frame_def)

section \<open>Giving up the processor\<close>

text \<open>The running process, stopped with the registers \<open>f\<close>.\<close>

definition stopped :: "kernel \<Rightarrow> trap_frame \<Rightarrow> process" where
  "stopped k f = (process_list k (proc_running k))\<lparr>p_tf := f, p_status := PROCESS_PAUSED\<rparr>"

lemma process_commute: "p\<lparr>p_status := s, p_tf := f\<rparr> = (p\<lparr>p_tf := f, p_status := s\<rparr> :: process)"
  by (cases p) simp

lemma status_stopped [simp]: "p_status (stopped k f) = PROCESS_PAUSED"
  by (simp add: stopped_def)

definition switched :: "kernel \<Rightarrow> process \<Rightarrow> nat \<Rightarrow> kernel \<Rightarrow> bool" where
  "switched k p t k' \<longleftrightarrow> sched_inv k' \<and> proc_running k' = t \<and> run_queue k' = tl (run_queue k) @ [proc_running k]
     \<and> process_list k' = (process_list k)(proc_running k := p, t := (process_list k t)\<lparr>p_status := PROCESS_RUNNING\<rparr>)"

lemma scheduler_mideleg:
  "proc_scheduler k = Some (c, k') \<Longrightarrow> csr_mideleg (mach k') = csr_mideleg (mach k)"
  by (auto simp: proc_scheduler_def context_switch_def upd_vm_def upd_mach_def upd_proc_def kprinterr_def Let_def
      split: prod.splits if_splits bind_splits)

lemma yield_switches:
  assumes "sched_inv k" "run_queue k = t # ts"
  shows "\<exists>k'. scall_handler_yield k = Some (Resumes (resume_frame (process_list k t)), k')
    \<and> switched k (stopped k (tf_user k)) t k' \<and> csr_mideleg (mach k') = csr_mideleg (mach k)"
proof -
  let ?p = "stopped k (tf_user k)"
  let ?k1 = "save_frame (set_status PROCESS_PAUSED k)"
  have k1: "process_list ?k1 = (process_list k)(proc_running k := ?p)" "proc_running ?k1 = proc_running k"
    "processes_total ?k1 = processes_total k - of_bool (p_status ?p \<noteq> PROCESS_PAUSED)"
    by (simp_all add: save_frame_def set_status_def upd_proc_def stopped_def process_commute)
  have "scall_handler_yield k = proc_scheduler ?k1"
    using assms by (simp add: scall_handler_yield_def sched_inv_def)
  moreover have "mach ?k1 = mach k" by (simp add: save_frame_def set_status_def upd_proc_def)
  moreover obtain k' where k': "proc_scheduler ?k1 = Some (Resumes (resume_frame (process_list k t)), k')"
    "switched k ?p t k'"
    using scheduler_next [OF assms k1] assms(2) by (auto simp: switched_def)
  ultimately show ?thesis using scheduler_mideleg [OF k'(1)] by auto
qed

lemma yield_alone:
  assumes "sched_inv k" "run_queue k = []"
  shows "\<exists>v. scall_handler_yield k = Some (Returns, k\<lparr>vm := v\<rparr>)"
proof -
  obtain xs where "printerr ([CHR 0x0A, CHR 0x0A] @ ''Not more than one process is running, I was in scall_handler_yield :(''
      @ [CHR 0x0A, CHR 0x0A]) (vm k) = Some ((vm k)\<lparr>console := console (vm k) @ xs\<rparr>)"
    using printerr_console [of "[CHR 0x0A, CHR 0x0A] @ ''Not more than one process is running, I was in scall_handler_yield :(''
      @ [CHR 0x0A, CHR 0x0A]" "vm k"] by auto
  then show ?thesis using assms by (auto simp: scall_handler_yield_def sched_inv_def kprinterr_def)
qed

text \<open>The state in which \<open>timer_handler\<close> calls the scheduler.\<close>

definition preempted :: "kernel \<Rightarrow> kernel" where
  "preempted k = set_status PROCESS_PAUSED (upd_proc (proc_running k)
     (\<lambda>p. p\<lparr>p_tf := (p_tf p)\<lparr>tf_sepc := tf_sepc (p_tf p) - 4\<rparr>\<rparr>) (save_frame (k\<lparr>timer_check := 1\<rparr>)))"

lemma timer_handler_preempts:
  assumes "read_sip k AND 0x20 = 0x20" "\<not> spp_set k" "ecall ECALL_CLEAR_TIMER_S k = Some (Returns, k0)"
    "processes_total k0 > 1" "proc_running k0 < MAX_PROCESSES"
  shows "timer_handler k = returning 1 (proc_scheduler (preempted k0))"
  using assms by (simp add: timer_handler_def ecall_disable_tint_def Let_def save_frame_def upd_proc_def preempted_def)

lemma preempted_switches:
  assumes "sched_inv k" "run_queue k = t # ts" "keeps k k0"
  shows "\<exists>k'. proc_scheduler (preempted k0) = Some (Resumes (resume_frame (process_list k t)), k')
    \<and> switched k (stopped k ((tf_user k)\<lparr>tf_sepc := tf_sepc (tf_user k) - 4\<rparr>)) t k'"
proof -
  let ?p = "stopped k ((tf_user k)\<lparr>tf_sepc := tf_sepc (tf_user k) - 4\<rparr>)"
  have k1: "process_list (preempted k0) = (process_list k)(proc_running k := ?p)" "proc_running (preempted k0) = proc_running k"
    "processes_total (preempted k0) = processes_total k - of_bool (p_status ?p \<noteq> PROCESS_PAUSED)"
    using assms(3) by (simp_all add: preempted_def save_frame_def set_status_def upd_proc_def keeps_def stopped_def)
  show ?thesis using scheduler_next [OF assms(1,2) k1] assms(2) by (auto simp: switched_def)
qed

lemma timer_switches:
  assumes "sched_inv k" "run_queue k = t # ts" "time_ok k" "read_sip k AND 0x20 = 0x20" "\<not> spp_set k"
  shows "\<exists>k'. timer_handler k = Some (Inr (Resumes (resume_frame (process_list k t))), k')
    \<and> switched k (stopped k ((tf_user k)\<lparr>tf_sepc := tf_sepc (tf_user k) - 4\<rparr>)) t k'
    \<and> csr_mideleg (mach k') = csr_mideleg (mach k)"
proof -
  obtain k0 where k0: "ecall ECALL_CLEAR_TIMER_S k = Some (Returns, k0)" "keeps k k0" "same_traps k k0"
    using ecall_clear [OF assms(3)] by blast
  have m: "csr_mideleg (mach (preempted k0)) = csr_mideleg (mach k)"
    using k0(3) by (simp add: same_traps_def preempted_def set_status_def upd_proc_def save_frame_def)
  have "processes_total k0 > 1" "proc_running k0 < MAX_PROCESSES"
    using assms(1,2) k0(2) by (auto simp: sched_inv_def keeps_def)
  then have t: "timer_handler k = returning 1 (proc_scheduler (preempted k0))"
    by (rule timer_handler_preempts [OF assms(4,5) k0(1)])
  obtain k' where k': "proc_scheduler (preempted k0) = Some (Resumes (resume_frame (process_list k t)), k')"
    "switched k (stopped k ((tf_user k)\<lparr>tf_sepc := tf_sepc (tf_user k) - 4\<rparr>)) t k'"
    using preempted_switches [OF assms(1,2) k0(2)] by blast
  show ?thesis using t k' m scheduler_mideleg [OF k'(1)] by (auto simp: returning_def)
qed

lemma timer_alone:
  assumes "sched_inv k" "run_queue k = []" "time_ok k" "read_sip k AND 0x20 = 0x20" "\<not> spp_set k"
  shows "\<exists>k'. timer_handler k = Some (Inl 1, k') \<and> keeps k k' \<and> same_traps k k'"
proof -
  obtain k0 where k0: "ecall ECALL_CLEAR_TIMER_S k = Some (Returns, k0)" "keeps k k0" "same_traps k k0"
    using ecall_clear [OF assms(3)] by blast
  have "processes_total k0 = 1" using assms(1,2) k0(2) by (auto simp: sched_inv_def keeps_def)
  then show ?thesis
    using assms(4,5) k0 by (simp add: timer_handler_def ecall_disable_tint_def)
qed

section \<open>Ending a process\<close>

lemma kill_frees_slot:
  assumes "proc_kill_process i k = Some k1"
  shows "\<exists>p. p_status p = PROCESS_FREE_SLOT \<and> process_list k1 = (process_list k)(proc_running k := p)
    \<and> proc_running k1 = proc_running k \<and> processes_total k1 = processes_total k \<and> tf_user k1 = tf_user k"
  using assms
  by (intro exI [of _ "process_list k1 (proc_running k)"])
    (auto simp: proc_kill_process_def upd_proc_def upd_vm_def Let_def split: bind_splits)

lemma end_result:
  assumes "sched_inv k" "scall_handler_end k = Some (c, k')"
  shows "(run_queue k = [] \<and> c = Off) \<or> (\<exists>t ts p. run_queue k = t # ts \<and> c = Resumes (resume_frame (process_list k t))
    \<and> sched_inv k' \<and> proc_running k' = t \<and> run_queue k' = ts \<and> p_status p = PROCESS_FREE_SLOT
    \<and> process_list k' = (process_list k)(proc_running k := p, t := (process_list k t)\<lparr>p_status := PROCESS_RUNNING\<rparr>))"
proof -
  obtain k1 where k1: "proc_kill_process (proc_running k) k = Some k1"
    and c: "(let k = k1\<lparr>processes_total := processes_total k1 - 1\<rparr> in if processes_total k = 0 then
            do { k \<leftarrow> kprintstr (''No more processes to run.'' @ [CHR 0x0A]) k; seq proc_turnoff proc_scheduler k }
          else proc_scheduler k) = Some (c, k')"
    using assms(2) by (auto simp: scall_handler_end_def split: bind_splits)
  obtain p where p: "p_status p = PROCESS_FREE_SLOT" "process_list k1 = (process_list k)(proc_running k := p)"
    "proc_running k1 = proc_running k" "processes_total k1 = processes_total k"
    using kill_frees_slot [OF k1] by blast
  show ?thesis
  proof (cases "run_queue k")
    case Nil
    then have "processes_total k1 = 1" using assms(1) p(4) by (simp add: sched_inv_def)
    then have "c = Off"
      using c by (auto simp: seq_def proc_turnoff_def ecall_poweroff_def split: bind_splits if_splits dest: ecall_off_only)
    then show ?thesis using Nil by simp
  next
    case (Cons t ts)
    let ?k1 = "k1\<lparr>processes_total := processes_total k1 - 1\<rparr>"
    have "processes_total k1 - 1 \<noteq> 0" using Cons assms(1) p(4) by (simp add: sched_inv_def)
    then have c': "proc_scheduler ?k1 = Some (c, k')" using c by simp
    have "process_list ?k1 = (process_list k)(proc_running k := p)" "proc_running ?k1 = proc_running k"
      "processes_total ?k1 = processes_total k - of_bool (p_status p \<noteq> PROCESS_PAUSED)"
      using p by simp_all
    from scheduler_next [OF assms(1) Cons this] c' p(1) Cons show ?thesis by auto
  qed
qed

section \<open>Starting a process\<close>

lemma find_slot_loop_spec:
  assumes "count \<le> MAX_PROCESSES"
  shows "count \<le> find_slot_loop count k \<and> find_slot_loop count k \<le> MAX_PROCESSES
    \<and> (\<forall>t \<in> {count..<find_slot_loop count k}. p_status (process_list k t) \<noteq> PROCESS_FREE_SLOT)
    \<and> (find_slot_loop count k < MAX_PROCESSES \<longrightarrow> p_status (process_list k (find_slot_loop count k)) = PROCESS_FREE_SLOT)"
  using assms
proof (induction count k rule: find_slot_loop.induct)
  case (1 count k)
  show ?case
  proof (cases "count < MAX_PROCESSES \<and> p_status (process_list k count) \<noteq> PROCESS_FREE_SLOT")
    case True
    have e: "find_slot_loop count k = find_slot_loop (count + 1) k"
      using True by (subst find_slot_loop.simps) simp
    have ivl: "{count..<n} \<subseteq> insert count {count + 1..<n}" for n by auto
    show ?thesis unfolding e using 1(1) [OF True] True ivl by fastforce
  next
    case False
    then have "find_slot_loop count k = count" by (subst find_slot_loop.simps) auto
    then show ?thesis using False 1(2) by auto
  qed
qed

lemma find_slot_spec:
  "(proc_find_free_process_slot k = - 1
      \<and> (processes_total k = int MAX_PROCESSES \<or> (\<forall>t \<in> {1..<MAX_PROCESSES}. p_status (process_list k t) \<noteq> PROCESS_FREE_SLOT)))
   \<or> (\<exists>t. proc_find_free_process_slot k = int t \<and> 1 \<le> t \<and> t < MAX_PROCESSES
      \<and> p_status (process_list k t) = PROCESS_FREE_SLOT
      \<and> (\<forall>u \<in> {1..<t}. p_status (process_list k u) \<noteq> PROCESS_FREE_SLOT))"
  using find_slot_loop_spec [of 1 k] by (auto simp: proc_find_free_process_slot_def Let_def)

text \<open>Only the new slot changes, and it stays free until the process is started.\<close>

definition prepares :: "nat \<Rightarrow> kernel \<Rightarrow> kernel \<Rightarrow> bool" where
  "prepares t k k' \<longleftrightarrow> (\<forall>u. u \<noteq> t \<longrightarrow> process_list k' u = process_list k u)
     \<and> p_status (process_list k' t) = p_status (process_list k t) \<and> proc_running k' = proc_running k
     \<and> processes_total k' = processes_total k \<and> tf_user k' = tf_user k"

lemma prepares_trans: "prepares t k k' \<Longrightarrow> prepares t k' k'' \<Longrightarrow> prepares t k k''"
  by (simp add: prepares_def)

lemma keeps_prepares: "keeps k k' \<Longrightarrow> prepares t k k'"
  by (simp add: prepares_def keeps_def)

lemma prepares_upd [simp]: "prepares t k (upd_vm f k') = prepares t k k'" "prepares t (upd_vm f k') k = prepares t k' k"
  "(\<And>p. p_status (g p) = p_status p) \<Longrightarrow> prepares t k (upd_proc t g k') = prepares t k k'"
  "(\<And>p. p_status (g p) = p_status p) \<Longrightarrow> prepares t (upd_proc t g k') k = prepares t k' k"
  "prepares t k k"
  by (auto simp: prepares_def upd_vm_def upd_proc_def)

lemma prepares_in_vm: "in_vm f k = Some (r, k') \<Longrightarrow> prepares t k k'"
  by (rule keeps_prepares [OF keeps_in_vm])

lemma prepares_fail: "fail_vmas s k = Some (r, k') \<Longrightarrow> prepares t k k' \<and> r = NULL"
  by (auto simp: fail_vmas_def split: bind_splits dest!: keeps_print intro: keeps_prepares)

lemma prepares_verify: "VERIFY_VMAS a b k = Some k' \<Longrightarrow> prepares t k k'"
  by (auto simp: VERIFY_VMAS_def split: bind_splits if_splits dest!: keeps_print intro: keeps_prepares keeps_trans)

lemma create_vmas_prepares:
  "proc_create_process_vmas t e k = Some (r, k') \<Longrightarrow> prepares t k k'"
  unfolding proc_create_process_vmas_def Let_def
  by (auto split: bind_splits if_splits prod.splits
      dest!: prepares_in_vm [where t = t] prepares_fail [where t = t] prepares_verify [where t = t])
    (meson prepares_trans)+

lemma parse_elf_0: "parse_elf m p = (0, snd (parse_elf m p))"
  by (simp add: parse_elf_def Let_def split: prod.splits)

text \<open>The table once the new process runs.\<close>

definition started :: "nat \<Rightarrow> kernel \<Rightarrow> kernel \<Rightarrow> bool" where
  "started t k k' \<longleftrightarrow> (\<forall>u. u \<noteq> t \<longrightarrow> process_list k' u = process_list k u) \<and> p_status (process_list k' t) = PROCESS_RUNNING
     \<and> proc_running k' = t \<and> processes_total k' = processes_total k + 1"

lemma run_process_eq:
  assumes "k0 = upd_vm (\<lambda>st. st\<lparr>csr_satp := ksatp st\<rparr>) k" "proc_find_free_process_slot k0 = int t"
    and "k1 = upd_proc t (\<lambda>p. p\<lparr>p_pid := last_pid k0\<rparr>) k0" "e = snd (parse_elf (kmem (vm k1)) ptr)"
  shows "proc_run_process ptr a3 k = do {
      (v, k2) \<leftarrow> proc_create_process_vmas t e k1;
      if v = NULL then Some (Inl (- 1), k2)
      else do {
                let k = upd_proc t (\<lambda>p. p\<lparr>p_status := PROCESS_RUNNING\<rparr>) k2;
                let k = k\<lparr>processes_total := processes_total k + 1, last_pid := last_pid k + 1, proc_running := t\<rparr>;
                let k = upd_proc t (\<lambda>p. p\<lparr>p_elf := e\<rparr>) k;
                let k = upd_mach (\<lambda>m. m\<lparr>csr_sepc := e_entry (elf e)\<rparr>) k;
                Some (Inr (zero_frame\<lparr>tf_a3 := a3, tf_sp := v + PAGE_SIZE * STACK_PAGES,
                        tf_satp := csr_satp (vm k), tf_sepc := e_entry (elf e)\<rparr>), k) } }"
proof -
  have "parse_elf (kmem (vm k1)) ptr = (0, e)" using parse_elf_0 assms(4) by metis
  then show ?thesis
    unfolding proc_run_process_def assms(1) [symmetric] Let_def assms(2)
    unfolding assms(3) by (simp add: case_prod_unfold cong: if_cong)
qed

lemma run_process_after_slot:
  assumes "proc_run_process ptr a3 k = Some (r, k')"
    and "k0 = upd_vm (\<lambda>st. st\<lparr>csr_satp := ksatp st\<rparr>) k" "proc_find_free_process_slot k0 = int t"
    and "k1 = upd_proc t (\<lambda>p. p\<lparr>p_pid := last_pid k0\<rparr>) k0" "e = snd (parse_elf (kmem (vm k1)) ptr)"
  shows "\<exists>v k2. proc_create_process_vmas t e k1 = Some (v, k2)
    \<and> (v = NULL \<and> r = Inl (- 1) \<and> k' = k2 \<or> v \<noteq> NULL \<and> (\<exists>f. r = Inr f) \<and> started t k2 k')"
  using assms(1) unfolding run_process_eq [OF assms(2-5)] Let_def
  by (cases "proc_create_process_vmas t e k1")
    (auto simp: started_def upd_proc_def upd_mach_def split: if_splits)

lemma run_process_result:
  assumes "proc_run_process ptr a3 k = Some (r, k')"
  shows "(\<exists>n. r = Inl n \<and> n < 0 \<and> (keeps k k' \<or> (\<exists>t. p_status (process_list k t) = PROCESS_FREE_SLOT \<and> prepares t k k')))
    \<or> (\<exists>f t. r = Inr f \<and> 1 \<le> t \<and> t < MAX_PROCESSES \<and> p_status (process_list k t) = PROCESS_FREE_SLOT \<and> started t k k')"
proof (cases "proc_find_free_process_slot (upd_vm (\<lambda>st. st\<lparr>csr_satp := ksatp st\<rparr>) k) < 0")
  case True
  then show ?thesis using assms by (auto simp: proc_run_process_def Let_def)
next
  case False
  let ?k = "upd_vm (\<lambda>st. st\<lparr>csr_satp := ksatp st\<rparr>) k"
  obtain t where t: "proc_find_free_process_slot ?k = int t" "1 \<le> t" "t < MAX_PROCESSES"
    "p_status (process_list k t) = PROCESS_FREE_SLOT"
    using find_slot_spec [of ?k] False by (auto simp: upd_vm_def)
  let ?k1 = "upd_proc t (\<lambda>p. p\<lparr>p_pid := last_pid ?k\<rparr>) ?k"
  obtain v k2 where v: "proc_create_process_vmas t (snd (parse_elf (kmem (vm ?k1)) ptr)) ?k1 = Some (v, k2)"
    and r: "v = NULL \<and> r = Inl (- 1) \<and> k' = k2 \<or> v \<noteq> NULL \<and> (\<exists>f. r = Inr f) \<and> started t k2 k'"
    using run_process_after_slot [OF assms refl t(1) refl refl] by blast
  have p: "prepares t k k2" using create_vmas_prepares [OF v] by simp
  then have "started t k2 k' \<Longrightarrow> started t k k'" by (simp add: prepares_def started_def)
  then show ?thesis using r t(2-4) p by auto
qed

section \<open>All traps\<close>

text \<open>
  What a trap does to the process table: the invariant holds again, a waiting process that is
  not the new running one is untouched, and when the processor goes to a process that was
  waiting, it gets the registers that were saved for it.
\<close>

definition step_ok :: "kernel \<Rightarrow> ctl \<Rightarrow> kernel \<Rightarrow> bool" where
  "step_ok k c k' \<longleftrightarrow> sched_inv k'
     \<and> (\<forall>u < MAX_PROCESSES. p_status (process_list k u) = PROCESS_PAUSED \<longrightarrow> u \<noteq> proc_running k' \<longrightarrow>
          process_list k' u = process_list k u)
     \<and> (p_status (process_list k (proc_running k')) = PROCESS_PAUSED \<longrightarrow>
          c = Resumes (resume_frame (process_list k (proc_running k'))))
     \<and> (c = Returns \<longrightarrow> proc_running k' = proc_running k)"

lemma step_ok_keeps: "sched_inv k \<Longrightarrow> keeps k k' \<Longrightarrow> step_ok k Returns k'"
  using sched_inv_keeps [of k k'] by (auto simp: step_ok_def keeps_def sched_inv_def)

lemma step_ok_switched:
  assumes "sched_inv k" "run_queue k = t # ts" "switched k p t k'"
  shows "step_ok k (Resumes (resume_frame (process_list k t))) k'"
proof -
  have "t \<in> set (run_queue k)" by (simp add: assms(2))
  then have "p_status (process_list k t) = PROCESS_PAUSED" "p_status (process_list k (proc_running k)) = PROCESS_RUNNING"
    using assms(1) waiting_set [of "proc_running k" "process_list k"] by (auto simp: sched_inv_def)
  then show ?thesis using assms(3) by (auto simp: step_ok_def switched_def)
qed

lemma step_ok_end:
  assumes "sched_inv k" "scall_handler_end k = Some (c, k')"
  shows "c = Off \<or> step_ok k c k'"
proof -
  have "p_status (process_list k (proc_running k)) = PROCESS_RUNNING" using assms(1) by (simp add: sched_inv_def)
  then show ?thesis using end_result [OF assms] by (elim disjE exE) (auto simp: step_ok_def)
qed

lemma distinct_cyc: "distinct (cyc r)"
  unfolding cyc_def distinct_map by (auto intro!: inj_onI dest: slot_after_inj)

lemma waiting_length:
  "r < MAX_PROCESSES \<Longrightarrow> length (waiting ps r) = card {t. t < MAX_PROCESSES \<and> t \<noteq> r \<and> p_status (ps t) = PROCESS_PAUSED}"
proof -
  assume "r < MAX_PROCESSES"
  moreover have "distinct (waiting ps r)" by (simp add: waiting_def distinct_cyc)
  ultimately show ?thesis using distinct_card [of "waiting ps r"] by (simp add: waiting_set)
qed

text \<open>A new process takes the processor; the old one, already paused, waits.\<close>

lemma started_inv:
  assumes inv: "sched_inv k" and k1: "process_list k1 = (process_list k)(proc_running k := p)" "p_status p = PROCESS_PAUSED"
      "processes_total k1 = processes_total k"
    and t: "t < MAX_PROCESSES" "p_status (process_list k1 t) = PROCESS_FREE_SLOT" "1 \<le> t" and s: "started t k1 k'"
  shows "sched_inv k'"
proof -
  let ?r = "proc_running k"
  let ?W = "\<lambda>k r. {u. u < MAX_PROCESSES \<and> u \<noteq> r \<and> p_status (process_list k u) = PROCESS_PAUSED}"
  have i: "?r < MAX_PROCESSES" "p_status (process_list k ?r) = PROCESS_RUNNING" "p_status (process_list k 0) = PROCESS_RESERVED"
    "\<And>u. u < MAX_PROCESSES \<Longrightarrow> u \<noteq> ?r \<Longrightarrow> p_status (process_list k u) \<noteq> PROCESS_RUNNING"
    "processes_total k = 1 + int (card (?W k ?r))"
    using inv waiting_length [of ?r "process_list k"] by (auto simp: sched_inv_def)
  have tr: "t \<noteq> ?r" using t(2) k1(1,2) by auto
  have st: "p_status (process_list k' u) = (if u = t then PROCESS_RUNNING else if u = ?r then PROCESS_PAUSED
      else p_status (process_list k u))" for u
    using s k1(1,2) by (auto simp: started_def)
  have "?W k' t = insert ?r (?W k ?r)"
    using st tr i(1) t(2) k1(1) by auto
  then have "card (?W k' t) = Suc (card (?W k ?r))" by (simp add: card_insert_if)
  then have "processes_total k' = 1 + int (length (waiting (process_list k') t))"
    using i(5) s k1(3) waiting_length [OF t(1), of "process_list k'"] by (simp add: started_def)
  moreover have "?r \<noteq> 0" using i(2,3) by (metis process_status.distinct(9))
  then have "p_status (process_list k' 0) = PROCESS_RESERVED" using st [of 0] t(3) i(3) by simp
  moreover have "\<forall>u < MAX_PROCESSES. u \<noteq> t \<longrightarrow> p_status (process_list k' u) \<noteq> PROCESS_RUNNING" using st i(4) by simp
  moreover have "proc_running k' = t" using s by (simp add: started_def)
  ultimately show ?thesis using t(1) st [of t] by (simp add: sched_inv_def)
qed

text \<open>The ways \<open>scall_handler_execv\<close> can end.\<close>

lemma execv_cases:
  assumes "scall_handler_execv k = Some (c, k')"
    and k1: "k1 = save_frame (set_a3 0 (set_status PROCESS_PAUSED k))"
  obtains "c = Off"
    | ptr a f where "proc_run_process ptr a k1 = Some (Inr f, k')" "c = Resumes f"
    | ptr a n k2 where "proc_run_process ptr a k1 = Some (Inl n, k2)" "c = Returns"
        "n < 0 \<longrightarrow> (\<exists>v. k' = set_status PROCESS_RUNNING ((set_a3 (- 1) k2)\<lparr>vm := v\<rparr>))"
proof -
  define F where "F = (\<lambda>k. if tf_a1 (tf_user k1) = 0 \<or> tf_a1 (tf_user k1) = 1 then Some (Returns, k)
      else do { k \<leftarrow> kprinterr (''ERROR: Non-existing application.'' @ [CHR 0x0A]) k; ecall_poweroff k })"
  define ptr where "ptr = (\<lambda>k :: kernel. if tf_a1 (tf_user k1) = 0 then sym_testing (mach k)
      else if tf_a1 (tf_user k1) = 1 then sym_hello_jr (mach k) else NULL)"
  define G where "G = (\<lambda>k. do {
              (r, k) \<leftarrow> proc_run_process (ptr k) (tf_a2 (tf_user k)) k;
              case r of
                Inr f \<Rightarrow> Some (Resumes f, k)
              | Inl n \<Rightarrow>
                  if n < 0 then
                    let k = set_a3 (- 1) k;
                        k = upd_vm (\<lambda>st. st\<lparr>csr_satp := p_satp (process_list k (proc_running k))\<rparr>) k
                    in Some (Returns, set_status PROCESS_RUNNING k)
                  else Some (Returns, k) })"
  have "seq F G k1 = Some (c, k')"
    using assms(1) unfolding scall_handler_execv_def Let_def k1 [symmetric] F_def G_def ptr_def by simp
  then consider "F k1 = Some (c, k')" "c \<noteq> Returns" | k0 where "F k1 = Some (Returns, k0)" "G k0 = Some (c, k')"
    by (auto simp: seq_Some split: if_splits)
  then show thesis
  proof cases
    case 1
    then show thesis using that(1)
      by (auto simp: F_def ecall_poweroff_def split: if_splits bind_splits dest: ecall_off_only)
  next
    case 2
    then have "k0 = k1" by (auto simp: F_def ecall_poweroff_def split: if_splits bind_splits dest: ecall_off_only)
    then obtain r k2 where r: "proc_run_process (ptr k1) (tf_a2 (tf_user k1)) k1 = Some (r, k2)"
      and "(case r of Inr f \<Rightarrow> Some (Resumes f, k2) | Inl n \<Rightarrow> if n < 0 then
          Some (Returns, set_status PROCESS_RUNNING (upd_vm (\<lambda>st. st\<lparr>csr_satp := p_satp (process_list (set_a3 (- 1) k2) (proc_running (set_a3 (- 1) k2)))\<rparr>) (set_a3 (- 1) k2)))
          else Some (Returns, k2)) = Some (c, k')"
      using 2(2) unfolding G_def Let_def by (auto split: bind_splits)
    then show thesis using that(2) [of "ptr k1" "tf_a2 (tf_user k1)"] that(3) [of "ptr k1" "tf_a2 (tf_user k1)"]
      by (cases r) (auto simp: upd_vm_def split: if_splits)
  qed
qed

lemma step_ok_execv:
  assumes inv: "sched_inv k" and c: "scall_handler_execv k = Some (c, k')"
  shows "c = Off \<or> step_ok k c k'"
proof -
  define k1 where "k1 = save_frame (set_a3 0 (set_status PROCESS_PAUSED k))"
  let ?r = "proc_running k"
  let ?p = "process_list k1 ?r"
  have i: "?r < MAX_PROCESSES" "p_status (process_list k ?r) = PROCESS_RUNNING"
    using inv by (auto simp: sched_inv_def)
  have k1: "process_list k1 = (process_list k)(?r := ?p)" "p_status ?p = PROCESS_PAUSED"
    "processes_total k1 = processes_total k" "proc_running k1 = ?r"
    by (simp_all add: k1_def save_frame_def set_a3_def set_status_def upd_proc_def)
  have k1u: "process_list k1 u = process_list k u" if "u \<noteq> ?r" for u
    using that by (simp add: k1_def save_frame_def set_a3_def set_status_def upd_proc_def)
  from c k1_def show ?thesis
  proof (cases rule: execv_cases)
    case (2 ptr a f)
    obtain t where t: "1 \<le> t" "t < MAX_PROCESSES" "p_status (process_list k1 t) = PROCESS_FREE_SLOT" "started t k1 k'"
      using run_process_result [OF 2(1)] by blast
    have tr: "t \<noteq> ?r" using t(3) k1(2) by auto
    have "sched_inv k'" by (rule started_inv [OF inv k1(1-3) t(2,3,1,4)])
    moreover have "p_status (process_list k t) \<noteq> PROCESS_PAUSED"
      using t(3) k1u [OF tr] by simp
    moreover have "process_list k1 u = process_list k u" if "p_status (process_list k u) = PROCESS_PAUSED" for u
      by (cases "u = ?r") (use that i(2) k1u [of u] in simp_all)
    ultimately show ?thesis using t(4) 2(2) by (auto simp: step_ok_def started_def)
  next
    case (3 ptr a n k2)
    obtain v where n: "n < 0" "k' = set_status PROCESS_RUNNING ((set_a3 (- 1) k2)\<lparr>vm := v\<rparr>)"
      "keeps k1 k2 \<or> (\<exists>t. p_status (process_list k1 t) = PROCESS_FREE_SLOT \<and> prepares t k1 k2)"
      using run_process_result [OF 3(1)] 3(3) by auto
    have k2: "proc_running k2 = ?r" "processes_total k2 = processes_total k"
      "\<And>u. p_status (process_list k2 u) = p_status (process_list k1 u)"
      "\<And>u. p_status (process_list k1 u) \<noteq> PROCESS_FREE_SLOT \<Longrightarrow> process_list k2 u = process_list k1 u"
      using n(3) k1(3,4) by (auto simp: keeps_def prepares_def) metis+
    have k': "proc_running k' = ?r" "processes_total k' = processes_total k"
      "process_list k' = (process_list k2)(?r := (process_list k2 ?r)\<lparr>p_status := PROCESS_RUNNING\<rparr>)"
      using n(2) k2(1,2) by (simp_all add: set_status_def set_a3_def upd_proc_def)
    have st: "p_status (process_list k' u) = p_status (process_list k u)" for u
      by (cases "u = ?r") (use k'(3) k2(3) [of u] i(2) k1u [of u] in simp_all)
    have "waiting (process_list k') ?r = run_queue k" by (rule waiting_cong [OF i(1) st])
    then have "sched_inv k'" using inv k'(1,2) st by (simp add: sched_inv_def)
    moreover have "process_list k' u = process_list k u" if "p_status (process_list k u) = PROCESS_PAUSED" for u
      by (cases "u = ?r") (use that i(2) k'(3) k2(4) [of u] k1u [of u] in simp_all)
    ultimately show ?thesis using k'(1) 3(2) i(2) by (simp add: step_ok_def)
  qed auto
qed

lemma keeps_hlt: "hlt k = Some (c, k') \<Longrightarrow> c = Off"
  by (auto simp: hlt_def Let_def ecall_poweroff_def split: bind_splits dest: ecall_off_only)

lemma keeps_err_hlt: "err_hlt s k = Some (c, k') \<Longrightarrow> c = Off"
  by (auto simp: err_hlt_def split: bind_splits dest: keeps_hlt)

lemma keeps_text_demand: "handle_text_demand stval k = Some (r, k') \<Longrightarrow> keeps k k'"
  by (auto simp: handle_text_demand_def Let_def split: bind_splits dest!: keeps_in_vm intro: keeps_trans)

lemma page_fault_cases: "page_fault scause k = Some (c, k') \<Longrightarrow> c = Off \<or> c = Returns \<and> keeps k k'"
  by (auto simp: page_fault_def Let_def split: bind_splits if_splits
      dest!: keeps_in_vm keeps_text_demand keeps_hlt keeps_err_hlt)
    (meson keeps_trans)+

text \<open>Changing the registers of the running process does not concern the table.\<close>

definition keeps_table :: "kernel \<Rightarrow> kernel \<Rightarrow> bool" where
  "keeps_table k k' \<longleftrightarrow> process_list k' = process_list k \<and> proc_running k' = proc_running k
     \<and> processes_total k' = processes_total k"

lemma keeps_keeps_table: "keeps k k' \<Longrightarrow> keeps_table k k'"
  by (simp add: keeps_def keeps_table_def)

lemma step_ok_table: "sched_inv k \<Longrightarrow> keeps_table k k' \<Longrightarrow> step_ok k Returns k'"
  by (auto simp: step_ok_def keeps_table_def sched_inv_def)

lemma step_ok_before: "keeps_table k0 k \<Longrightarrow> step_ok k c k' \<Longrightarrow> step_ok k0 c k'"
  unfolding step_ok_def keeps_table_def by metis

lemma step_ok_upd [simp]: "step_ok k c (fix_sepc k') = step_ok k c k'" "step_ok k c (upd_vm f k') = step_ok k c k'"
  by (simp_all add: step_ok_def sched_inv_def fix_sepc_def upd_mach_def upd_vm_def)

lemma keeps_table_upd [simp]: "keeps_table k (set_a3 v k') = keeps_table k k'"
  "keeps_table k (upd_vm f k') = keeps_table k k'" "keeps_table k k"
  by (simp_all add: keeps_table_def set_a3_def upd_vm_def)

lemma sched_inv_table: "keeps_table k k' \<Longrightarrow> sched_inv k \<Longrightarrow> sched_inv k'"
  by (simp add: sched_inv_def keeps_table_def)

lemma keeps_mmap: "scall_handler_mmap k = Some k' \<Longrightarrow> keeps_table k k'"
  by (auto simp: scall_handler_mmap_def Let_def split: bind_splits if_splits
      dest!: keeps_in_vm)
    (meson keeps_keeps_table keeps_trans)+

lemma step_ok_yield:
  assumes "sched_inv k" "scall_handler_yield k = Some (c, k')"
  shows "step_ok k c k'"
proof (cases "run_queue k")
  case Nil
  then show ?thesis using yield_alone [OF assms(1)] assms step_ok_keeps by auto
next
  case (Cons t ts)
  then show ?thesis using yield_switches [OF assms(1) Cons] assms(2) step_ok_switched [OF assms(1) Cons] by auto
qed

lemma step_ok_scall_handler:
  assumes "sched_inv k" "scall_handler k = Some (c, k')"
  shows "c = Off \<or> step_ok k c k'"
proof -
  let ?k = "set_a3 (- 1) k"
  have t: "keeps_table k ?k" by (simp add: keeps_table_def set_a3_def)
  have inv: "sched_inv ?k" by (rule sched_inv_table [OF t assms(1)])
  have ret: "step_ok ?k Returns k'" if "keeps_table ?k k'" using step_ok_table [OF inv that] .
  have off: "ecall_poweroff k1 = Some (c, k2) \<Longrightarrow> c = Off" for k1 k2
    by (auto simp: ecall_poweroff_def dest: ecall_off_only)
  have "c = Off \<or> step_ok ?k c k'"
    using assms(2) step_ok_end [OF inv] step_ok_execv [OF inv] step_ok_yield [OF inv] keeps_mmap [of ?k] ret off
    by (auto simp: scall_handler_def Let_def scall_handler_print_def scall_handler_getpid_def scall_handler_timerstatus_def
        split: if_splits bind_splits)
  then show ?thesis using step_ok_before [OF t] by blast
qed

lemma timer_cases:
  assumes "sched_inv k" "timer_handler k = Some (r, k')"
  shows "(\<exists>n. r = Inl n \<and> keeps k k') \<or> r = Inr Off \<or> r = Inr Stalls \<or> (\<exists>c. r = Inr c \<and> c \<noteq> Returns \<and> step_ok k c k')"
proof (cases "read_sip k AND 0x20 = 0x20 \<and> \<not> spp_set k")
  case False
  then show ?thesis using assms(2) by (auto simp: timer_handler_def split: bind_splits if_splits)
next
  case True
  then have s: "read_sip k AND 0x20 = 0x20" "\<not> spp_set k" by auto
  obtain d k0 where d: "ecall ECALL_CLEAR_TIMER_S k = Some (d, k0)"
    using assms(2) s by (auto simp: timer_handler_def ecall_disable_tint_def split: bind_splits)
  have k0: "keeps k k0" "d = Returns \<or> d = Off" using keeps_ecall [OF d] ecall_ctl [OF d] by auto
  show ?thesis
  proof (cases "run_queue k")
    case Nil
    then have "processes_total k0 = 1" using assms(1) k0(1) by (simp add: sched_inv_def keeps_def)
    then show ?thesis using assms(2) s d k0 by (auto simp: timer_handler_def ecall_disable_tint_def split: if_splits)
  next
    case (Cons t ts)
    show ?thesis
    proof (cases "d = Returns")
      case True
      then have d': "ecall ECALL_CLEAR_TIMER_S k = Some (Returns, k0)" using d by simp
      have "processes_total k0 > 1" "proc_running k0 < MAX_PROCESSES"
        using assms(1) Cons k0(1) by (auto simp: sched_inv_def keeps_def)
      then have "timer_handler k = returning 1 (proc_scheduler (preempted k0))" by (rule timer_handler_preempts [OF s d'])
      then show ?thesis
        using assms(2) preempted_switches [OF assms(1) Cons k0(1)] step_ok_switched [OF assms(1) Cons]
        by (auto simp: returning_def)
    next
      case False
      then show ?thesis using assms(2) s d k0(2) by (auto simp: timer_handler_def ecall_disable_tint_def)
    qed
  qed
qed

lemma scall_step:
  assumes "sched_inv k" "scall k = Some (c, k')"
  shows "c = Off \<or> c = Stalls \<or> step_ok k c k'"
proof -
  obtain r k0 where r: "timer_handler k = Some (r, k0)" using assms(2) by (auto simp: scall_def split: bind_splits)
  from timer_cases [OF assms(1) r] show ?thesis
  proof (elim disjE exE conjE)
    fix n assume n: "r = Inl n" "keeps k k0"
    have inv: "sched_inv k0" by (rule sched_inv_keeps [OF n(2) assms(1)])
    have "c = Off \<or> step_ok k0 c k'"
      using assms(2) r n(1) step_ok_keeps [OF inv] step_ok_scall_handler [OF inv] page_fault_cases [of _ k0 c k']
      by (auto simp: scall_def Let_def seq_Some split: if_splits bind_splits dest: keeps_hlt keeps_err_hlt)
    then show ?thesis using step_ok_before [OF keeps_keeps_table [OF n(2)]] by blast
  qed (use assms(2) r in \<open>auto simp: scall_def\<close>)
qed

end
