(* ===== verification/Round_Robin.thy ===== *)
theory Round_Robin
  imports Main
begin

text \<open>
  The contract of a round-robin scheduler, independent of how the queue is represented: a switch
  gives the processor to the head of the queue and puts the process that had it at the end.
\<close>

locale round_robin =
  fixes inv :: "'s \<Rightarrow> bool"
    and current :: "'s \<Rightarrow> 'p"
    and queue :: "'s \<Rightarrow> 'p list"
    and switch :: "'s \<Rightarrow> 's \<Rightarrow> bool"
  assumes switch_inv: "inv s \<Longrightarrow> switch s s' \<Longrightarrow> inv s'"
    and switch_queue: "inv s \<Longrightarrow> switch s s' \<Longrightarrow> current s' # queue s' = queue s @ [current s]"
    and enabled: "inv s \<Longrightarrow> \<exists>s'. switch s s'"
begin

lemma switches_inv: "inv s \<Longrightarrow> (switch ^^ n) s s' \<Longrightarrow> inv s'"
  by (induction n arbitrary: s') (auto intro: switch_inv)

lemma switches_rotate: "inv s \<Longrightarrow> (switch ^^ n) s s' \<Longrightarrow> current s' # queue s' = rotate n (current s # queue s)"
proof (induction n arbitrary: s')
  case (Suc n)
  then obtain s1 where s1: "(switch ^^ n) s s1" "switch s1 s'" by auto
  have "current s' # queue s' = rotate1 (current s1 # queue s1)"
    using switch_queue [OF switches_inv [OF Suc.prems(1) s1(1)] s1(2)] by simp
  then show ?case using Suc.IH [OF Suc.prems(1) s1(1)] by simp
qed simp

lemma progress: "inv s \<Longrightarrow> \<exists>s'. (switch ^^ n) s s'"
proof (induction n)
  case (Suc n)
  then obtain s1 where "(switch ^^ n) s s1" by blast
  then show ?case using enabled switches_inv [OF Suc.prems] by (metis relpowp_Suc_I)
qed simp

lemma served:
  assumes "inv s" "i < length (queue s)" "(switch ^^ Suc i) s s'"
  shows "current s' = queue s ! i"
proof -
  let ?xs = "current s # queue s"
  have "current s' = (current s' # queue s') ! 0" by simp
  also have "\<dots> = rotate (Suc i) ?xs ! 0" by (simp only: switches_rotate [OF assms(1,3)])
  also have "\<dots> = ?xs ! Suc i" using assms(2) nth_rotate [of 0 ?xs "Suc i"] by simp
  finally show ?thesis by simp
qed

lemma full_round:
  assumes "inv s" "(switch ^^ Suc (length (queue s))) s s'"
  shows "current s' = current s \<and> queue s' = queue s"
  using switches_rotate [OF assms] rotate_id [of "Suc (length (queue s))" "current s # queue s"] by simp

end

end
