(* ===== verification/System.thy ===== *)
theory System
  imports Handlers Round_Robin
begin

text \<open>
  The kernel as a state machine. An event is what the hardware and the user program do between
  two entries of the kernel: the program runs and leaves its registers and its memory behind,
  and a trap is taken from user mode. A step is an event handled by \<open>trap_handler_s\<close>.
\<close>

unbundle bit_operations_syntax

section \<open>Events and steps\<close>

record event =
  ev_regs :: trap_frame
  ev_pc :: u64
  ev_cause :: u64
  ev_stval :: u64
  ev_time :: u64
  ev_mip :: u64
  ev_mem :: mem

definition deliver :: "event \<Rightarrow> kernel \<Rightarrow> kernel" where
  "deliver ev k = k\<lparr>vm := (vm k)\<lparr>pmem := ev_mem ev, csr_sstatus := csr_sstatus (vm k) AND NOT 0x100\<rparr>,
     mach := (mach k)\<lparr>csr_sepc := ev_pc ev, csr_scause := ev_cause ev, csr_stval := ev_stval ev,
       mtime := ev_time ev, csr_mip := ev_mip ev\<rparr>\<rparr>"

inductive sys_step :: "kernel \<Rightarrow> trap_frame \<Rightarrow> kernel \<Rightarrow> bool" where
  trap: "trap_handler_s (ev_regs ev) (deliver ev k) = Some (Resumes f, k') \<Longrightarrow> sys_step k f k'"

inductive_cases sys_stepE: "sys_step k f k'"

text \<open>Booting ends with the first process entering user mode.\<close>

inductive reachable :: "kernel \<Rightarrow> bool" where
  boot: "proc_run_process ptr 0 (proc_init_process_list a (k\<lparr>proc_running := 0, processes_total := 0\<rparr>)) = Some (Inr f, k')
    \<Longrightarrow> reachable k'"
| step: "reachable k \<Longrightarrow> sys_step k f k' \<Longrightarrow> reachable k'"

text \<open>The state in which the trampoline calls \<open>scall\<close>.\<close>

definition entered :: "event \<Rightarrow> kernel \<Rightarrow> kernel" where
  "entered ev k = (deliver ev k)\<lparr>tf_user := (ev_regs ev)\<lparr>tf_satp := csr_satp (vm k), tf_sepc := ev_pc ev\<rparr>\<rparr>"

lemma trap_handler_entered:
  "trap_handler_s (ev_regs ev) (deliver ev k) = do {
     (c, k) \<leftarrow> scall (entered ev k);
     if c = Returns then
       let k = upd_vm (\<lambda>st. st\<lparr>csr_satp := tf_satp (tf_user k)\<rparr>) k
       in Some (Resumes ((tf_user k)\<lparr>tf_sepc := csr_sepc (mach k)\<rparr>), k)
     else Some (c, k) }"
  by (simp add: trap_handler_s_def entered_def deliver_def)

lemma entered_simps [simp]:
  "tf_user (entered ev k) = (ev_regs ev)\<lparr>tf_satp := csr_satp (vm k), tf_sepc := ev_pc ev\<rparr>"
  "csr_sepc (mach (entered ev k)) = ev_pc ev" "csr_mideleg (mach (entered ev k)) = csr_mideleg (mach k)"
  "csr_scause (mach (entered ev k)) = ev_cause ev"
  by (simp_all add: entered_def deliver_def)

lemma trap_resumes:
  "scall (entered ev k) = Some (Resumes f, k') \<Longrightarrow> trap_handler_s (ev_regs ev) (deliver ev k) = Some (Resumes f, k')"
  "scall (entered ev k) = Some (Returns, k') \<Longrightarrow> trap_handler_s (ev_regs ev) (deliver ev k) =
     Some (Resumes ((tf_user k')\<lparr>tf_sepc := csr_sepc (mach k')\<rparr>), upd_vm (\<lambda>st. st\<lparr>csr_satp := tf_satp (tf_user k')\<rparr>) k')"
  by (simp_all add: trap_handler_entered Let_def upd_vm_def)

lemma entered_table: "keeps_table k (entered ev k)"
  by (simp add: keeps_table_def entered_def deliver_def)

lemma entered_user: "\<not> spp_set (entered ev k)"
proof -
  have "(csr_sstatus (vm k) AND NOT 0x100) AND 0x100 = 0" by (rule and_cleared)
  then show ?thesis by (simp add: entered_def deliver_def)
qed

section \<open>The invariant\<close>

lemma sys_step_ok:
  assumes "sched_inv k" "sys_step k f k'"
  shows "sched_inv k'"
    and "u < MAX_PROCESSES \<Longrightarrow> p_status (process_list k u) = PROCESS_PAUSED \<Longrightarrow> u \<noteq> proc_running k' \<Longrightarrow>
      process_list k' u = process_list k u"
    and "p_status (process_list k (proc_running k')) = PROCESS_PAUSED \<Longrightarrow>
      f = resume_frame (process_list k (proc_running k'))"
proof -
  obtain ev c k1 where s: "scall (entered ev k) = Some (c, k1)"
    and f: "c = Returns \<and> k' = upd_vm (\<lambda>st. st\<lparr>csr_satp := tf_satp (tf_user k1)\<rparr>) k1 \<or> c = Resumes f \<and> k' = k1"
    using assms(2) by (auto elim!: sys_stepE simp: trap_handler_entered Let_def split: bind_splits if_splits)
  have "sched_inv (entered ev k)" by (rule sched_inv_table [OF entered_table assms(1)])
  then have "step_ok (entered ev k) c k1" using scall_step [OF _ s] f by auto
  then have "step_ok k c k'" using step_ok_before [OF entered_table] f by auto
  moreover have "p_status (process_list k (proc_running k)) = PROCESS_RUNNING" using assms(1) by (simp add: sched_inv_def)
  ultimately show "sched_inv k'" "u < MAX_PROCESSES \<Longrightarrow> p_status (process_list k u) = PROCESS_PAUSED \<Longrightarrow> u \<noteq> proc_running k' \<Longrightarrow>
      process_list k' u = process_list k u" "p_status (process_list k (proc_running k')) = PROCESS_PAUSED \<Longrightarrow>
      f = resume_frame (process_list k (proc_running k'))"
    using f by (auto simp: step_ok_def)
qed

lemma boot_inv:
  assumes "proc_run_process ptr a3 (proc_init_process_list a (k\<lparr>proc_running := 0, processes_total := 0\<rparr>)) = Some (Inr f, k')"
  shows "sched_inv k'"
proof -
  let ?k = "proc_init_process_list a (k\<lparr>proc_running := 0, processes_total := 0\<rparr>)"
  have i: "p_status (process_list ?k u) = (if u = 0 then PROCESS_RESERVED else PROCESS_FREE_SLOT)" if "u < MAX_PROCESSES" for u
    using that by (simp add: proc_init_process_list_def Let_def upd_proc_def)
  obtain t where t: "1 \<le> t" "t < MAX_PROCESSES" "started t ?k k'"
    using run_process_result [OF assms] by blast
  have st: "p_status (process_list k' u) = (if u = t then PROCESS_RUNNING else if u = 0 then PROCESS_RESERVED else PROCESS_FREE_SLOT)"
    if "u < MAX_PROCESSES" for u
    using t(1,3) i [OF that] by (auto simp: started_def)
  have "waiting (process_list k') t = []"
    using st by (auto simp: waiting_def filter_empty_conv cyc_set [OF t(2)])
  moreover have "processes_total ?k = 0" by (simp add: proc_init_process_list_def Let_def upd_proc_def)
  ultimately show ?thesis using t st i by (simp add: sched_inv_def started_def)
qed

lemma reachable_inv: "reachable k \<Longrightarrow> sched_inv k"
  by (induction rule: reachable.induct) (auto dest: boot_inv sys_step_ok(1))

section \<open>Saved registers\<close>

text \<open>Steps during which process \<open>t\<close> does not get the processor.\<close>

inductive without :: "nat \<Rightarrow> kernel \<Rightarrow> kernel \<Rightarrow> bool" for t where
  none: "without t k k"
| more: "without t k k1 \<Longrightarrow> sys_step k1 f k2 \<Longrightarrow> proc_running k2 \<noteq> t \<Longrightarrow> without t k k2"

lemma without_keeps:
  assumes "without t k k'" "sched_inv k" "t < MAX_PROCESSES" "p_status (process_list k t) = PROCESS_PAUSED"
  shows "sched_inv k' \<and> process_list k' t = process_list k t"
  using assms
proof (induction rule: without.induct)
  case (more k k1 f k2)
  then have k1: "sched_inv k1" "process_list k1 t = process_list k t" by auto
  then show ?case
    using sys_step_ok(1) [OF k1(1) more(2)] sys_step_ok(2) [OF k1(1) more(2), of t] more.hyps(3) more.prems by simp
qed simp

lemma without_resume:
  assumes "sched_inv k" "t < MAX_PROCESSES" "p_status (process_list k t) = PROCESS_PAUSED"
    and "without t k k1" "sys_step k1 f k2" "proc_running k2 = t"
  shows "f = resume_frame (process_list k t)"
  using without_keeps [OF assms(4,1-3)] sys_step_ok(3) [OF _ assms(5)] assms(3,6) by simp

section \<open>Round robin\<close>

text \<open>The events that make the running process give up the processor: the timer, and \<open>SCALL_YIELD\<close>.\<close>

definition timer_event :: "event \<Rightarrow> bool" where
  "timer_event ev \<longleftrightarrow> ev_mip ev AND 0x20 = 0x20 \<and> unat (ev_time ev) + 100000 < 2 ^ 56"

definition yield_event :: "event \<Rightarrow> bool" where
  "yield_event ev \<longleftrightarrow> ev_mip ev AND 0x20 = 0 \<and> ev_cause ev = ENV_CALL_U \<and> tf_a0 (ev_regs ev) = SCALL_YIELD"

inductive switch_step :: "kernel \<Rightarrow> kernel \<Rightarrow> bool" where
  preempt: "timer_event ev \<Longrightarrow> trap_handler_s (ev_regs ev) (deliver ev k) = Some (Resumes f, k') \<Longrightarrow> switch_step k k'"
| yield: "yield_event ev \<Longrightarrow> trap_handler_s (ev_regs ev) (deliver ev k) = Some (Resumes f, k') \<Longrightarrow> switch_step k k'"

text \<open>The timer interrupt is delegated to the supervisor, as \<^verbatim>\<open>stack.S\<close> sets it up.\<close>

definition sys_inv :: "kernel \<Rightarrow> bool" where
  "sys_inv k \<longleftrightarrow> sched_inv k \<and> csr_mideleg (mach k) AND 0x20 = 0x20"

lemma and_exp_if: "(w :: u64) AND 2 ^ n = (if bit w n then 2 ^ n else 0)"
  by (rule bit_word_eqI) (auto simp: bit_simps)

lemma and_32: "(w :: u64) AND 0x20 = (if bit w 5 then 0x20 else 0)"
  using and_exp_if [of w 5] by simp

lemma timer_pending:
  assumes "csr_mideleg (mach k) AND 0x20 = 0x20"
  shows "read_sip (entered ev k) AND 0x20 = ev_mip ev AND 0x20"
  using assms unfolding and_32 by (auto simp: read_sip_def read_mip_def entered_def deliver_def bit_simps split: if_splits)

text \<open>Both events rotate the queue, and the process that stops can be resumed where it was.\<close>

definition rotates :: "kernel \<Rightarrow> trap_frame \<Rightarrow> trap_frame \<Rightarrow> kernel \<Rightarrow> bool" where
  "rotates k saved f k' \<longleftrightarrow> sys_inv k' \<and> proc_running k' # run_queue k' = run_queue k @ [proc_running k]
     \<and> (if run_queue k = [] then f = saved
        else resume_frame (process_list k' (proc_running k)) = saved
          \<and> f = resume_frame (process_list k (hd (run_queue k))))"

lemma switchedD:
  assumes "switched k p t k'" "t \<noteq> proc_running k" "run_queue k = t # ts"
  shows "sched_inv k'" "proc_running k' # run_queue k' = run_queue k @ [proc_running k]" "process_list k' (proc_running k) = p"
proof -
  have "run_queue k' = ts @ [proc_running k]" "proc_running k' = t" using assms(1,3) unfolding switched_def by (metis list.sel(3), blast)
  then show "proc_running k' # run_queue k' = run_queue k @ [proc_running k]" using assms(3) by simp
qed (use assms in \<open>simp_all add: switched_def\<close>)

lemma preempt_rotates:
  assumes "sys_inv k" "timer_event ev"
  shows "\<exists>f k'. trap_handler_s (ev_regs ev) (deliver ev k) = Some (Resumes f, k')
    \<and> rotates k ((ev_regs ev)\<lparr>tf_satp := csr_satp (vm k), tf_sepc := ev_pc ev\<rparr>) f k'"
proof -
  let ?k = "entered ev k"
  have inv: "sched_inv ?k" and p: "read_sip ?k AND 0x20 = 0x20" and time: "time_ok ?k"
    using assms sched_inv_table [OF entered_table, of k ev] timer_pending [of k ev]
    by (auto simp: sys_inv_def timer_event_def time_ok_def entered_def deliver_def)
  have e: "run_queue ?k = run_queue k" "proc_running ?k = proc_running k" "process_list ?k = process_list k"
    using entered_table [of k ev] by (auto simp: keeps_table_def)
  show ?thesis
  proof (cases "run_queue k")
    case Nil
    then obtain k1 where k1: "timer_handler ?k = Some (Inl 1, k1)" "keeps ?k k1" "same_traps ?k k1"
      using timer_alone [OF inv _ time p entered_user] e by auto
    let ?k' = "upd_vm (\<lambda>st. st\<lparr>csr_satp := tf_satp (tf_user k1)\<rparr>) k1"
    have s: "scall ?k = Some (Returns, k1)" using k1(1) by (simp add: scall_def)
    have "sched_inv ?k'" by (rule sched_inv_keeps [OF _ inv]) (use k1(2) in simp)
    moreover have "run_queue ?k' = []" "proc_running ?k' = proc_running k" using k1(2) e Nil by (simp_all add: keeps_def upd_vm_def)
    ultimately have "rotates k ((ev_regs ev)\<lparr>tf_satp := csr_satp (vm k), tf_sepc := ev_pc ev\<rparr>)
        ((tf_user k1)\<lparr>tf_sepc := csr_sepc (mach k1)\<rparr>) ?k'"
      using k1(2,3) Nil assms(1) by (simp add: rotates_def sys_inv_def keeps_def same_traps_def) (simp add: upd_vm_def)
    with trap_resumes(2) [OF s] show ?thesis by blast
  next
    case (Cons t ts)
    then have q: "run_queue ?k = t # ts" by (simp add: e)
    obtain k' where k': "timer_handler ?k = Some (Inr (Resumes (resume_frame (process_list k t))), k')"
      "switched ?k (stopped ?k ((tf_user ?k)\<lparr>tf_sepc := tf_sepc (tf_user ?k) - 4\<rparr>)) t k'"
      "csr_mideleg (mach k') = csr_mideleg (mach ?k)"
      using timer_switches [OF inv q time p entered_user] by (auto simp: e)
    have s: "scall ?k = Some (Resumes (resume_frame (process_list k t)), k')" using k'(1) by (simp add: scall_def)
    moreover have "t \<noteq> proc_running k"
      using Cons waiting_set [of "proc_running k" "process_list k"] assms(1) by (auto simp: sys_inv_def sched_inv_def)
    ultimately have "rotates k ((ev_regs ev)\<lparr>tf_satp := csr_satp (vm k), tf_sepc := ev_pc ev\<rparr>)
        (resume_frame (process_list k t)) k'"
      using switchedD [OF k'(2) _ q] k'(3) Cons e assms(1) by (auto simp: rotates_def sys_inv_def stopped_def resume_frame_def)
    with trap_resumes(1) [OF s] show ?thesis by blast
  qed
qed

lemma frame_commute: "f\<lparr>tf_a3 := a, tf_sepc := b\<rparr> = (f\<lparr>tf_sepc := b, tf_a3 := a\<rparr> :: trap_frame)"
  by (cases f) simp

lemma yield_rotates:
  assumes "sys_inv k" "yield_event ev"
  shows "\<exists>f k'. trap_handler_s (ev_regs ev) (deliver ev k) = Some (Resumes f, k')
    \<and> rotates k ((ev_regs ev)\<lparr>tf_satp := csr_satp (vm k), tf_sepc := ev_pc ev + 4, tf_a3 := - 1\<rparr>) f k'"
proof -
  let ?k = "set_a3 (- 1) (entered ev k)"
  have t: "keeps_table k ?k" using entered_table by simp
  have inv: "sched_inv ?k" using assms(1) sched_inv_table [OF t] by (simp add: sys_inv_def)
  have e: "run_queue ?k = run_queue k" "proc_running ?k = proc_running k" "process_list ?k = process_list k"
    using t by (auto simp: keeps_table_def)
  have "read_sip (entered ev k) AND 0x20 = 0" using timer_pending [of k ev] assms by (simp add: sys_inv_def yield_event_def)
  then have "timer_handler (entered ev k) = Some (Inl 0, entered ev k)" by (simp add: timer_handler_def)
  moreover have "csr_scause (mach (entered ev k)) = 8" using assms(2) by (simp add: yield_event_def entered_def deliver_def)
  moreover have "tf_a0 (tf_user (entered ev k)) = 4" using assms(2) by (simp add: yield_event_def entered_def)
  ultimately have s: "scall (entered ev k) = seq scall_handler_yield (\<lambda>k. Some (Returns, fix_sepc k)) ?k"
    by (simp add: scall_def seq_def scall_handler_def Let_def set_a3_def)
  show ?thesis
  proof (cases "run_queue k")
    case Nil
    then obtain v where v: "scall_handler_yield ?k = Some (Returns, ?k\<lparr>vm := v\<rparr>)"
      using yield_alone [OF inv] e by auto
    let ?k1 = "fix_sepc (?k\<lparr>vm := v\<rparr>)"
    let ?k' = "upd_vm (\<lambda>st. st\<lparr>csr_satp := tf_satp (tf_user ?k1)\<rparr>) ?k1"
    have s': "scall (entered ev k) = Some (Returns, ?k1)" using s v by (simp add: seq_def)
    have "sched_inv ?k'" by (rule sched_inv_keeps [OF _ inv]) simp
    moreover have "run_queue ?k' = []" "proc_running ?k' = proc_running k" "csr_mideleg (mach ?k') = csr_mideleg (mach k)"
      using e Nil by (simp_all add: fix_sepc_def upd_vm_def upd_mach_def set_a3_def)
    ultimately have "rotates k ((ev_regs ev)\<lparr>tf_satp := csr_satp (vm k), tf_sepc := ev_pc ev + 4, tf_a3 := - 1\<rparr>)
        ((tf_user ?k1)\<lparr>tf_sepc := csr_sepc (mach ?k1)\<rparr>) ?k'"
      using Nil assms(1) by (simp add: rotates_def sys_inv_def) (simp add: fix_sepc_def upd_mach_def set_a3_def frame_commute)
    with trap_resumes(2) [OF s'] show ?thesis by blast
  next
    case (Cons t ts)
    then have q: "run_queue ?k = t # ts" by (simp add: e)
    obtain k' where k': "scall_handler_yield ?k = Some (Resumes (resume_frame (process_list k t)), k')"
      "switched ?k (stopped ?k (tf_user ?k)) t k'" "csr_mideleg (mach k') = csr_mideleg (mach ?k)"
      using yield_switches [OF inv q] by (auto simp: e)
    moreover have "t \<noteq> proc_running k"
      using Cons waiting_set [of "proc_running k" "process_list k"] assms(1) by (auto simp: sys_inv_def sched_inv_def)
    moreover have s': "scall (entered ev k) = Some (Resumes (resume_frame (process_list k t)), k')"
      using s k'(1) by (simp add: seq_def)
    ultimately have "rotates k ((ev_regs ev)\<lparr>tf_satp := csr_satp (vm k), tf_sepc := ev_pc ev + 4, tf_a3 := - 1\<rparr>)
        (resume_frame (process_list k t)) k'"
      using switchedD [OF k'(2) _ q] Cons e assms(1)
      by (auto simp: rotates_def sys_inv_def stopped_def resume_frame_def set_a3_def frame_commute)
    with trap_resumes(1) [OF s'] show ?thesis by blast
  qed
qed

lemma switch_step_rotates:
  assumes "sys_inv k" "switch_step k k'"
  shows "\<exists>saved f. rotates k saved f k'"
  using assms(2)
proof cases
  case (preempt ev f)
  then show ?thesis using preempt_rotates [OF assms(1)] by fastforce
next
  case (yield ev f)
  then show ?thesis using yield_rotates [OF assms(1)] by fastforce
qed

lemma switch_step_enabled: "sys_inv k \<Longrightarrow> \<exists>k'. switch_step k k'"
proof -
  let ?ev = "\<lparr>ev_regs = zero_frame, ev_pc = 0, ev_cause = 0, ev_stval = 0, ev_time = 0, ev_mip = 0x20, ev_mem = \<lambda>_. 0\<rparr>"
  assume "sys_inv k"
  moreover have "timer_event ?ev" by (simp add: timer_event_def)
  ultimately show ?thesis using preempt_rotates switch_step.preempt by blast
qed

interpretation sys: round_robin sys_inv proc_running run_queue switch_step
proof
  show "sys_inv k \<Longrightarrow> switch_step k k' \<Longrightarrow> sys_inv k'"
    "sys_inv k \<Longrightarrow> switch_step k k' \<Longrightarrow> proc_running k' # run_queue k' = run_queue k @ [proc_running k]" for k k'
    using switch_step_rotates by (auto simp: rotates_def)
qed (rule switch_step_enabled)

end
