(* ===== verification/Kernel_Props.thy ===== *)
theory Kernel_Props
  imports System Pt_Props
begin

text \<open>
  The properties of \<^verbatim>\<open>process.c\<close>, \<^verbatim>\<open>exception.c\<close> and \<^verbatim>\<open>timer.c\<close>: scheduling, saved registers, the
  process table and the timer.
\<close>

unbundle bit_operations_syntax

section \<open>A concrete kernel\<close>

text \<open>Process 1 runs and process 2 waits.\<close>

definition proc_ex :: "process_status \<Rightarrow> process" where
  "proc_ex s = \<lparr>p_pid = 0, p_status = s, p_uvmas = 8, p_tf = zero_frame, p_satp = satp_ex,
     p_elf = \<lparr>elf = \<lparr>e_entry = 0, size_load = 0, offset_load = 0, virtual_load = 0, elf_valid = 0\<rparr>, ptr_elf = 0\<rparr>\<rparr>"

definition kernel_ex :: kernel where
  "kernel_ex = \<lparr>vm = pt_ex,
     process_list = (\<lambda>_. proc_ex PROCESS_FREE_SLOT)(0 := proc_ex PROCESS_RESERVED, 1 := proc_ex PROCESS_RUNNING,
       2 := proc_ex PROCESS_PAUSED),
     proc_running = 1, processes_total = 2, last_pid = 2, tf_user = zero_frame, tf_user_ptr = 0,
     tf_generic = zero_frame, timer_check = 0,
     mach = \<lparr>csr_sepc = 0, csr_scause = 0, csr_stval = 0, csr_sscratch = 0, csr_stvec = 0, csr_mtvec = 0, csr_mstatus = 0, csr_mie = 0, csr_mip = 0,
       csr_mepc = 0, csr_mcause = 0, csr_mscratch = 0, csr_mtval = 0, csr_mideleg = 0x222, csr_medeleg = 0, csr_misa = 0,
       mtime = 0, mtimecmp = 100, kreg = (\<lambda>_. 0), ecall_pc = 0x80201000, sym_testing = 0, sym_hello_jr = 0\<rparr>\<rparr>"

lemma kernel_ex_queue: "run_queue kernel_ex = [2]"
proof -
  have "{t. t < MAX_PROCESSES \<and> t \<noteq> 1 \<and> p_status (process_list kernel_ex t) = PROCESS_PAUSED} = {2}"
    by (auto simp: kernel_ex_def proc_ex_def)
  then have "length (run_queue kernel_ex) = 1" "set (run_queue kernel_ex) = {2}"
    using waiting_length [of 1 "process_list kernel_ex"] waiting_set [of 1 "process_list kernel_ex"]
    by (simp_all add: kernel_ex_def)
  then show ?thesis by (cases "run_queue kernel_ex") auto
qed

lemma kernel_ex_inv: "sys_inv kernel_ex"
  using kernel_ex_queue by (simp add: sys_inv_def sched_inv_def) (simp add: kernel_ex_def proc_ex_def)

definition timer_ev :: event where
  "timer_ev = \<lparr>ev_regs = zero_frame, ev_pc = 0x10000, ev_cause = 0, ev_stval = 0, ev_time = 200, ev_mip = 0x20, ev_mem = \<lambda>_. 0\<rparr>"

definition yield_ev :: event where
  "yield_ev = \<lparr>ev_regs = zero_frame\<lparr>tf_a0 := SCALL_YIELD\<rparr>, ev_pc = 0x10000, ev_cause = ENV_CALL_U, ev_stval = 0,
     ev_time = 50, ev_mip = 0, ev_mem = \<lambda>_. 0\<rparr>"

lemma events_ex: "timer_event timer_ev" "yield_event yield_ev"
  by (simp_all add: timer_event_def timer_ev_def yield_event_def yield_ev_def)

section \<open>Scheduling\<close>

text \<open>(C9) Preemption: the kernel answers a timer interrupt in user mode, terminates, and refines a
  queue of processes. The head of the queue gets the processor with its saved registers; the
  process that ran goes to the end and is saved so that it will resume at the interrupted
  instruction with the registers it had. If no other process waits, it simply continues.\<close>
theorem preempt_round_robin:
  assumes "sys_inv k" "timer_event ev"
  shows "\<exists>f k'. trap_handler_s (ev_regs ev) (deliver ev k) = Some (Resumes f, k')
    \<and> sys_inv k' \<and> proc_running k' # run_queue k' = run_queue k @ [proc_running k]
    \<and> (let saved = (ev_regs ev)\<lparr>tf_satp := csr_satp (vm k), tf_sepc := ev_pc ev\<rparr>
       in if run_queue k = [] then f = saved
          else resume_frame (process_list k' (proc_running k)) = saved
            \<and> f = resume_frame (process_list k (hd (run_queue k))))"
  using preempt_rotates [OF assms] by (simp add: rotates_def Let_def)

theorem preempt_round_robin_witness:
  "\<exists>f k'. trap_handler_s zero_frame (deliver timer_ev kernel_ex) = Some (Resumes f, k') \<and> proc_running k' = 2"
proof -
  have "ev_regs timer_ev = zero_frame" by (simp add: timer_ev_def)
  then show ?thesis using preempt_round_robin [OF kernel_ex_inv events_ex(1)] kernel_ex_queue by auto
qed

text \<open>(C12) \<open>SCALL_YIELD\<close> does the same, and the caller will resume behind its system call with -1 in \<open>a3\<close>.\<close>
theorem yield_round_robin:
  assumes "sys_inv k" "yield_event ev"
  shows "\<exists>f k'. trap_handler_s (ev_regs ev) (deliver ev k) = Some (Resumes f, k')
    \<and> sys_inv k' \<and> proc_running k' # run_queue k' = run_queue k @ [proc_running k]
    \<and> (let saved = (ev_regs ev)\<lparr>tf_satp := csr_satp (vm k), tf_sepc := ev_pc ev + 4, tf_a3 := - 1\<rparr>
       in if run_queue k = [] then f = saved
          else resume_frame (process_list k' (proc_running k)) = saved
            \<and> f = resume_frame (process_list k (hd (run_queue k))))"
  using yield_rotates [OF assms] by (simp add: rotates_def Let_def)

theorem yield_round_robin_witness:
  "\<exists>f k'. trap_handler_s (ev_regs yield_ev) (deliver yield_ev kernel_ex) = Some (Resumes f, k') \<and> proc_running k' = 2"
  using yield_round_robin [OF kernel_ex_inv events_ex(2)] kernel_ex_queue by auto

text \<open>(C10) Bounded waiting: switches are always possible, and a process that waits at position \<open>i\<close> of the
  queue has the processor after \<open>i + 1\<close> of them.\<close>
theorem bounded_waiting:
  assumes "sys_inv k" "i < length (run_queue k)"
  shows "(\<exists>k'. (switch_step ^^ Suc i) k k')
    \<and> (\<forall>k'. (switch_step ^^ Suc i) k k' \<longrightarrow> proc_running k' = run_queue k ! i)"
  using sys.progress [OF assms(1)] sys.served [OF assms] by blast

theorem bounded_waiting_witness: "\<exists>k'. (switch_step ^^ Suc 0) kernel_ex k' \<and> proc_running k' = 2"
  using bounded_waiting [OF kernel_ex_inv, of 0] kernel_ex_queue by auto

text \<open>(C11) A process that was preempted is not disturbed: whatever traps and other processes come in
  between, when it gets the processor again it has the registers, the address space and the
  program counter it was interrupted with.\<close>
theorem context_restored:
  assumes "sys_inv k" "timer_event ev" "run_queue k \<noteq> []"
    and "trap_handler_s (ev_regs ev) (deliver ev k) = Some (Resumes g, k0)"
    and "without (proc_running k) k0 k1" "sys_step k1 f k2" "proc_running k2 = proc_running k"
  shows "f = (ev_regs ev)\<lparr>tf_satp := csr_satp (vm k), tf_sepc := ev_pc ev\<rparr>"
proof -
  have r: "rotates k ((ev_regs ev)\<lparr>tf_satp := csr_satp (vm k), tf_sepc := ev_pc ev\<rparr>) g k0"
    using preempt_rotates [OF assms(1,2)] assms(4) by auto
  then have k0: "sched_inv k0" "proc_running k0 # run_queue k0 = run_queue k @ [proc_running k]"
    by (auto simp: rotates_def sys_inv_def)
  then have "proc_running k \<in> set (run_queue k0)" using assms(3) by (cases "run_queue k") auto
  then have "proc_running k < MAX_PROCESSES" "p_status (process_list k0 (proc_running k)) = PROCESS_PAUSED"
    using k0(1) waiting_set [of "proc_running k0" "process_list k0"] by (auto simp: sched_inv_def)
  from without_resume [OF k0(1) this assms(5-7)] r assms(3) show ?thesis by (simp add: rotates_def)
qed

theorem context_restored_witness:
  "\<exists>g k0 f k2. trap_handler_s zero_frame (deliver timer_ev kernel_ex) = Some (Resumes g, k0) \<and> sys_step k0 f k2
     \<and> f = zero_frame\<lparr>tf_satp := csr_satp (vm kernel_ex), tf_sepc := 0x10000\<rparr>"
proof -
  have ev: "ev_regs timer_ev = zero_frame" "ev_pc timer_ev = 0x10000" by (simp_all add: timer_ev_def)
  obtain g k0 where g: "trap_handler_s zero_frame (deliver timer_ev kernel_ex) = Some (Resumes g, k0)"
    "sys_inv k0" "proc_running k0 # run_queue k0 = [2, 1]"
    using preempt_rotates [OF kernel_ex_inv events_ex(1)] kernel_ex_queue ev
    by (auto simp: rotates_def kernel_ex_def)
  obtain f k2 where f: "trap_handler_s zero_frame (deliver timer_ev k0) = Some (Resumes f, k2)"
    "proc_running k2 # run_queue k2 = [1, 2]"
    using preempt_rotates [OF g(2) events_ex(1)] g(3) ev by (auto simp: rotates_def)
  have s: "sys_step k0 f k2" using f(1) sys_step.trap [of timer_ev k0 f k2] ev by simp
  have "proc_running kernel_ex = 1" by (simp add: kernel_ex_def)
  then show ?thesis
    using context_restored [OF kernel_ex_inv events_ex(1) _ _ without.none s, of g] g(1) f(2) kernel_ex_queue ev s by auto
qed

end
