(* ===== verification/Faults.thy ===== *)
theory Faults
  imports Kernel_Props Vma_Room
begin

text \<open>
  Page faults. Printing and halting always terminate, so every fault is either answered by a
  page, or the machine is powered off; the page of a text fault holds the bytes of the binary.
\<close>

unbundle bit_operations_syntax

section \<open>Printing terminates\<close>

definition prints :: "kernel \<Rightarrow> kernel \<Rightarrow> bool" where
  "prints k k' \<longleftrightarrow> (\<exists>xs. k' = k\<lparr>vm := (vm k)\<lparr>console := xs\<rparr>\<rparr>)"

lemma prints_refl: "prints k k"
  by (simp add: prints_def exI [of _ "console (vm k)"])

lemma prints_trans: "prints k k' \<Longrightarrow> prints k' k'' \<Longrightarrow> prints k k''"
  by (auto simp: prints_def)

lemma kprinterr_prints: "length s < 2 ^ 32 \<Longrightarrow> \<exists>k'. kprinterr s k = Some k' \<and> prints k k'"
  using printerr_console [of s "vm k"] by (auto simp: kprinterr_def prints_def)

lemma kprintstr_prints: "length s < 2 ^ 32 \<Longrightarrow> \<exists>k'. kprintstr s k = Some k' \<and> prints k k'"
  using printstr_console [of s "vm k"] by (auto simp: kprintstr_def prints_def)

lemma kprintdbg_prints: "length s < 2 ^ 32 \<Longrightarrow> \<exists>k'. kprintdbg s v k = Some k' \<and> prints k k'"
  using printdbg_appends [of s v "console (vm k)"] by (auto simp: kprintdbg_def prints_def upd_vm_def)

lemma print_list_prints: "\<forall>(s, v) \<in> set xs. length s < 2 ^ 32 \<Longrightarrow> \<exists>k'. print_list xs k = Some k' \<and> prints k k'"
proof (induction xs k rule: print_list.induct)
  case (2 s v xs k)
  obtain k1 where k1: "kprintdbg s v k = Some k1" "prints k k1" using kprintdbg_prints [of s v k] 2(2) by auto
  obtain k2 where "print_list xs k1 = Some k2" "prints k1 k2" using 2(1) [of k1] 2(2) k1(1) by auto
  then show ?case using k1 prints_trans by auto
qed (simp add: prints_refl)

lemma bind_prints:
  assumes "\<exists>k'. f k = Some k' \<and> prints k k'" "prints k0 k" "\<And>k'. prints k0 k' \<Longrightarrow> \<exists>y. g k' = Some y \<and> Q y"
  shows "\<exists>y. (f k \<bind> g) = Some y \<and> Q y"
  using assms prints_trans by fastforce

lemma proc_print_frame_prints: "\<exists>k'. proc_print_frame f k = Some k' \<and> prints k k'"
  unfolding proc_print_frame_def Let_def by (rule print_list_prints) simp

lemma print_call_info_prints: "\<exists>k'. print_call_info k = Some k' \<and> prints k k'"
  unfolding print_call_info_def by (rule print_list_prints) simp

lemma print_all_registers_prints: "\<exists>k'. print_all_registers k = Some k' \<and> prints k k'"
  unfolding print_all_registers_def
  by (rule bind_prints [OF print_list_prints prints_refl], simp,
      rule bind_prints [OF kprintstr_prints], simp, assumption)
    (metis proc_print_frame_prints prints_trans)

section \<open>Halting\<close>

text \<open>\<open>halted k k'\<close>: nothing but the output, the previous mode in \<open>sstatus\<close> and machine registers has changed; in
  particular memory, page tables and the allocator are the same.\<close>

definition halted :: "kernel \<Rightarrow> kernel \<Rightarrow> bool" where
  "halted k k' \<longleftrightarrow> keeps k k' \<and> (\<exists>xs s. vm k' = (vm k)\<lparr>csr_sstatus := s, console := xs\<rparr>)"

lemma halted_prints: "prints k k1 \<Longrightarrow> halted k1 k' \<Longrightarrow> halted k k'"
  by (clarsimp simp: halted_def prints_def) blast

lemma halted_traps:
  assumes "keeps k k'" "same_traps k k'"
  shows "halted k k'"
proof -
  obtain s where "vm k' = (vm k)\<lparr>csr_sstatus := s\<rparr>" using assms(2) by (auto simp: same_traps_def)
  then have "vm k' = (vm k)\<lparr>csr_sstatus := s, console := console (vm k)\<rparr>" by simp
  then show ?thesis using assms(1) unfolding halted_def by blast
qed

lemma ecall_halts:
  assumes "time_ok k"
  shows "\<exists>k'. ecall ECALL_TURNOFF k = Some (Off, k') \<and> halted k k'"
proof -
  have now: "\<exists>k'. ecall ECALL_TURNOFF k = Some (Off, k') \<and> same_traps k k'" if p: "\<not> mtimecmp (mach k) \<le> mtime (mach k)" for k
  proof -
    let ?f = "(tf_generic k)\<lparr>tf_a0 := ECALL_TURNOFF, tf_a1 := 0, tf_a2 := 0\<rparr>"
    have "ecall ECALL_TURNOFF k = Some (Off, (trap_m k)\<lparr>tf_generic := ?f\<rparr>)"
      by (subst ecall.simps) (simp add: mcall_ecall(3) [OF refl p refl])
    then show ?thesis by (auto simp: same_traps_def trap_m_def write_mstatus_def upd_mach_def upd_vm_def)
  qed
  have "\<exists>k'. ecall ECALL_TURNOFF k = Some (Off, k') \<and> same_traps k k'"
  proof (cases "mtimecmp (mach k) \<le> mtime (mach k)")
    case True
    from ecall_pending [OF True, of ECALL_TURNOFF] assms obtain k1 where k1: "ecall ECALL_TURNOFF k = ecall ECALL_TURNOFF k1"
      "same_traps k k1" "\<not> mtimecmp (mach k1) \<le> mtime (mach k1)" by blast
    from now [OF k1(3)] k1(1) show ?thesis using same_traps_trans [OF k1(2)] by auto
  qed (rule now)
  then show ?thesis using keeps_ecall halted_traps by blast
qed

lemma hlt_off:
  assumes "time_ok k"
  shows "\<exists>k'. hlt k = Some (Off, k') \<and> halted k k'"
proof -
  have off: "\<exists>k'. ecall_poweroff k1 = Some (Off, k') \<and> halted k k'" if p: "prints k k1" for k1
    using ecall_halts [of k1] assms p halted_prints [OF p] by (auto simp: ecall_poweroff_def prints_def time_ok_def)
  have "\<exists>y. hlt k = Some y \<and> fst y = Off \<and> halted k (snd y)"
    unfolding hlt_def Let_def
    by (rule bind_prints [OF kprinterr_prints prints_refl], simp,
        rule bind_prints [OF kprintstr_prints], simp, assumption,
        rule bind_prints [OF print_call_info_prints], assumption,
        rule bind_prints [OF kprinterr_prints], simp, assumption,
        rule bind_prints [OF proc_print_frame_prints], assumption,
        (rule bind_prints [OF kprintdbg_prints], simp, assumption)+,
        rule bind_prints [OF kprintstr_prints], simp, assumption,
        rule bind_prints [OF kprinterr_prints], simp, assumption)
      (use off in fastforce)
  then show ?thesis by auto
qed

lemma err_hlt_off:
  assumes "time_ok k" "length s < 2 ^ 31"
  shows "\<exists>k'. err_hlt s k = Some (Off, k') \<and> halted k k'"
proof -
  obtain k1 where k1: "kprinterr (s @ [CHR 0x0A]) k = Some k1" "prints k k1"
    using kprinterr_prints [of "s @ [CHR 0x0A]" k] assms(2) by auto
  then show ?thesis using hlt_off [of k1] assms(1) halted_prints [OF k1(2)] by (auto simp: err_hlt_def prints_def time_ok_def)
qed


section \<open>Faults of user processes\<close>

text \<open>
  \<open>user_fault k\<close>: a process caused an access or page fault and no timer interrupt is pending.
  \<open>text_fault k\<close>: the address lies in the loaded segment of the process (as tested by \<open>scall\<close>).
\<close>

abbreviation running :: "kernel \<Rightarrow> process" where
  "running k \<equiv> process_list k (proc_running k)"

abbreviation fault_page :: "kernel \<Rightarrow> u64" where
  "fault_page k \<equiv> virt2vpn (csr_stval (mach k))"

definition user_fault :: "kernel \<Rightarrow> bool" where
  "user_fault k \<longleftrightarrow> read_sip k AND 0x20 = 0 \<and> csr_scause (mach k) \<in> {5, 7, 12, 13, 15}
     \<and> \<not> spp_set k \<and> proc_running k < MAX_PROCESSES \<and> p_uvmas (running k) \<noteq> NULL \<and> time_ok k"

definition text_fault :: "kernel \<Rightarrow> bool" where
  "text_fault k \<longleftrightarrow> virtual_load (elf (p_elf (running k))) \<le> csr_stval (mach k)
     \<and> csr_stval (mach k) \<le> virtual_load (elf (p_elf (running k))) + size_load (elf (p_elf (running k)))"

lemma cause_mask: "c \<in> {5, 7, 12, 13, 15} \<Longrightarrow> c AND NOT (push_bit 63 1) = c \<and> drop_bit 63 c AND 1 = 0" for c :: u64
  by (auto simp: push_bit_eq_mult)

lemma scall_fault:
  assumes "user_fault k"
  shows "scall k = page_fault (csr_scause (mach k)) k"
proof -
  have t: "timer_handler k = Some (Inl 0, k)" using assms by (simp add: user_fault_def timer_handler_def)
  have c: "csr_scause (mach k) \<in> {5, 7, 12, 13, 15}" using assms by (simp add: user_fault_def)
  show ?thesis
    using c cause_mask [OF c] by (auto simp: scall_def t Let_def)
qed

lemma page_fault_search:
  assumes "user_fault k" "dlist (vm_nodes (vm k)) (p_uvmas (running k)) xs"
  shows "page_fault sc k =
    (case find (covers (vm k) (fault_page k)) xs of
       None \<Rightarrow> err_hlt ''major pf'' k
     | Some n \<Rightarrow>
         if vma_of n = NULL \<or> vma_has_perm (vma_at (vm k) (vma_of n)) sc = 0 then err_hlt ''major pf'' k
         else do {
           (r, k') \<leftarrow> in_vm (pt_vma_map_page_at_vpn (csr_satp (vm k)) (vma_at (vm k) (vma_of n)) (fault_page k) 0) k;
           if r \<le> 0 then err_hlt ''no resources'' k'
           else if text_fault k then
             do { (r, k') \<leftarrow> handle_text_demand (csr_stval (mach k)) k';
                  if r \<noteq> 0 then hlt k' else Some (Returns, k') }
           else Some (Returns, k') })"
  using assms(1) vpn2vma_find [OF assms(2), of "fault_page k"]
  by (auto simp: page_fault_def Let_def user_fault_def text_fault_def conj_commute split: option.splits cong: if_cong)

text \<open>
  \<open>soft_fault k n\<close>: the first area that contains the faulting page is the one of node \<open>n\<close>; it permits
  the access, is readable and not identity mapped; the page tables are well-formed.
\<close>

definition soft_fault :: "kernel \<Rightarrow> addr \<Rightarrow> bool" where
  "soft_fault k n \<longleftrightarrow> user_fault k \<and> pt_inv (csr_satp (vm k)) (vm k)
     \<and> (\<exists>xs. dlist (vm_nodes (vm k)) (p_uvmas (running k)) xs \<and> find (covers (vm k) (fault_page k)) xs = Some n)
     \<and> vma_of n \<noteq> NULL \<and> vma_has_perm (vma_at (vm k) (vma_of n)) (csr_scause (mach k)) \<noteq> 0
     \<and> in_area (vma_at (vm k) (vma_of n)) (fault_page k)
     \<and> vm_flags (vm k) (vma_of n) AND VMA_IDENTITY = 0 \<and> bit (vm_flags (vm k) (vma_of n)) 0"

lemma fault_maps:
  assumes "soft_fault k n"
  obtains k' where "scall k = Some (Off, k')"
      "\<not> has_room (csr_satp (vm k)) (vma_at (vm k) (vma_of n)) (fault_page k) (vm k)"
  | st l b where "pt_inv (csr_satp (vm k)) st" "pt_grows (csr_satp (vm k)) (vm k) st"
      "mapped_new (csr_satp (vm k)) (vma_at (vm k) (vma_of n)) (fault_page k) (vm k) st l b"
      "in_area (vma_at (vm k) (vma_of n)) (fault_page k)" "v_flags (vma_at (vm k) (vma_of n)) AND VMA_IDENTITY = 0"
      "bit (v_flags (vma_at (vm k) (vma_of n))) 0" "pt_inv (csr_satp (vm k)) (vm k)"
      "scall k = (if text_fault k then
             do { (r, k') \<leftarrow> handle_text_demand (csr_stval (mach k)) (k\<lparr>vm := st\<rparr>);
                  if r \<noteq> 0 then hlt k' else Some (Returns, k') }
           else Some (Returns, k\<lparr>vm := st\<rparr>))"
proof -
  obtain xs where f: "user_fault k" "dlist (vm_nodes (vm k)) (p_uvmas (running k)) xs"
    and n: "find (covers (vm k) (fault_page k)) xs = Some n" "vma_of n \<noteq> NULL"
    and perm: "vma_has_perm (vma_at (vm k) (vma_of n)) (csr_scause (mach k)) \<noteq> 0"
    and vma: "in_area (vma_at (vm k) (vma_of n)) (fault_page k)" "vm_flags (vm k) (vma_of n) AND VMA_IDENTITY = 0"
      "bit (vm_flags (vm k) (vma_of n)) 0"
    and inv: "pt_inv (csr_satp (vm k)) (vm k)"
    using assms by (auto simp: soft_fault_def)
  let ?vma = "vma_at (vm k) (vma_of n)" and ?satp = "csr_satp (vm k)"
  obtain r st where r: "pt_vma_map_page_at_vpn ?satp ?vma (fault_page k) 0 (vm k) = Some (r, st)"
      "pt_inv ?satp st" "pt_grows ?satp (vm k) st"
    and o: "(\<exists>l b. mapped_new ?satp ?vma (fault_page k) (vm k) st l b) \<or> r \<le> 0"
    using pt_vma_map_page_spec [OF inv vma(1), of 0] vma(2,3) by (auto simp: vma_at_def)
  have run: "scall k = (if r \<le> 0 then err_hlt ''no resources'' (k\<lparr>vm := st\<rparr>)
      else if text_fault k then
             do { (r, k') \<leftarrow> handle_text_demand (csr_stval (mach k)) (k\<lparr>vm := st\<rparr>);
                  if r \<noteq> 0 then hlt k' else Some (Returns, k') }
           else Some (Returns, k\<lparr>vm := st\<rparr>))"
    using n perm r(1) by (simp add: scall_fault [OF f(1)] page_fault_search [OF f] in_vm_def)
  show thesis
  proof (cases "r \<le> 0")
    case True
    have "time_ok (k\<lparr>vm := st\<rparr>)" using f(1) by (simp add: user_fault_def time_ok_def)
    moreover have "\<not> has_room ?satp ?vma (fault_page k) (vm k)"
      using map_page_succeeds [OF inv vma(1), of 0] vma(2,3) r(1) True by (auto simp: vma_at_def)
    ultimately show ?thesis using that(1) err_hlt_off [of "k\<lparr>vm := st\<rparr>" "''no resources''"] run True by auto
  next
    case False
    then show ?thesis using that(2) o r(2,3) run vma inv by (auto simp: vma_at_def)
  qed
qed

end
