(* ===== verification/Text_Demand.thy ===== *)
theory Text_Demand
  imports Faults
begin

text \<open>
  Demand loading of the text segment (\<open>handle_text_demand\<close>, \<open>get_kvirt\<close>, \<open>proc_copy_binary\<close>): the
  page that answers a fault in the segment holds the bytes of the binary.
\<close>

unbundle bit_operations_syntax

section \<open>Writing to a page that is not part of the page tables\<close>

lemma write_data_page:
  assumes inv: "pt_inv satp st" and p: "p \<notin> owned satp st" and m: "\<And>a. drop_bit 12 a \<noteq> p \<Longrightarrow> m' a = pmem st a"
  shows "pt_inv satp (st\<lparr>pmem := m'\<rparr>)" "sv48_translate m' satp vpn = sv48_translate (pmem st) satp vpn"
proof -
  have wf: "pt_wf (pmem st) (frames st) (root_of satp)" using inv by (simp add: pt_inv_def)
  have k: "tables_kept (pmem st) m' (root_of satp)" 
    using p by (intro write_outside_kept [of p] m) (auto simp: owned_def)
  show "pt_inv satp (st\<lparr>pmem := m'\<rparr>)" using tables_kept_wf [OF k root_bound wf order_refl] inv by (simp add: pt_inv_def)
  show "sv48_translate m' satp vpn = sv48_translate (pmem st) satp vpn" by (rule tables_kept_translate [OF k wf])
qed

section \<open>The kernel's address of a user page\<close>

lemma get_kvirt_leaf:
  assumes "leaf_at (pmem st) (root_of satp) (virt2vpn v) d e"
  shows "get_kvirt satp v st = Some (phys2kvirt st (ppn2phys (pte_get_ppn e)), st)"
proof -
  obtain d' e' q where l: "leaf_at (pmem st) (root_of satp) (virt2vpn v) d' e'"
    and r: "pt_get_pte satp (virt2vpn v) (replicate 5 0) st
       = Some (int (Suc d'), walk_array (pmem st) satp (virt2vpn v), Some (pte_at st q (virt2vpn v) d'))"
    using pt_get_pte_spec [of st satp "virt2vpn v"] assms by blast
  have "e' = e" using leaf_at_unique [OF l assms] by simp
  moreover have "walk_array (pmem st) satp (virt2vpn v) ! Suc d' = e'"
    using l by (simp add: walk_array_nth(2) leaf_at_def)
  moreover have "nat (int (Suc d')) = Suc d'" by (rule nat_int)
  ultimately show ?thesis using r by (simp add: get_kvirt_def)
qed


section \<open>The copied bytes\<close>

text \<open>
  \<open>seg_off\<close> is the offset of the faulting page in the segment, \<open>seg_addr k i\<close> the physical address of
  byte \<open>i\<close> of the segment in the binary.
\<close>

abbreviation seg :: "kernel \<Rightarrow> elf_simple" where
  "seg k \<equiv> elf (p_elf (running k))"

definition seg_addr :: "kernel \<Rightarrow> u64 \<Rightarrow> addr" where
  "seg_addr k i = kaddr (vm k) (ptr_elf (p_elf (running k)) + offset_load (seg k) + i)"

definition seg_off :: "kernel \<Rightarrow> u64 \<Rightarrow> u64" where
  "seg_off k v = (v - virtual_load (seg k)) div PAGE_SIZE * PAGE_SIZE"

definition seg_len :: "kernel \<Rightarrow> u64 \<Rightarrow> u64" where
  "seg_len k v = (if (v - virtual_load (seg k)) div PAGE_SIZE = size_load (seg k) div PAGE_SIZE
     then size_load (seg k) mod PAGE_SIZE else PAGE_SIZE)"

lemma ucast_index:
  fixes x :: u64
  assumes "unat x < 2 ^ 31"
  shows "scast (ucast x :: u32) = x"
proof -
  have "x AND mask 31 = x" using assms by (simp add: u64_eq_iff unat_and_mask_64)
  then have "\<not> bit x n" if "31 \<le> n" for n using that by (metis bit_and_iff bit_mask_iff not_less)
  then show ?thesis by (intro bit_word_eqI) (auto simp: bit_simps word_size min_def)
qed

lemma ucast_index_inj: "unat x < 2 ^ 31 \<Longrightarrow> unat y < 2 ^ 31 \<Longrightarrow> (ucast x :: u32) = ucast y \<longleftrightarrow> x = y" for x y :: u64
  using ucast_index by metis

lemma handle_text_demand_copies:
  assumes "proc_running k < MAX_PROCESSES" "leaf_at (pmem (vm k)) (root_of (p_satp (running k))) (virt2vpn v) d e"
    and "pte_get_ppn e = block2ppn b" "b < NBLOCKS" "ptr_elf (p_elf (running k)) \<noteq> NULL"
    and "unat (v - virtual_load (seg k)) < 2 ^ 41" "unat (size_load (seg k)) < 2 ^ 41"
  shows "handle_text_demand v k =
    Some (0, k\<lparr>vm := (vm k)\<lparr>pmem := memcpy (pmem (vm k)) (ppn2phys (block2ppn b)) (seg_addr k (seg_off k v)) (seg_len k v)\<rparr>\<rparr>)"
proof -
  let ?i = "(v - virtual_load (seg k)) div 0x1000"
  have i: "unat ?i < 2 ^ 31" "unat (size_load (seg k) div 0x1000) < 2 ^ 31" using assms(6,7) by (simp_all add: unat_div)
  have "unat (ppn2phys (block2ppn b)) = 4096 * (0x80000 + b)" using block_base_bound assms(4) by blast
  then have nz: "phys2kvirt (vm k) (ppn2phys (block2ppn b)) \<noteq> 0" using assms(4) by (intro kvirt_nonzero) auto
  have "kaddr (vm k) (ptr_elf (p_elf (running k)) + offset_load (seg k) + 0x1000 * ?i) = seg_addr k (seg_off k v)"
    by (simp add: seg_addr_def seg_off_def mult.commute)
  then show ?thesis
    using assms(1,5) get_kvirt_leaf [OF assms(2)] nz
    by (simp add: handle_text_demand_def in_vm_def proc_copy_binary_def assms(3) Let_def ucast_index_inj [OF i]
        ucast_index [OF i(1)] seg_len_def)
qed

lemma seg_bytes:
  fixes D S x :: nat
  assumes "D \<le> S" "x < 4096"
  shows "x < (if D div 4096 = S div 4096 then S mod 4096 else 4096) \<longleftrightarrow> D div 4096 * 4096 + x < S"
proof -
  have S: "S = S div 4096 * 4096 + S mod 4096" by simp
  have le: "D div 4096 \<le> S div 4096" using assms(1) by (rule div_le_mono)
  show ?thesis
  proof (cases "D div 4096 = S div 4096")
    case True
    have "x < S mod 4096 \<longleftrightarrow> S div 4096 * 4096 + x < S" using S by linarith
    then show ?thesis by (simp add: True)
  next
    case False
    then have "D div 4096 * 4096 + 4096 \<le> S" using S le by linarith
    then show ?thesis using False assms(2) by simp
  qed
qed

lemma seg_range:
  fixes v vl sz y :: u64
  assumes "vl \<le> v" "v \<le> vl + sz" "unat vl < 2 ^ 47" "unat sz < 2 ^ 40"
  shows "unat (v - vl) = unat v - unat vl" "unat (v - vl) \<le> unat sz"
    and "unat ((v - vl) div 0x1000 * 0x1000) = (unat v - unat vl) div 4096 * 4096"
    and "y < 0x1000 \<Longrightarrow> y < (if (v - vl) div 0x1000 = sz div 0x1000 then sz mod 0x1000 else 0x1000)
      \<longleftrightarrow> (v - vl) div 0x1000 * 0x1000 + y < sz"
proof -
  have "unat (vl + sz) = unat vl + unat sz" using assms(3,4) by (intro unat_add_64) simp
  then have v: "unat vl \<le> unat v" "unat v \<le> unat vl + unat sz" using assms(1,2) by (auto simp: word_le_nat_alt)
  show D: "unat (v - vl) = unat v - unat vl" using v(1) by (rule unat_sub_64)
  then show le: "unat (v - vl) \<le> unat sz" using v by simp
  show o: "unat ((v - vl) div 0x1000 * 0x1000) = (unat v - unat vl) div 4096 * 4096"
    using le D assms(4) by (simp add: unat_mult_lem [THEN iffD1] unat_div)
  assume y: "y < 0x1000"
  then have "unat ((v - vl) div 0x1000 * 0x1000 + y) = (unat v - unat vl) div 4096 * 4096 + unat y"
    using o le D assms(4) by (subst unat_add_64) (auto simp: word_less_nat_alt)
  then show "y < (if (v - vl) div 0x1000 = sz div 0x1000 then sz mod 0x1000 else 0x1000)
      \<longleftrightarrow> (v - vl) div 0x1000 * 0x1000 + y < sz"
    using seg_bytes [of "unat v - unat vl" "unat sz" "unat y"] le D y
    by (cases "(unat v - unat vl) div 4096 = unat sz div 4096") (simp_all add: word_less_nat_alt u64_eq_iff unat_div unat_mod)
qed

lemma and_page_mask: "unat (w AND 0xFFF) = unat w mod 4096" for w :: u64
proof -
  have m: "(0xFFF :: u64) = mask 12" by (simp add: mask_eq_exp_minus_1)
  show ?thesis unfolding m by (simp only: unat_and_mask_64) simp
qed

lemma seg_arith:
  fixes v w vl sz :: u64
  assumes "vl \<le> v" "v \<le> vl + sz" "unat vl mod 4096 = 0" "unat vl < 2 ^ 47" "unat sz < 2 ^ 40" "drop_bit 12 w = drop_bit 12 v"
  shows "w - vl = (v - vl) div 0x1000 * 0x1000 + (w AND 0xFFF)"
proof -
  note R = seg_range(1-3) [OF assms(1,2,4,5)]
  have p: "unat w div 4096 = unat v div 4096" using assms(6) by (simp add: u64_eq_iff unat_drop_bit_64)
  obtain q where q: "unat vl = 4096 * q" using assms(3) by auto
  have dv: "(unat v - unat vl) div 4096 = unat v div 4096 - q" unfolding q by (simp add: div_mult_self_is_m)
  have "4096 * q \<le> unat v" using assms(1) q by (simp add: word_le_nat_alt)
  then have "q \<le> unat v div 4096" by simp
  then obtain r where r: "unat v div 4096 = q + r" using le_Suc_ex by blast
  define y where "y = unat w mod 4096"
  have w: "unat w = 4096 * (q + r) + y" using p r div_mult_mod_eq [of "unat w" 4096] by (metis mult.commute y_def)
  have vw: "unat vl \<le> unat w" unfolding w q by simp
  have "unat w - unat vl = r * 4096 + y" unfolding w q by simp
  then have W: "unat (w - vl) = (unat v - unat vl) div 4096 * 4096 + unat w mod 4096"
    using unat_sub_64 [OF vw] dv r by (simp add: y_def)
  have "unat ((v - vl) div 0x1000 * 0x1000 + (w AND 0xFFF)) = unat (w - vl)"
    unfolding W using R and_page_mask [of w] assms(5) by (subst unat_add_64) auto
  then show "w - vl = (v - vl) div 0x1000 * 0x1000 + (w AND 0xFFF)" by (simp add: u64_eq_iff)
qed

text \<open>
  \<open>text_ok k n\<close>: the area has less than 512 pages, so that no superpage is used; the running process
  uses its own page tables; the segment starts at a page boundary and is smaller than a TiB; its
  bytes in the binary lie neither in a free page nor in a page table of the process.
\<close>

definition text_ok :: "kernel \<Rightarrow> addr \<Rightarrow> bool" where
  "text_ok k n \<longleftrightarrow> unat (vm_pagen (vm k) (vma_of n)) < 512 \<and> p_satp (running k) = csr_satp (vm k)
     \<and> ptr_elf (p_elf (running k)) \<noteq> NULL \<and> unat (virtual_load (seg k)) mod 4096 = 0
     \<and> unat (virtual_load (seg k)) < 2 ^ 47 \<and> unat (size_load (seg k)) < 2 ^ 40
     \<and> (\<forall>i < size_load (seg k). drop_bit 12 (seg_addr k i) \<notin> owned (csr_satp (vm k)) (vm k))"

lemma small_area_level:
  assumes "fits vma vpn l" "in_area vma vpn" "l \<le> 3" "unat (v_pagen vma) < 512"
  shows "l = 0"
proof (rule ccontr)
  assume "l \<noteq> 0"
  then have "(512::nat) ^ 1 \<le> 512 ^ l" by (intro power_increasing) auto
  moreover have "512 ^ l \<le> unat (v_pagen vma)"
    using fits_nat [OF assms(2,3)] assms(1) by linarith
  ultimately show False using assms(4) by simp
qed


text \<open>In such an area there is room for a page if it is not mapped and five pages are free.\<close>

lemma unused_page:
  assumes "pt_inv satp st" "\<And>d e. \<not> leaf_at (pmem st) (root_of satp) vpn d e"
  shows "unused (pmem st) (root_of satp) vpn 0"
proof (cases "tab (pmem st) (root_of satp) vpn 3")
  case None
  then show ?thesis using assms(2) by (simp add: unused_def ent_def)
next
  case (Some p)
  moreover have "tab (pmem st) (root_of satp) vpn (Suc 3) = None" using no_tab_4 [OF assms(1), of vpn] by simp
  ultimately show ?thesis using free_entry [OF assms(1) _ Some _ assms(2)] assms(2) by (simp add: unused_def)
qed

lemma room_small:
  assumes "in_area vma vpn" "pt_inv satp st" "unat (v_pagen vma) < 512"
    and "\<And>d e. \<not> leaf_at (pmem st) (root_of satp) vpn d e" "5 \<le> card (free_pages (frames st))"
  shows "has_room satp vma vpn st"
proof -
  have "l = 0" if "fit_level vma vpn PAGE_TERA = Some l" for l
    using fit_level_spec [of vma vpn PAGE_TERA] that small_area_level [OF _ assms(1) _ assms(3)] by auto
  then show ?thesis using unused_page [OF assms(2,4)] assms(5) by (auto simp: has_room_def pages_needed_def)
qed

lemma kaddr_grows: "pt_grows satp st st' \<Longrightarrow> kaddr st' x = kaddr st x"
  using pt_grows_same by (simp add: kaddr_def is_paging_enabled_def)

lemma seg_addr_add: "seg_addr k (i + j) = seg_addr k i + j"
  by (simp add: seg_addr_def kaddr_def)

lemma text_page:
  assumes t: "text_ok k n" "text_fault k" and run: "proc_running k < MAX_PROCESSES"
    and inv: "pt_inv (csr_satp (vm k)) (vm k)" and g: "pt_grows (csr_satp (vm k)) (vm k) st"
    and b: "b < NBLOCKS" "b \<in> free_pages (frames (vm k))" "\<And>a. drop_bit 12 a = block2ppn b \<Longrightarrow> pmem st a = 0"
    and leaf: "leaf_at (pmem st) (root_of (csr_satp (vm k))) (fault_page k) 3 e" "pte_get_ppn e = block2ppn b"
  shows "\<exists>m'. handle_text_demand (csr_stval (mach k)) (k\<lparr>vm := st\<rparr>) = Some (0, k\<lparr>vm := st\<lparr>pmem := m'\<rparr>\<rparr>)
    \<and> (\<forall>a. drop_bit 12 a \<noteq> block2ppn b \<longrightarrow> m' a = pmem st a)
    \<and> (\<forall>v. virt2vpn v = fault_page k \<longrightarrow> m' (ppn2phys (block2ppn b) + (v AND 0xFFF)) =
         (if v - virtual_load (seg k) < size_load (seg k) then pmem (vm k) (seg_addr k (v - virtual_load (seg k))) else 0))"
proof -
  let ?v = "csr_stval (mach k)" and ?k = "k\<lparr>vm := st\<rparr>" and ?p = "ppn2phys (block2ppn b)"
  define off len where "off = seg_off k ?v" and "len = seg_len k ?v"
  have ok: "virtual_load (seg k) \<le> ?v" "?v \<le> virtual_load (seg k) + size_load (seg k)" "unat (virtual_load (seg k)) < 2 ^ 47"
    "unat (size_load (seg k)) < 2 ^ 40"
    using t by (auto simp: text_fault_def text_ok_def)
  have len: "len \<le> 0x1000" by (auto simp: len_def seg_len_def word_le_nat_alt unat_mod intro: less_imp_le)
  have src: "seg_addr ?k i = seg_addr k i" for i using kaddr_grows [OF g] by (simp add: seg_addr_def)
  have copy: "handle_text_demand ?v ?k = Some (0, k\<lparr>vm := st\<lparr>pmem := memcpy (pmem st) ?p (seg_addr k off) len\<rparr>\<rparr>)"
    using handle_text_demand_copies [of ?k ?v 3 e b] run leaf b(1) t(1) seg_range(2) [OF ok] ok(4) src
    by (simp add: text_ok_def off_def len_def seg_off_def seg_len_def)
  have page: "drop_bit 12 (?p + y) = block2ppn b" if "y < 0x1000" for y
    using page_of_offset [of "block2ppn b" "unat y"] that block2ppn_unat [OF b(1)] b(1) by (simp add: word_less_nat_alt)
  have byte: "off + y < size_load (seg k) \<longleftrightarrow> y < len" if "y < 0x1000" for y
    using seg_range(4) [OF ok that] by (simp add: off_def len_def seg_off_def seg_len_def)
  have outside: "drop_bit 12 (seg_addr k off + y) \<notin> owned (csr_satp (vm k)) (vm k)" if "y < len" for y
  proof -
    have "off + y < size_load (seg k)" using byte [of y] that len by auto
    then have "drop_bit 12 (seg_addr k (off + y)) \<notin> owned (csr_satp (vm k)) (vm k)" using t(1) by (simp add: text_ok_def)
    then show ?thesis by (simp add: seg_addr_add)
  qed
  have free: "block2ppn b \<in> owned (csr_satp (vm k)) (vm k)" using b(2) by (simp add: owned_def)
  have dis: "?p + x \<noteq> seg_addr k off + y" if "x < len" "y < len" for x y
    using page [of x] outside [OF that(2)] free that(1) len by auto
  have m: "memcpy (pmem st) ?p (seg_addr k off) len a = (if a - ?p < len then pmem st (seg_addr k off + (a - ?p)) else pmem st a)" for a
    by (rule memcpy_disjoint) (rule dis)
  have old: "pmem st (seg_addr k off + y) = pmem (vm k) (seg_addr k off + y)" if "y < len" for y
    using g outside [OF that] by (simp add: pt_grows_def)
  have "memcpy (pmem st) ?p (seg_addr k off) len a = pmem st a" if "drop_bit 12 a \<noteq> block2ppn b" for a
    using m [of a] page [of "a - ?p"] that less_le_trans [OF _ len, of "a - ?p"] by auto
  moreover have "memcpy (pmem st) ?p (seg_addr k off) len (?p + (w AND 0xFFF)) =
      (if w - virtual_load (seg k) < size_load (seg k) then pmem (vm k) (seg_addr k (w - virtual_load (seg k))) else 0)"
    if w: "virt2vpn w = fault_page k" for w
  proof -
    have y: "w AND 0xFFF < 0x1000" by (simp add: word_less_nat_alt and_page_mask)
    have "w - virtual_load (seg k) = off + (w AND 0xFFF)"
      using seg_arith [OF ok(1,2) _ ok(3,4), of w] t(1) w by (simp add: off_def seg_off_def text_ok_def phys2ppn_pt_def)
    then show ?thesis
      using m [of "?p + (w AND 0xFFF)"] byte [OF y] old [of "w AND 0xFFF"] b(3) page [OF y] seg_addr_add [of k off] by simp
  qed
  ultimately show ?thesis using copy by blast
qed

end
