(* ===== verification/Fault_Props.thy ===== *)
theory Fault_Props
  imports Text_Demand
begin

text \<open>The properties of page faults: which are answered, with which page, and which stop the machine.\<close>

unbundle bit_operations_syntax

section \<open>A process with one area\<close>

text \<open>Process 1 of the example has the pages 0x10 to 0x13 and a text segment of 16 bytes.\<close>

definition fault_ex :: "buddy \<Rightarrow> u64 \<Rightarrow> u64 \<Rightarrow> kernel" where
  "fault_ex fr cause addr = kernel_ex\<lparr>
     vm := pt_ex\<lparr>frames := fr, vm_nodes := list_append 8 0x1018 (vm_nodes pt_ex), vm_vpn := \<lambda>_. 0x10, vm_pagen := \<lambda>_. 4,
       vm_flags := \<lambda>_. 0x4d, csr_satp := satp_ex\<rparr>,
     process_list := (process_list kernel_ex)(1 := (proc_ex PROCESS_RUNNING)\<lparr>p_satp := satp_ex,
       p_elf := \<lparr>elf = \<lparr>e_entry = 0x10000, size_load = 16, offset_load = 0, virtual_load = 0x10000, elf_valid = 1\<rparr>, ptr_elf = 0x1000\<rparr>\<rparr>),
     mach := (mach kernel_ex)\<lparr>csr_scause := cause, csr_stval := addr\<rparr>\<rparr>"

lemma fault_ex_list: "dlist (vm_nodes (vm (fault_ex fr c a))) (p_uvmas (running (fault_ex fr c a))) [0x1018]"
proof -
  have "dlist (vm_nodes pt_ex) 8 []" by (simp add: pt_ex_def dlist_node_init)
  from dlist_list_append [OF this, of "0x1018"] show ?thesis by (simp add: fault_ex_def kernel_ex_def proc_ex_def)
qed

lemma fault_ex_user: "c \<in> {5, 7, 12, 13, 15} \<Longrightarrow> user_fault (fault_ex fr c a)"
  by (simp add: user_fault_def fault_ex_def kernel_ex_def proc_ex_def pt_ex_def read_sip_def read_mip_def time_ok_def)

lemma fault_ex_soft:
  assumes "drop_bit 12 a \<in> {0x10, 0x11, 0x12, 0x13}" "pt_inv satp_ex (pt_ex\<lparr>frames := fr\<rparr>)"
  shows "soft_fault (fault_ex fr 13 a) 0x1018"
proof -
  let ?k = "fault_ex fr 13 a"
  have "pt_inv (csr_satp (vm ?k)) (vm ?k)" using assms(2) by (simp add: pt_inv_def fault_ex_def)
  moreover have "find (covers (vm ?k) (fault_page ?k)) [0x1018] = Some 0x1018" "in_area (vma_at (vm ?k) 0x1000) (fault_page ?k)"
    using assms(1) by (auto simp: covers_def fault_ex_def phys2ppn_pt_def in_area_def vma_at_def)
  moreover have "vma_has_perm (vma_at (vm ?k) 0x1000) (csr_scause (mach ?k)) \<noteq> 0"
    by (simp add: fault_ex_def vma_has_perm_def vma_at_def)
  moreover have "vm_flags (vm ?k) 0x1000 AND VMA_IDENTITY = 0 \<and> bit (vm_flags (vm ?k) 0x1000) 0" by (simp add: fault_ex_def)
  ultimately show ?thesis using fault_ex_user [of 13 fr a] fault_ex_list [of fr 13 a] by (auto simp: soft_fault_def)
qed

lemma fault_ex_text:
  assumes "pt_inv satp_ex (pt_ex\<lparr>frames := fr\<rparr>)"
  shows "text_ok (fault_ex fr 13 a) 0x1018"
proof -
  let ?k = "fault_ex fr 13 a"
  have own: "unat p \<ge> 0x80000" if "p \<in> owned (csr_satp (vm ?k)) (vm ?k)" for p
  proof -
    have "buddy_inv (frames (vm ?k))" "pt_wf (pmem (vm ?k)) (frames (vm ?k)) (root_of satp_ex)"
      using assms by (simp_all add: pt_inv_def fault_ex_def)
    moreover have "csr_satp (vm ?k) = satp_ex" by (simp add: fault_ex_def)
    ultimately have "\<exists>b < NBLOCKS. p = block2ppn b"
      using that pt_wfD(1) free_pages_bound by (auto simp: owned_def pt_pages_def live_page_def) blast+
    then show ?thesis by (auto simp: block2ppn_unat)
  qed
  have "drop_bit 12 (seg_addr ?k i) \<notin> owned (csr_satp (vm ?k)) (vm ?k)" if i: "i < 16" for i
  proof
    assume "drop_bit 12 (seg_addr ?k i) \<in> owned (csr_satp (vm ?k)) (vm ?k)"
    moreover have "seg_addr ?k i = 0x1000 + i"
      by (simp add: seg_addr_def fault_ex_def kaddr_def is_paging_enabled_def kernel_ex_def proc_ex_def pt_ex_def)
    moreover have "unat (0x1000 + i) = 0x1000 + unat i" using i by (subst unat_add_64) (auto simp: word_less_nat_alt)
    ultimately show False using own [of "drop_bit 12 (seg_addr ?k i)"] i by (simp add: unat_drop_bit_64 word_less_nat_alt)
  qed
  then show ?thesis by (simp add: text_ok_def) (simp add: fault_ex_def kernel_ex_def proc_ex_def)
qed

lemma fault_ex_room:
  assumes "516 \<le> card (free_pages fr)"
  shows "has_room satp vma vpn (vm (fault_ex fr c a))"
  using assms by (intro room_ex) (simp_all add: fault_ex_def, simp add: pt_ex_def)

section \<open>The properties\<close>

text \<open>(C15) A fault of a process (no timer interrupt being pending) outside of all its areas, or one that the area does not
  permit, powers the machine off: the kernel terminates, and memory, page tables, allocator and processes are as before, so that no
  page is mapped.\<close>
theorem page_fault_major:
  assumes "user_fault k" "dlist (vm_nodes (vm k)) (p_uvmas (running k)) xs"
    and "\<And>n. find (covers (vm k) (fault_page k)) xs = Some n \<Longrightarrow>
      vma_has_perm (vma_at (vm k) (vma_of n)) (csr_scause (mach k)) = 0"
  shows "\<exists>k'. scall k = Some (Off, k') \<and> keeps k k'
    \<and> (\<exists>s xs. vm k' = (vm k)\<lparr>csr_sstatus := s, console := xs\<rparr>)"
  using err_hlt_off [of k "''major pf''"] assms page_fault_search [OF assms(1,2)]
  by (auto simp: scall_fault user_fault_def halted_def split: option.splits)

theorem page_fault_major_witness:
  "\<exists>k'. scall (fault_ex freed01 13 0x5000) = Some (Off, k') \<and> keeps (fault_ex freed01 13 0x5000) k'"
proof -
  have "\<not> covers (vm (fault_ex freed01 13 0x5000)) (fault_page (fault_ex freed01 13 0x5000)) 0x1018"
    by (simp add: covers_def fault_ex_def phys2ppn_pt_def)
  then show ?thesis using page_fault_major [OF fault_ex_user fault_ex_list, of 13 freed01 "0x5000"] by auto
qed

text \<open>(C14) A page fault outside the text segment, in a readable area without \<open>VMA_IDENTITY\<close> that permits the access, is answered:
  the kernel terminates, and the handler
  returns whenever the place of the page is unused and the allocator has five free pages (516 if a larger
  page fits into the area). When it returns, the processor translates the faulting page to a page that was free and
  is filled with zeros; every address outside of the mapped page translates as before, no process
  is disturbed and the page tables stay well-formed. Otherwise it powers the machine off.\<close>
theorem page_fault_correct:
  assumes "soft_fault k n" "\<not> text_fault k"
  shows "\<exists>c k'. scall k = Some (c, k')
    \<and> (c = Off \<and> \<not> has_room (csr_satp (vm k)) (vma_at (vm k) (vma_of n)) (fault_page k) (vm k)
      \<or> c = Returns \<and> keeps k k' \<and> pt_inv (csr_satp (vm k)) (vm k')
        \<and> (\<exists>b \<in> free_pages (frames (vm k)). sv48_translate (pmem (vm k')) (csr_satp (vm k)) (fault_page k) = Some (block2ppn b)
             \<and> (\<forall>a. drop_bit 12 a = block2ppn b \<longrightarrow> pmem (vm k') a = 0))
        \<and> (\<exists>l \<le> 3. fits (vma_at (vm k) (vma_of n)) (fault_page k) l \<and> (\<forall>vpn. pre vpn (4 - l) \<noteq> pre (fault_page k) (4 - l) \<longrightarrow>
               sv48_translate (pmem (vm k')) (csr_satp (vm k)) vpn = sv48_translate (pmem (vm k)) (csr_satp (vm k)) vpn)))"
proof (rule fault_maps [OF assms(1)])
  let ?vma = "vma_at (vm k) (vma_of n)" and ?satp = "csr_satp (vm k)"
  fix st l b
  assume m: "pt_inv ?satp st" "mapped_new ?satp ?vma (fault_page k) (vm k) st l b" "bit (v_flags ?vma) 0" "pt_inv ?satp (vm k)"
    and "scall k = (if text_fault k then
           do { (r, k') \<leftarrow> handle_text_demand (csr_stval (mach k)) (k\<lparr>vm := st\<rparr>);
                if r \<noteq> 0 then hlt k' else Some (Returns, k') }
         else Some (Returns, k\<lparr>vm := st\<rparr>))"
  moreover have "l \<le> 3" "fits ?vma (fault_page k) l" using m(2) by (simp_all add: mapped_new_def)
  moreover note H = mapped_new_hw [OF m(4,1,2,3)]
  ultimately show ?thesis using assms(2) H(1) by (simp add: keeps_def) (meson H(2))
qed blast

theorem page_fault_correct_witness:
  "\<exists>fr k'. scall (fault_ex fr 13 0x12000) = Some (Returns, k') \<and> keeps (fault_ex fr 13 0x12000) k'
     \<and> sv48_translate (pmem (vm k')) satp_ex 0x12 \<noteq> None"
proof -
  obtain fr where fr: "pt_inv satp_ex (pt_ex\<lparr>frames := fr\<rparr>)" "7679 \<le> card (free_pages fr)" using rich_ex by blast
  let ?k = "fault_ex fr 13 0x12000"
  have "soft_fault ?k 0x1018" by (rule fault_ex_soft [OF _ fr(1)]) simp
  moreover have "\<not> text_fault ?k" by (simp add: text_fault_def fault_ex_def kernel_ex_def)
  moreover have "has_room satp vma vpn (vm ?k)" for satp vma vpn using fr(2) by (intro fault_ex_room) simp
  moreover have "csr_satp (vm ?k) = satp_ex" "fault_page ?k = 0x12" by (simp_all add: fault_ex_def phys2ppn_pt_def)
  ultimately show ?thesis using page_fault_correct [of ?k "0x1018"] by (intro exI [of _ fr]) auto
qed

text \<open>(C13) Demand loading: a fault in the text segment of a process, whose load address is page aligned and whose area
  has fewer than 512 pages, is answered with a page that holds the program. The segment must be loaded below 2^47 and be smaller than a
  TiB, and its bytes in the binary lie in no free page and no page table. The kernel terminates, and the handler
  returns if the page is not mapped yet and five pages are free (otherwise it may power the machine off). Then
  every byte the processor reads from the faulting page is the byte of the binary at that place of the segment,
  and zero behind the end of the segment; every other page translates as before.\<close>
theorem text_demand_correct:
  assumes "soft_fault k n" "text_fault k" "text_ok k n"
  shows "\<exists>c k'. scall k = Some (c, k')
    \<and> (c = Off \<and> ((\<exists>d e. leaf_at (pmem (vm k)) (root_of (csr_satp (vm k))) (fault_page k) d e) \<or> card (free_pages (frames (vm k))) < 5)
      \<or> c = Returns \<and> keeps k k' \<and> pt_inv (csr_satp (vm k)) (vm k')
        \<and> (\<exists>b \<in> free_pages (frames (vm k)). sv48_translate (pmem (vm k')) (csr_satp (vm k)) (fault_page k) = Some (block2ppn b)
             \<and> (\<forall>v. virt2vpn v = fault_page k \<longrightarrow> pmem (vm k') (ppn2phys (block2ppn b) + (v AND 0xFFF)) =
                  (if v - virtual_load (seg k) < size_load (seg k) then pmem (vm k) (seg_addr k (v - virtual_load (seg k))) else 0)))
        \<and> (\<forall>vpn. pre vpn 4 \<noteq> pre (fault_page k) 4 \<longrightarrow>
             sv48_translate (pmem (vm k')) (csr_satp (vm k)) vpn = sv48_translate (pmem (vm k)) (csr_satp (vm k)) vpn))"
proof (rule fault_maps [OF assms(1)])
  let ?vma = "vma_at (vm k) (vma_of n)" and ?satp = "csr_satp (vm k)"
  fix k' assume off: "scall k = Some (Off, k')" "\<not> has_room ?satp ?vma (fault_page k) (vm k)"
  have a: "in_area ?vma (fault_page k)" "pt_inv ?satp (vm k)" using assms(1) by (auto simp: soft_fault_def)
  have "unat (v_pagen ?vma) < 512" using assms(3) by (simp add: text_ok_def vma_at_def)
  from room_small [OF a this] have "(\<exists>d e. leaf_at (pmem (vm k)) (root_of ?satp) (fault_page k) d e) \<or> card (free_pages (frames (vm k))) < 5"
    using off(2) by force
  then show ?thesis using off(1) by blast
next
  let ?vma = "vma_at (vm k) (vma_of n)" and ?satp = "csr_satp (vm k)"
  fix st l b
  assume m: "pt_inv ?satp st" "pt_grows ?satp (vm k) st" "mapped_new ?satp ?vma (fault_page k) (vm k) st l b"
      "in_area ?vma (fault_page k)" "bit (v_flags ?vma) 0" "pt_inv ?satp (vm k)"
    and run: "scall k = (if text_fault k then
           do { (r, k') \<leftarrow> handle_text_demand (csr_stval (mach k)) (k\<lparr>vm := st\<rparr>);
                if r \<noteq> 0 then hlt k' else Some (Returns, k') }
         else Some (Returns, k\<lparr>vm := st\<rparr>))"
  have l0: "l = 0" using m(3,4) assms(3) small_area_level [of ?vma "fault_page k" l]
    by (auto simp: mapped_new_def text_ok_def vma_at_def)
  have b: "b \<in> free_pages (frames (vm k))" "block2ppn b \<notin> owned ?satp st" "\<And>a. drop_bit 12 a = block2ppn b \<Longrightarrow> pmem st a = 0"
    and leaf: "leaf_at (pmem st) (root_of ?satp) (fault_page k) 3 (new_pte (v_flags ?vma) (block2ppn b))"
    using m(3) by (auto simp: mapped_new_def l0 pages_0)
  have bN: "b < NBLOCKS" using free_pages_bound b(1) m(6) by (auto simp: pt_inv_def)
  have ppn: "pte_get_ppn (new_pte (v_flags ?vma) (block2ppn b)) = block2ppn b"
    using block2ppn_unat [OF bN] bN by (simp add: new_pte_fields u64_eq_iff unat_and_mask_64)
  have "proc_running k < MAX_PROCESSES" using assms(1) by (simp add: soft_fault_def user_fault_def)
  from text_page [OF assms(3,2) this m(6,2) bN b(1,3) leaf ppn]
  obtain m' where m': "handle_text_demand (csr_stval (mach k)) (k\<lparr>vm := st\<rparr>) = Some (0, k\<lparr>vm := st\<lparr>pmem := m'\<rparr>\<rparr>)"
    "\<And>a. drop_bit 12 a \<noteq> block2ppn b \<Longrightarrow> m' a = pmem st a"
    "\<forall>v. virt2vpn v = fault_page k \<longrightarrow> m' (ppn2phys (block2ppn b) + (v AND 0xFFF)) =
         (if v - virtual_load (seg k) < size_load (seg k) then pmem (vm k) (seg_addr k (v - virtual_load (seg k))) else 0)"
    by blast
  note W = write_data_page [OF m(1) b(2), of m', OF m'(2)]
  have "sv48_translate (pmem st) ?satp (fault_page k) = Some (block2ppn b)"
    using sv48_translate_leaf [of "pmem st" "frames st" ?satp "fault_page k"] m(1,5) leaf ppn
    by (auto simp: pt_inv_def hw_leaf_def bit_new_pte intro!: exI [of _ 3] exI)
  moreover have "sv48_translate m' ?satp vpn = sv48_translate (pmem (vm k)) ?satp vpn" if "pre vpn 4 \<noteq> pre (fault_page k) 4" for vpn
    using mapped_new_hw(2) [OF m(6,1,3,5), of vpn] that W(2) by (simp add: l0)
  ultimately show ?thesis
    using run assms(2) m'(1,3) b(1) W by (auto simp: keeps_def intro!: bexI [of _ b])
qed

theorem text_demand_correct_witness:
  "\<exists>fr k'. scall (fault_ex fr 13 0x10004) = Some (Returns, k') \<and> keeps (fault_ex fr 13 0x10004) k'
     \<and> sv48_translate (pmem (vm k')) satp_ex 0x10 \<noteq> None"
proof -
  obtain fr where fr: "pt_inv satp_ex (pt_ex\<lparr>frames := fr\<rparr>)" "7679 \<le> card (free_pages fr)" using rich_ex by blast
  let ?k = "fault_ex fr 13 0x10004"
  have "soft_fault ?k 0x1018" by (rule fault_ex_soft [OF _ fr(1)]) simp
  moreover have "text_fault ?k" by (simp add: text_fault_def fault_ex_def kernel_ex_def)
  moreover have "\<not> leaf_at (pmem (vm ?k)) r v d e" for r v d e using pt_ex_leaf by (simp add: fault_ex_def)
  moreover have "\<not> card (free_pages (frames (vm ?k))) < 5" using fr(2) by (simp add: fault_ex_def)
  moreover have "csr_satp (vm ?k) = satp_ex" "fault_page ?k = 0x10" by (simp_all add: fault_ex_def phys2ppn_pt_def)
  ultimately show ?thesis using text_demand_correct [OF _ _ fault_ex_text [OF fr(1)], of "0x10004"] by (intro exI [of _ fr]) auto
qed

end
