(* ===== verification/Areas.thy ===== *)
theory Areas
  imports Regions
begin

text \<open>Lists of areas: allocating a head and appending areas (\<open>pt_init_vmas_head\<close>, \<open>pt_alloc_vma\<close>).\<close>

unbundle bit_operations_syntax

definition area_list :: "pt \<Rightarrow> addr \<Rightarrow> addr list \<Rightarrow> bool" where
  "area_list st head xs \<longleftrightarrow> dlist (vm_nodes st) head xs \<and> handed st head 16 \<and> (\<forall>n \<in> set xs. handed st (vma_of n) 40)"

definition areas_kept :: "pt \<Rightarrow> pt \<Rightarrow> bool" where
  "areas_kept st st' \<longleftrightarrow> vm_vpn st' = vm_vpn st \<and> vm_pagen st' = vm_pagen st \<and> vm_flags st' = vm_flags st
     \<and> csr_satp st' = csr_satp st \<and> kvmas_head st' = kvmas_head st \<and> layout st' = layout st \<and> quiet st st'"

lemma areas_kept_trans: "areas_kept st st' \<Longrightarrow> areas_kept st' st'' \<Longrightarrow> areas_kept st st''"
  by (auto simp: areas_kept_def intro: quiet_trans)

text \<open>\<open>took n st st'\<close>: at most \<open>n\<close> pages were taken from the allocator.\<close>

definition took :: "nat \<Rightarrow> pt \<Rightarrow> pt \<Rightarrow> bool" where
  "took n st st' \<longleftrightarrow> card (free_pages (frames st)) \<le> card (free_pages (frames st')) + n"

lemma took_trans: "took n st st' \<Longrightarrow> took m st' st'' \<Longrightarrow> took (n + m) st st''"
  by (simp add: took_def)

lemma card_minus_one: "card A \<le> card (A - {b}) + 1"
  by (cases "finite A") (auto simp: card_Diff_singleton_if)

lemma salloc_took: "salloc_ok sz st p st' \<Longrightarrow> took 1 st st'"
  using card_minus_one by (auto simp: salloc_ok_def took_def)

lemma handed_nonzero:
  assumes "handed st p sz" "i < sz"
  shows "p + i \<noteq> 0"
proof -
  obtain b off where b: "b < NBLOCKS" "p = phys2kvirt st (ppn2phys (block2ppn b) + off)" "unat off + unat sz \<le> 4096"
    using assms(1) by (auto simp: handed_def)
  have i: "unat off + unat i < 4096" using assms(2) b(3) by (simp add: word_less_nat_alt)
  have "p + i = phys2kvirt st (ppn2phys (block2ppn b) + of_nat (unat off + unat i))" by (simp add: b(2) phys2kvirt_def add.assoc)
  moreover have "unat (ppn2phys (block2ppn b) + of_nat (unat off + unat i)) = 4096 * (0x80000 + b) + (unat off + unat i)"
    using unat_page_offset [of "block2ppn b" "unat off + unat i"] i b(1) by (simp add: block2ppn_unat)
  ultimately show ?thesis using kvirt_nonzero [of "ppn2phys (block2ppn b) + of_nat (unat off + unat i)" st] i b(1) by simp
qed

lemma area_list_nonzero: "area_list st head xs \<Longrightarrow> n \<in> set (head # xs) \<Longrightarrow> n \<noteq> NULL"
  using handed_nonzero [of st head 16 0] handed_nonzero [of st "vma_of n" 40 24] by (auto simp: area_list_def)

lemma handed_same: "ksatp st' = ksatp st \<Longrightarrow> frames st' = frames st \<Longrightarrow> salloc_base st' = salloc_base st \<Longrightarrow>
   salloc_cursor st' = salloc_cursor st \<Longrightarrow> handed st' p n = handed st p n"
  by (simp add: handed_def phys2kvirt_def is_paging_enabled_def)

lemma handed_reset:
  assumes "handed st p n" "frames st' = frames st" "ksatp st' = ksatp st" "salloc_base st' = 0"
  shows "handed st' p n"
proof -
  have "ppn2phys (block2ppn b) \<noteq> 0" if "b < NBLOCKS" for b using block_base_bound [OF that] by auto
  then show ?thesis using assms unfolding handed_def phys2kvirt_def is_paging_enabled_def by metis
qed

lemma salloc_inv_nodes [simp]: "salloc_inv (st\<lparr>vm_nodes := h\<rparr>) = salloc_inv st"
  by (simp add: salloc_inv_def)

lemma dlist_next_head: "dlist h head xs \<Longrightarrow> nnext h head = hd (xs @ [head])"
  by (cases xs) (simp_all add: dlist_def)

lemma salloc_inv_grow:
  assumes "salloc_inv st" "buddy_inv (frames st')" "salloc_base st' = salloc_base st" "salloc_cursor st' = salloc_cursor st"
    and "\<And>c x. allocated (frames st) c = Some x \<Longrightarrow> allocated (frames st') c = Some x"
  shows "salloc_inv st'"
  using assms unfolding salloc_inv_def by metis

lemma init_head_spec:
  assumes "salloc_inv st"
  shows "(\<exists>p st'. pt_init_vmas_head st = Some (0, p, st') \<and> p \<noteq> NULL \<and> salloc_inv st' \<and> areas_kept st st' \<and> took 1 st st'
      \<and> area_list st' p [])
    \<or> (\<exists>st'. pt_init_vmas_head st = Some (- ENORESOURCES, NULL, st') \<and> salloc_inv st' \<and> areas_kept st st' \<and> free_pages (frames st) = {})"
proof -
  have binv: "buddy_inv (frames st)" using assms by (simp add: salloc_inv_def)
  have "(16::u64) > 0" "unat (16::u64) \<le> 4096" by simp_all
  from pt_salloc_spec [OF assms this] show ?thesis
  proof (elim disjE exE conjE)
    fix p st1 assume s: "pt_salloc 16 st = Some (p, st1)" "salloc_ok 16 st p st1"
    let ?st = "st1\<lparr>vm_nodes := node_init p (vm_nodes st1)\<rparr>"
    have p: "p \<noteq> NULL" "salloc_inv st1" using s(2) by (auto simp: salloc_ok_def)
    have "pt_init_vmas_head st = Some (0, p, ?st)" using s(1) p(1) by (simp add: pt_init_vmas_head_def)
    moreover have "salloc_inv ?st" using p(2) by simp
    moreover have "areas_kept st ?st"
      using s(2) quiet_trans [OF salloc_quiet [OF s(2) binv] quiet_same [of ?st st1]] by (simp add: areas_kept_def salloc_ok_def salloc_rest_def)
    moreover have "took 1 st ?st" using salloc_took [OF s(2)] by (simp add: took_def)
    moreover have "area_list ?st p []"
      using salloc_handed(1) [OF s(2) binv] handed_same [of ?st st1 p 16] by (simp add: area_list_def dlist_node_init)
    ultimately show ?thesis using p(1) by blast
  next
    fix st1 assume s: "pt_salloc 16 st = Some (NULL, st1)" "salloc_inv st1" "salloc_rest st st1" "frames st1 = frames st"
      "pmem st1 = pmem st" "free_pages (frames st) = {}"
    have "quiet st st1" using s(3-5) by (intro quiet_same) (auto simp: salloc_rest_def)
    then show ?thesis using s by (auto simp: pt_init_vmas_head_def areas_kept_def salloc_rest_def)
  qed
qed

lemma alloc_vma_spec:
  assumes inv: "salloc_inv st" and l: "area_list st head xs"
  shows "(\<exists>v st'. pt_alloc_vma head st = Some (v, st') \<and> v \<noteq> NULL \<and> salloc_inv st' \<and> areas_kept st st' \<and> took 1 st st'
      \<and> area_list st' head (xs @ [node_of v]) \<and> v \<notin> vma_of ` set xs)
    \<or> (\<exists>st'. pt_alloc_vma head st = Some (NULL, st') \<and> salloc_inv st' \<and> areas_kept st st' \<and> area_list st' head xs
      \<and> free_pages (frames st) = {})"
proof -
  have binv: "buddy_inv (frames st)" using inv by (simp add: salloc_inv_def)
  have "(40::u64) > 0" "unat (40::u64) \<le> 4096" by simp_all
  from pt_salloc_spec [OF inv this] show ?thesis
  proof (elim disjE exE conjE)
    fix v st1 assume s: "pt_salloc 40 st = Some (v, st1)" "salloc_ok 40 st v st1"
    have nodes: "vm_nodes st1 = vm_nodes st" and v: "v \<noteq> NULL" "salloc_inv st1"
      using s(2) by (auto simp: salloc_ok_def salloc_rest_def)
    note H = salloc_handed [OF s(2) binv, simplified]
    have hd: "handed st1 head 16" "apart head 16 v 40" using H(2) [of head 16] l by (auto simp: area_list_def)
    have el: "handed st1 (vma_of n) 40" "apart (vma_of n) 40 v 40" if "n \<in> set xs" for n
      using H(2) [of "vma_of n" 40] l that by (auto simp: area_list_def)
    have new: "node_of v \<notin> set (head # xs)"
    proof
      assume "node_of v \<in> set (head # xs)"
      then consider "node_of v = head" | "node_of v \<in> set xs" by auto
      then show False
      proof cases
        case 1
        then have "head + 0 = v + 24" by simp
        moreover have "(0::u64) < 16" "(24::u64) < 40" by simp_all
        ultimately show ?thesis using hd(2) unfolding apart_def by metis
      next
        case 2
        then have "apart v 40 v 40" using el(2) [of "node_of v"] by simp
        moreover have "(0::u64) < 40" by simp
        ultimately show ?thesis unfolding apart_def by metis
      qed
    qed
    let ?h = "node_init (node_of v) (vm_nodes st)"
    let ?st = "st1\<lparr>vm_nodes := list_append head (node_of v) ?h\<rparr>"
    have dl: "dlist (vm_nodes st) head xs" using l by (simp add: area_list_def)
    have d: "dlist ?h head xs"
    proof (rule dlist_frame [OF dl])
      fix a assume "a \<in> set (head # xs)"
      then have "a \<noteq> node_of v" using new by blast
      then show "nnext ?h a = nnext (vm_nodes st) a \<and> nprev ?h a = nprev (vm_nodes st) a" by (simp add: node_init_def)
    qed
    have "is_node_init head ?h"
    proof -
      have "nnext ?h head \<in> set (head # xs)" "nprev ?h head \<in> set (head # xs)"
        unfolding dlist_next_head [OF d] dlist_prev_head [OF d] by (cases xs; simp)+
      then show ?thesis using area_list_nonzero [OF l] by (simp add: is_node_init_def)
    qed
    then have "pt_alloc_vma head st = Some (v, ?st)" using s(1) v(1) nodes by (simp add: pt_alloc_vma_def)
    moreover have "salloc_inv ?st" using v(2) by simp
    moreover have "areas_kept st ?st"
      using s(2) quiet_trans [OF salloc_quiet [OF s(2) binv] quiet_same [of ?st st1]] by (simp add: areas_kept_def salloc_ok_def salloc_rest_def)
    moreover have "took 1 st ?st" using salloc_took [OF s(2)] by (simp add: took_def)
    moreover have "area_list ?st head (xs @ [node_of v])"
      using dlist_list_append [OF d new] hd(1) el(1) H(1) handed_same [of ?st st1] by (auto simp: area_list_def)
    moreover have "v \<notin> vma_of ` set xs" using new by auto
    ultimately show ?thesis using v(1) by blast
  next
    fix st1 assume s: "pt_salloc 40 st = Some (NULL, st1)" "salloc_inv st1" "salloc_rest st st1" "frames st1 = frames st"
      "pmem st1 = pmem st" "free_pages (frames st) = {}" "salloc_base st1 = 0"
    have "quiet st st1" using s(3-5) by (intro quiet_same) (auto simp: salloc_rest_def)
    moreover have "area_list st1 head xs"
      using l s(3) handed_reset [OF _ s(4) _ s(7)] by (simp add: area_list_def salloc_rest_def)
    ultimately show ?thesis using s by (auto simp: pt_alloc_vma_def areas_kept_def salloc_rest_def)
  qed
qed

lemma two_areas:
  assumes "salloc_inv st" "area_list st head []"
  shows "\<exists>tv stack st1 st2. pt_alloc_vma head st = Some (tv, st1) \<and> pt_alloc_vma head st1 = Some (stack, st2)
    \<and> salloc_inv st2 \<and> areas_kept st st2
    \<and> ((tv = NULL \<or> stack = NULL) \<and> free_pages (frames st2) = {} \<and> card (free_pages (frames st)) \<le> 1
       \<or> tv \<noteq> NULL \<and> stack \<noteq> NULL \<and> tv \<noteq> stack \<and> took 2 st st2 \<and> area_list st2 head [node_of tv, node_of stack])"
proof -
  have sub: "free_pages (frames st') = {}" if "areas_kept st0 st'" "free_pages (frames st0) = {}" for st0 st'
    using that by (auto simp: areas_kept_def quiet_def)
  from alloc_vma_spec [OF assms] obtain tv st1 xs where f1: "pt_alloc_vma head st = Some (tv, st1)" "salloc_inv st1"
      "areas_kept st st1" "area_list st1 head xs"
    and o1: "tv \<noteq> NULL \<and> xs = [node_of tv] \<and> took 1 st st1 \<or> tv = NULL \<and> free_pages (frames st) = {}"
    by fastforce
  from alloc_vma_spec [OF f1(2,4)] obtain stack st2 where f2: "pt_alloc_vma head st1 = Some (stack, st2)" "salloc_inv st2"
      "areas_kept st1 st2"
    and o2: "stack \<noteq> NULL \<and> area_list st2 head (xs @ [node_of stack]) \<and> stack \<notin> vma_of ` set xs \<and> took 1 st1 st2
      \<or> stack = NULL \<and> free_pages (frames st1) = {}"
    by fastforce
  note k = areas_kept_trans [OF f1(3) f2(3)] sub [OF f2(3)] sub [OF f1(3)]
  show ?thesis
  proof (cases "tv = NULL \<or> stack = NULL")
    case True
    then have "free_pages (frames st2) = {}" "card (free_pages (frames st)) \<le> 1"
      using o1 o2 k(2,3) by (auto simp: took_def)
    then show ?thesis using f1 f2 k(1) True by blast
  next
    case False
    then have "took 2 st st2" using o1 o2 took_trans [of 1 st st1 1 st2] by (simp add: numeral_2_eq_2)
    then show ?thesis using f1 f2 o1 o2 k(1) False by auto
  qed
qed

section \<open>Filling in an area\<close>

lemma area_node_init:
  assumes l: "area_list st head xs" and n: "n \<in> set xs"
  shows "is_node_init n (vm_nodes st)"
proof -
  obtain ys zs where x: "xs = ys @ n # zs" using n by (meson split_list)
  have lk: "links (vm_nodes st) ((head # ys) @ n # zs @ [head])" using l by (simp add: area_list_def dlist_def x)
  then have lks: "links (vm_nodes st) (n # zs @ [head])" "links (vm_nodes st) ((head # ys) @ [n])"
    using links_append [of "vm_nodes st" "head # ys" n "zs @ [head]"] by simp_all
  have "nnext (vm_nodes st) n = hd (zs @ [head])" using lks(1) by (cases zs) simp_all
  moreover have "nprev (vm_nodes st) n = last (head # ys)"
  proof (cases ys rule: rev_cases)
    case (snoc us u)
    then show ?thesis using lks(2) links_snoc2 [of "vm_nodes st" "head # us" u n] by simp
  qed (use lks(2) in simp)
  moreover have "hd (zs @ [head]) \<in> set (head # xs)" "last (head # ys) \<in> set (head # xs)"
    by (cases zs; simp add: x)+ 
  ultimately show ?thesis using area_list_nonzero [OF l] by (auto simp: is_node_init_def)
qed

lemma vma_new_unpopulated:
  assumes l: "area_list st head xs" and n: "node_of v \<in> set xs" and f: "flags AND VMA_IDENTITY = 0" "flags AND VMA_POPULATE = 0"
  shows "\<exists>st'. pt_vma_new satp vpn pagen flags v st = Some (0, st') \<and> area_list st' head xs \<and> quiet st st' \<and> frames st' = frames st
    \<and> salloc_inv st' = salloc_inv st
    \<and> csr_satp st' = csr_satp st \<and> vma_at st' v = \<lparr>v_vpn = vpn, v_pagen = pagen, v_flags = flags\<rparr>
    \<and> (\<forall>u. u \<noteq> v \<longrightarrow> vma_at st' u = vma_at st u)"
proof -
  let ?st = "st\<lparr>vm_vpn := (vm_vpn st)(v := vpn), vm_pagen := (vm_pagen st)(v := pagen), vm_flags := (vm_flags st)(v := flags)\<rparr>"
  have "pt_vma_new satp vpn pagen flags v st = Some (0, ?st)"
    using area_node_init [OF l n] f by (simp add: pt_vma_new_def raw_pt_vma_new_def)
  moreover have "area_list ?st head xs" using l handed_same [of ?st st] by (simp add: area_list_def)
  moreover have "quiet st ?st" by (rule quiet_same) simp_all
  moreover have "salloc_inv ?st = salloc_inv st" by (simp add: salloc_inv_def)
  ultimately show ?thesis by (intro exI [of _ ?st]) (simp add: vma_at_def)
qed

end
