(* ===== verification/Create.thy ===== *)
theory Create
  imports Areas Text_Demand
begin

text \<open>
  Creating a process (\<open>proc_create_process_vmas\<close>, \<open>proc_run_process\<close>): the new address space shares the
  kernel's mappings and has nothing else mapped; the areas of the text and the stack are in its list.
\<close>

unbundle bit_operations_syntax

section \<open>The root of a new address space\<close>

lemma load_le_copy: "(\<And>i. i < k \<Longrightarrow> m' (a + of_nat i) = m (b + of_nat i)) \<Longrightarrow> load_le k m' a = load_le k m b"
proof (induction k arbitrary: a b)
  case (Suc k)
  have "m' (a + 1 + of_nat i) = m (b + 1 + of_nat i)" if "i < k" for i
    using Suc.prems [of "Suc i"] that by (simp add: add.assoc)
  from Suc.IH [OF this] show ?case using Suc.prems [of 0] by simp
qed simp

lemma slot_byte: "slot q i + of_nat k = ppn2phys q + of_nat (8 * unat i + k)"
  by (simp add: slot_def add.assoc mult.commute)

text \<open>\<open>proc_copy_kernel_pt\<close> copies all entries of the root but the first, which it clears.\<close>

definition copied_root :: "mem \<Rightarrow> u64 \<Rightarrow> mem \<Rightarrow> u64 \<Rightarrow> bool" where
  "copied_root m root m' root' \<longleftrightarrow> (\<forall>a. drop_bit 12 a \<noteq> root' \<longrightarrow> m' a = m a)
     \<and> (\<forall>i. unat i < 512 \<longrightarrow> entry m' root' i = (if i = 0 then 0 else entry m root i))"

lemma copy_kernel_pt:
  assumes "is_paging_enabled st" "ksatp st AND 0xFFFFFFFF = root" "satp AND 0xFFFFFFFF = root'"
    and "unat root < 2 ^ 32" "unat root' < 2 ^ 32" "root \<noteq> root'"
  shows "\<exists>m'. proc_copy_kernel_pt satp st = st\<lparr>pmem := m'\<rparr> \<and> copied_root (pmem st) root m' root'"
proof -
  have virt: "kaddr st (push_bit 12 y OR 0xffff800000000000) = ppn2phys y" if "unat y < 2 ^ 32" for y
  proof -
    have "unat (push_bit 12 y) < 2 ^ 47" using that by (simp add: unat_push_bit_64)
    then have a: "push_bit 12 y AND mask 47 = push_bit 12 y" by (simp add: u64_eq_iff unat_and_mask_64)
    have c: "(0xffff800000000000 :: u64) = NOT (mask 47)" by (simp add: mask_eq_exp_minus_1)
    have "push_bit 12 y AND NOT (mask 47) = (push_bit 12 y AND mask 47) AND NOT (mask 47)" by (simp only: a)
    also have "\<dots> = 0" by (simp only: and.assoc bit.conj_cancel_right and_zero_eq)
    finally have "push_bit 12 y OR 0xffff800000000000 = push_bit 12 y + 0xffff800000000000"
      unfolding c by (rule disjunctive_add_eq_or [symmetric])
    then show ?thesis using assms(1) by (simp add: kaddr_def ppn2phys_def VIRT_MEM_KERNEL_BASE_def)
  qed
  let ?d = "ppn2phys root'" and ?s = "ppn2phys root"
  let ?m0 = "store64 (pmem st) ?d 0"
  define m' where "m' = memcpy ?m0 (?d + 8) (?s + 8) (1024 * 4 - 8)"
  have run: "proc_copy_kernel_pt satp st = st\<lparr>pmem := m'\<rparr>"
    using virt [OF assms(4)] virt [OF assms(5)] by (simp add: proc_copy_kernel_pt_def Let_def m'_def satp2virt_def assms(2,3))
  have b44: "unat root < 2 ^ 44" "unat root' < 2 ^ 44" using assms(4,5) by auto
  have off8: "?d + 8 + a = ?d + of_nat (8 + unat a)" "?s + 8 + a = ?s + of_nat (8 + unat a)" for a by (simp_all add: add.assoc)
  have dis: "?d + 8 + a \<noteq> ?s + 8 + b" if "a < 1024 * 4 - 8" "b < 1024 * 4 - 8" for a b
  proof
    assume e: "?d + 8 + a = ?s + 8 + b"
    have "drop_bit 12 (?d + of_nat (8 + unat a)) = root'" using that by (intro page_of_offset b44) (simp add: word_less_nat_alt)
    moreover have "drop_bit 12 (?s + of_nat (8 + unat b)) = root" using that by (intro page_of_offset b44) (simp add: word_less_nat_alt)
    ultimately show False using e assms(6) unfolding off8 by metis
  qed
  have m': "m' x = (if x - (?d + 8) < 0xff8 then ?m0 (?s + 8 + (x - (?d + 8))) else ?m0 x)" for x
    unfolding m'_def using memcpy_disjoint [of "1024 * 4 - 8" "?d + 8" "?s + 8" ?m0 x] dis by simp
  have slot0: "slot root' 0 = ?d" by (simp add: slot_def)
  have src: "?m0 a = pmem st a" if "drop_bit 12 a \<noteq> root'" for a
    using store_outside [OF b44(2), of 0 a "pmem st" 0] that by (simp add: slot0)
  have hi: "m' (?d + of_nat k) = pmem st (?s + of_nat k)" if k: "8 \<le> k" "k < 4096" for k
  proof -
    obtain j where j: "k = 8 + j" "j < 4088" using k le_Suc_ex [of 8 k] by auto
    have "of_nat j < (0xff8 :: u64)" using j(2) by (simp add: word_less_nat_alt unat_of_nat_64)
    moreover have "?d + of_nat k - (?d + 8) = of_nat j" "?s + 8 + of_nat j = ?s + of_nat k" by (simp_all add: j(1))
    ultimately have "m' (?d + of_nat k) = ?m0 (?s + of_nat k)" unfolding m' [of "?d + of_nat k"] by metis
    then show ?thesis using src [of "?s + of_nat k"] page_of_offset [OF b44(1) k(2)] assms(6) by simp
  qed
  have lo: "m' (?d + of_nat k) = ?m0 (?d + of_nat k)" if k: "k < 8" for k
  proof -
    have "unat (of_nat k - 8 :: u64) = 2 ^ 64 + k - 8" using k by (simp add: unat_sub_if' unat_of_nat_64)
    then have "\<not> of_nat k - 8 < (0xff8 :: u64)" by (simp add: word_less_nat_alt)
    then show ?thesis using m' [of "?d + of_nat k"] by (simp add: diff_diff_eq)
  qed
  have "entry m' root' i = (if i = 0 then 0 else entry (pmem st) root i)" if i: "unat i < 512" for i
  proof (cases "i = 0")
    case True
    have "load_le 8 m' ?d = load_le 8 ?m0 ?d" by (rule load_le_cong) (rule lo)
    then have "entry m' root' 0 = load64 ?m0 ?d" by (simp add: entry_def load64_def slot0)
    then show ?thesis using True by simp
  next
    case False
    then have "unat i > 0" by (simp add: unat_gt_0)
    then have "load_le 8 m' (slot root' i) = load_le 8 (pmem st) (slot root i)"
      using i by (intro load_le_copy) (simp only: slot_byte, rule hi, auto)
    then show ?thesis using False by (simp add: entry_def load64_def)
  qed
  moreover have "m' a = pmem st a" if "drop_bit 12 a \<noteq> root'" for a
  proof -
    have "\<not> a - (?d + 8) < 0xff8"
    proof
      assume "a - (?d + 8) < 0xff8"
      then have "8 + unat (a - (?d + 8)) < 4096" by (simp add: word_less_nat_alt)
      then have "drop_bit 12 (?d + of_nat (8 + unat (a - (?d + 8)))) = root'" by (rule page_of_offset [OF b44(2)])
      moreover have "?d + 8 + (a - (?d + 8)) = a" by simp
      ultimately show False using that off8(1) by metis
    qed
    then show ?thesis using m' [of a] src [OF that] by simp
  qed
  ultimately show ?thesis using run by (auto simp: copied_root_def)
qed


lemma copied_tab:
  assumes c: "copied_root m root m' root'" and n: "root' \<notin> pt_pages m root" and b: "unat root < 2 ^ 44" "d < 4"
  shows "tab m' root' vpn (Suc d) = (if idx vpn 0 = 0 then None else tab m root vpn (Suc d))"
  using b(2)
proof (induction d)
  case 0
  have "entry m' root' (idx vpn 0) = (if idx vpn 0 = 0 then 0 else entry m root (idx vpn 0))"
    using c unat_idx [of vpn 3] by (auto simp: copied_root_def)
  then show ?case by (auto simp: is_table_def pte_is_valid_bit)
next
  case (Suc d)
  have "entry m' q (idx vpn (Suc d)) = entry m q (idx vpn (Suc d))" if t: "tab m root vpn (Suc d) = Some q" for q
  proof (rule entry_outside)
    show "unat q < 2 ^ 44" by (rule tab_bound [OF b(1) t])
    have "q \<in> pt_pages m root" using t Suc.prems by (auto simp: pt_pages_def intro!: exI [of _ "Suc d"])
    then show "m' a = m a" if "drop_bit 12 a = q" for a using that n c by (auto simp: copied_root_def)
  qed (simp add: unat_idx)
  then show ?case using Suc by (auto simp: Let_def split: option.splits)
qed

lemma copied_ent:
  assumes c: "copied_root m root m' root'" and n: "root' \<notin> pt_pages m root" and b: "unat root < 2 ^ 44" "d < 4"
  shows "ent m' root' vpn d = (if idx vpn 0 = 0 then if d = 0 then Some 0 else None else ent m root vpn d)"
proof (cases d)
  case 0
  then show ?thesis using c unat_idx [of vpn 3] by (auto simp: ent_def copied_root_def)
next
  case (Suc e)
  have "entry m' q (idx vpn d) = entry m q (idx vpn d)" if t: "tab m root vpn d = Some q" for q
  proof (rule entry_outside)
    show "unat q < 2 ^ 44" by (rule tab_bound [OF b(1) t])
    have "q \<in> pt_pages m root" using t b(2) by (auto simp: pt_pages_def)
    then show "m' a = m a" if "drop_bit 12 a = q" for a using that n c by (auto simp: copied_root_def)
  qed (simp add: unat_idx)
  then show ?thesis using copied_tab [OF c n b(1), of e vpn] b(2) Suc by (auto simp: ent_def map_option_case split: option.splits)
qed

lemma copied_wf:
  assumes c: "copied_root m root m' root'" and n: "root' \<notin> pt_pages m root" and b: "unat root < 2 ^ 44"
    and wf: "pt_wf m fr root" and fr: "free_pages fr' \<subseteq> free_pages fr" "live_page fr' root'"
  shows "pt_wf m' fr' root'"
proof (rule pt_wfI)
  have t: "tab m' root' vpn d = Some q \<longleftrightarrow> (if d = 0 then q = root' else idx vpn 0 \<noteq> 0 \<and> tab m root vpn d = Some q)" if "d < 4" for vpn d q
    using copied_tab [OF c n b, of "d - 1" vpn] that by (cases d) auto
  show "live_page fr' q" if "d < 4" "tab m' root' vpn d = Some q" for vpn d q
    using that t [OF that(1)] pt_wfD(1) [OF wf that(1)] live_page_mono [OF _ fr(1)] fr(2) by (auto split: if_splits)
  have nr: "tab m root vpn d \<noteq> Some root'" if "d < 4" for vpn d using n that by (auto simp: pt_pages_def)
  show "d = d' \<and> pre vpn d = pre vpn' d"
    if d: "d < 4" "d' < 4" "tab m' root' vpn d = Some q" "tab m' root' vpn' d' = Some q" for vpn vpn' d d' q
  proof (cases "d = 0 \<or> d' = 0")
    case True
    then show ?thesis using d t [OF d(1)] t [OF d(2)] nr [OF d(1)] nr [OF d(2)] by (auto split: if_splits)
  next
    case False
    then show ?thesis using d t [OF d(1)] t [OF d(2)] pt_wfD(2) [OF wf d(1), of vpn q d' vpn'] by auto
  qed
  show "pte_ok d x" if "d < 4" "ent m' root' vpn d = Some x" for vpn d x
    using that copied_ent [OF c n b that(1), of vpn] pt_wfD(3) [OF wf that(1)] by (auto simp: pte_ok_def split: if_splits)
qed

lemma copied_translate:
  assumes c: "copied_root m (root_of satp) m' (root_of satp')" and n: "root_of satp' \<notin> pt_pages m (root_of satp)"
    and wf: "pt_wf m fr (root_of satp)" "pt_wf m' fr' (root_of satp')"
  shows "sv48_translate m' satp' vpn = (if idx vpn 0 = 0 then None else sv48_translate m satp vpn)"
proof -
  have l: "leaf_at m' (root_of satp') vpn d e \<longleftrightarrow> idx vpn 0 \<noteq> 0 \<and> leaf_at m (root_of satp) vpn d e" for d e
    using copied_ent [OF c n root_bound, of d vpn] by (auto simp: leaf_at_def pte_is_leaf_bit split: if_splits)
  show ?thesis
  proof (cases "idx vpn 0 = 0")
    case True
    then have "sv48_translate m' satp' vpn \<noteq> Some q" for q using sv48_translate_leaf [OF wf(2), of vpn q] l by auto
    then show ?thesis using True by (cases "sv48_translate m' satp' vpn") auto
  next
    case False
    then show ?thesis using translate_cong [OF wf, of vpn] l by auto
  qed
qed

section \<open>A new address space\<close>

definition vm_ready :: "pt \<Rightarrow> bool" where
  "vm_ready st \<longleftrightarrow> is_paging_enabled st \<and> pt_inv (ksatp st) st \<and> salloc_inv st"

lemma setup_satp_root: "root_of (proc_setup_satp satp v) = pte_get_ppn v AND mask 44"
  by (rule bit_word_eqI) (auto simp: proc_setup_satp_def Let_def mask_4 mask_44 satp_set_bit bit_simps)

lemma root_32:
  assumes "root_of satp = block2ppn b" "b < NBLOCKS"
  shows "satp AND 0xFFFFFFFF = block2ppn b" "unat (block2ppn b) < 2 ^ 32"
proof -
  show u: "unat (block2ppn b) < 2 ^ 32" using block2ppn_unat [OF assms(2)] assms(2) by simp
  have m: "(0xFFFFFFFF :: u64) = mask 32" by (simp add: mask_eq_exp_minus_1)
  have "satp AND mask 32 = root_of satp AND mask 32" by (rule bit_word_eqI) (auto simp: bit_simps)
  also have "\<dots> = block2ppn b" using u by (simp only: assms(1) u64_eq_iff unat_and_mask_64) simp
  finally show "satp AND 0xFFFFFFFF = block2ppn b" unfolding m .
qed

text \<open>A fresh address space has tables of its own for the lower half, provided the kernel has none there: changing
  them affects no other space. Nor does it get at tables another space has to itself.\<close>

definition lower_free :: "pt \<Rightarrow> bool" where
  "lower_free st \<longleftrightarrow> (\<forall>vpn. idx vpn 0 \<noteq> 0 \<longrightarrow> unat (idx vpn 0) < 256 \<longrightarrow> tab (pmem st) (root_of (ksatp st)) vpn 1 = None)"

definition keeps_apart :: "pt \<Rightarrow> u64 \<Rightarrow> pt \<Rightarrow> bool" where
  "keeps_apart st satp st' \<longleftrightarrow> (\<forall>satp'. pt_inv satp' st \<longrightarrow> pt_inv satp' st'
     \<and> (lower_free st \<longrightarrow> spaces_apart (pmem st') satp satp')
     \<and> (spaces_apart (pmem st) satp' (ksatp st) \<longrightarrow> spaces_apart (pmem st') satp' satp))"

definition fresh_space :: "pt \<Rightarrow> u64 \<Rightarrow> pt \<Rightarrow> bool" where
  "fresh_space st satp st' \<longleftrightarrow> pt_inv satp st' \<and> keeps_apart st satp st'
     \<and> (\<forall>vpn. sv48_translate (pmem st') satp vpn = (if idx vpn 0 = 0 then None else sv48_translate (pmem st) (ksatp st) vpn))"

lemma tab_first: "tab m root vpn 1 = None \<Longrightarrow> 0 < d \<Longrightarrow> tab m root vpn d = None"
  using tab_none_beyond [of m root vpn 1 d] by simp

lemma copied_pages:
  assumes c: "copied_root m root m' root'" and n: "root' \<notin> pt_pages m root" and b: "unat root < 2 ^ 44"
  shows "pt_pages m' root' \<subseteq> insert root' (pt_pages m root)"
    and "(\<And>vpn. idx vpn 0 \<noteq> 0 \<Longrightarrow> unat (idx vpn 0) < 256 \<Longrightarrow> tab m root vpn 1 = None) \<Longrightarrow> user_pages m' root' = {root'}"
proof -
  have t: "tab m' root' vpn d = Some q \<longleftrightarrow> (if d = 0 then q = root' else idx vpn 0 \<noteq> 0 \<and> tab m root vpn d = Some q)" if "d < 4" for vpn d q
    using copied_tab [OF c n b, of "d - 1" vpn] that by (cases d) auto
  have "q = root' \<or> tab m root vpn d = Some q" if "d < 4" "tab m' root' vpn d = Some q" for vpn d q
    using that t [OF that(1), of vpn q] by (auto split: if_splits)
  then show "pt_pages m' root' \<subseteq> insert root' (pt_pages m root)" unfolding pt_pages_def by blast
  assume low: "\<And>vpn. idx vpn 0 \<noteq> 0 \<Longrightarrow> unat (idx vpn 0) < 256 \<Longrightarrow> tab m root vpn 1 = None"
  have "q = root'" if "d < 4" "tab m' root' vpn d = Some q" "d = 0 \<or> unat (idx vpn 0) < 256" for vpn d q
    using that t [OF that(1), of vpn q] tab_first [OF low, of vpn d] by (auto split: if_splits)
  moreover have "root' \<in> user_pages m' root'" unfolding user_pages_def by (simp, rule exI, rule exI [of _ 0], simp)
  ultimately show "user_pages m' root' = {root'}" unfolding user_pages_def by blast
qed

lemma copied_apart:
  assumes c: "copied_root m (root_of kern) m' (root_of satp)" and n: "root_of satp \<notin> pt_pages m (root_of kern)"
    and o: "root_of satp \<notin> pt_pages m (root_of satp')" "pt_pages m' (root_of satp') = pt_pages m (root_of satp')"
      "user_pages m' (root_of satp') = user_pages m (root_of satp')"
  shows "(\<And>vpn. idx vpn 0 \<noteq> 0 \<Longrightarrow> unat (idx vpn 0) < 256 \<Longrightarrow> tab m (root_of kern) vpn 1 = None) \<Longrightarrow> spaces_apart m' satp satp'"
    and "spaces_apart m satp' kern \<Longrightarrow> spaces_apart m' satp' satp"
proof -
  note P = copied_pages [OF c n root_bound]
  show "spaces_apart m' satp satp'"
    if "\<And>vpn. idx vpn 0 \<noteq> 0 \<Longrightarrow> unat (idx vpn 0) < 256 \<Longrightarrow> tab m (root_of kern) vpn 1 = None"
    using P(2) [OF that] o(1,2) by (simp add: spaces_apart_def)
  have "user_pages m (root_of satp') \<subseteq> pt_pages m (root_of satp')" by (auto simp: user_pages_def pt_pages_def)
  then show "spaces_apart m' satp' satp" if "spaces_apart m satp' kern"
    using that P(1) o(1,3) unfolding spaces_apart_def by auto
qed

lemma new_root:
  assumes "vm_ready st"
  shows "(pt_alloc_pt st = Some (0, st) \<and> free_pages (frames st) = {})
    \<or> (\<exists>v st1. pt_alloc_pt st = Some (v, st1) \<and> v \<noteq> 0 \<and>
        (\<forall>s. let satp = proc_setup_satp s v; st2 = proc_copy_kernel_pt satp st1
             in vm_ready st2 \<and> areas_kept st st2 \<and> took 1 st st2 \<and> fresh_space st satp st2))"
proof -
  have pg: "is_paging_enabled st" and binv: "buddy_inv (frames st)" and wf: "pt_wf (pmem st) (frames st) (root_of (ksatp st))"
    and sinv: "salloc_inv st" using assms by (auto simp: vm_ready_def pt_inv_def)
  obtain c where c: "root_of (ksatp st) = block2ppn c" "c < NBLOCKS" "c \<notin> free_pages (frames st)"
    using pt_wfD(1) [OF wf, of 0] by (auto simp: live_page_def)
  from pt_alloc_pt_spec [OF binv] show ?thesis
  proof (elim disjE exE conjE)
    fix b fr v
    assume b: "b \<in> free_pages (frames st)" "buddy_inv fr" "free_pages fr = free_pages (frames st) - {b}"
      "allocated (frames st) b = None" "allocated fr = (allocated (frames st))(b := Some (0, 1))"
      "v \<noteq> 0" "pte_get_ppn v = block2ppn b"
      and run: "pt_alloc_pt st = Some (v, st\<lparr>frames := fr, pmem := memset (pmem st) (ppn2phys (block2ppn b)) 0 0x1000\<rparr>)"
    let ?st1 = "st\<lparr>frames := fr, pmem := memset (pmem st) (ppn2phys (block2ppn b)) 0 0x1000\<rparr>"
    have bN: "b < NBLOCKS" by (rule free_pages_bound [OF binv b(1)])
    have bb: "unat (block2ppn b) < 2 ^ 44" using block2ppn_unat [OF bN] bN by simp
    have bc: "block2ppn c \<noteq> block2ppn b" using block2ppn_inj [OF c(2) bN] b(1) c(3) by auto
    have k1: "tables_kept (pmem st) (pmem ?st1) (root_of (ksatp st))"
      by (rule free_page_kept [OF wf b(1) binv]) (simp add: memset_outside [OF bb])
    have wf1: "pt_wf (pmem ?st1) fr (root_of (ksatp st))" by (rule tables_kept_wf [OF k1 root_bound wf]) (auto simp: b(3))
    have tr1: "sv48_translate (pmem ?st1) (ksatp st) vpn = sv48_translate (pmem st) (ksatp st) vpn" for vpn
      by (rule tables_kept_translate [OF k1 wf])
    have live: "live_page fr (block2ppn b)" using bN b(3) by (auto simp: live_page_def)
    have nr: "block2ppn b \<notin> pt_pages (pmem ?st1) (root_of (ksatp st))"
      using pt_wfD(1) [OF wf] free_not_live [OF binv b(1)] tables_kept_tab(1) [OF k1 root_bound]
      by (auto simp: pt_pages_def)
    have "vm_ready st2 \<and> areas_kept st st2 \<and> took 1 st st2 \<and> fresh_space st satp st2"
      if satp: "satp = proc_setup_satp s v" and st2: "st2 = proc_copy_kernel_pt satp ?st1" for s satp st2
    proof -
      have root: "root_of satp = block2ppn b"
        using setup_satp_root [of s v] bb by (simp add: satp b(7) u64_eq_iff unat_and_mask_64)
      obtain m' where m': "st2 = ?st1\<lparr>pmem := m'\<rparr>" "copied_root (pmem ?st1) (root_of (ksatp st)) m' (block2ppn b)"
        using copy_kernel_pt [of ?st1 "block2ppn c" satp "block2ppn b"] pg bc root_32 [OF root bN] root_32 [OF c(1,2)] c(1) st2
        by (auto simp: is_paging_enabled_def)
      have cr: "copied_root (pmem ?st1) (root_of (ksatp st)) m' (root_of satp)" unfolding root by (rule m'(2))
      have wf2: "pt_wf m' fr (root_of satp)"
        using copied_wf [OF m'(2) nr root_bound wf1 order_refl live] unfolding root .
      have q: "quiet st st2"
        by (rule quiet_take [OF binv _ b(1)])
          (use m' b(2,3) memset_outside [OF bb] in \<open>auto simp: copied_root_def\<close>)
      have "salloc_inv st2"
        using b(2,4,5) by (intro salloc_inv_grow [OF sinv]) (auto simp: m'(1))
      moreover have "took 1 st st2" using card_minus_one [of "free_pages (frames st)" b] b(3) by (simp add: took_def m'(1))
      moreover have "is_paging_enabled st2" using pg by (simp add: m'(1) is_paging_enabled_def)
      moreover have "keeps_apart st satp st2" unfolding keeps_apart_def
      proof (intro allI impI conjI)
        fix satp' assume i: "pt_inv satp' st"
        have tab: "tab (pmem st2) (root_of satp') v d = tab (pmem st) (root_of satp') v d" if "d < 4" for v d
          using q i that by (simp add: quiet_def)
        have wf': "pt_wf (pmem st) (frames st) (root_of satp')" using i by (simp add: pt_inv_def)
        have k': "tables_kept (pmem st) (pmem ?st1) (root_of satp')"
          by (rule free_page_kept [OF wf' b(1) binv]) (simp add: memset_outside [OF bb])
        have tab1: "tab (pmem ?st1) (root_of satp') v d = tab (pmem st) (root_of satp') v d"
          "tab (pmem ?st1) (root_of (ksatp st)) v d = tab (pmem st) (root_of (ksatp st)) v d" if "d < 4" for v d
          using that tables_kept_tab(1) [OF k' root_bound] tables_kept_tab(1) [OF k1 root_bound] by auto
        have nr': "root_of satp \<notin> pt_pages (pmem ?st1) (root_of satp')"
          using pt_wfD(1) [OF wf'] free_not_live [OF binv b(1)] tab1(1) unfolding root by (auto simp: pt_pages_def)
        have e: "pt_pages (pmem st2) (root_of satp') = pt_pages (pmem ?st1) (root_of satp')"
          "user_pages (pmem st2) (root_of satp') = user_pages (pmem ?st1) (root_of satp')"
          "user_pages (pmem ?st1) (root_of satp') = user_pages (pmem st) (root_of satp')"
          "pt_pages (pmem ?st1) (root_of (ksatp st)) = pt_pages (pmem st) (root_of (ksatp st))"
          by (rule pt_pages_cong user_pages_cong, simp only: tab tab1)+
        have nk: "root_of satp \<notin> pt_pages (pmem ?st1) (root_of (ksatp st))" unfolding root by (rule nr)
        note A = copied_apart [OF cr nk nr']
        have m2: "pmem st2 = m'" by (simp add: m'(1))
        show "pt_inv satp' st2" using q i by (simp add: quiet_def)
        show "spaces_apart (pmem st2) satp satp'" if "lower_free st"
          using A(1) e(1,2) that tab1(2) [of 1] by (simp add: m2 lower_free_def)
        show "spaces_apart (pmem st2) satp' satp" if "spaces_apart (pmem st) satp' (ksatp st)"
          using A(2) e that by (simp add: m2 spaces_apart_def)
      qed
      moreover have "fresh_space st satp st2" if "keeps_apart st satp st2"
        using that copied_translate [OF cr _ wf1 wf2] nr wf2 b(2) tr1 by (simp add: fresh_space_def pt_inv_def m'(1) root)
      ultimately show ?thesis using assms q by (auto simp: vm_ready_def areas_kept_def quiet_def m'(1))
    qed
    then show ?thesis using run b(6) by (auto simp: Let_def)
  qed simp
qed

section \<open>Creating the areas of a process\<close>

lemma fresh_quiet:
  assumes "fresh_space st satp st1" "quiet st1 st2"
  shows "fresh_space st satp st2"
proof -
  have "keeps_apart st satp st2"
    using assms quiet_apart [OF assms(2)] unfolding fresh_space_def keeps_apart_def by (auto simp: quiet_def)
  then show ?thesis using assms by (simp add: fresh_space_def quiet_def)
qed

lemma ready_quiet: "vm_ready st \<Longrightarrow> quiet st st' \<Longrightarrow> salloc_inv st' \<Longrightarrow> vm_ready st'"
  by (auto simp: vm_ready_def quiet_def is_paging_enabled_def)

lemma fail_vmas_prints: "length s < 2 ^ 31 \<Longrightarrow> \<exists>k'. fail_vmas s k = Some (NULL, k') \<and> prints k k'"
  using kprinterr_prints [of "s @ [CHR 0x0A]" k] by (auto simp: fail_vmas_def)

text \<open>
  \<open>new_process\<close>: the slot has a fresh address space, which is active, and two areas, for the text and the
  stack; nothing else of the table changed.
\<close>

definition new_process :: "nat \<Rightarrow> elf_simple \<Rightarrow> kernel \<Rightarrow> kernel \<Rightarrow> bool" where
  "new_process t e k k' \<longleftrightarrow>
     (let p = process_list k' t; st' = vm k'
      in vm_ready st' \<and> quiet (vm k) st' \<and> took 4 (vm k) st' \<and> fresh_space (vm k) (p_satp p) st' \<and> csr_satp st' = p_satp p
         \<and> (\<exists>text stack. area_list st' (p_uvmas p) [node_of text, node_of stack]
              \<and> vma_at st' text = \<lparr>v_vpn = drop_bit PAGE_SHIFT (virtual_load e), v_pagen = text_pages_needed (size_load e), v_flags = 0x4d\<rparr>
              \<and> vma_at st' stack = \<lparr>v_vpn = USER_STACK_BASE_VPN, v_pagen = STACK_PAGES, v_flags = 0x4d\<rparr>))"

lemma create_vmas_spec:
  assumes ready: "vm_ready (vm k)" and t: "t < MAX_PROCESSES"
  shows "(\<exists>k'. proc_create_process_vmas t e k = Some (NULL, k') \<and> card (free_pages (frames (vm k))) \<le> 3)
    \<or> (\<exists>k'. proc_create_process_vmas t e k = Some (vpn2virt USER_STACK_BASE_VPN, k') \<and> new_process t (elf e) k k'
         \<and> p_pid (process_list k' t) = p_pid (process_list k t) \<and> last_pid k' = last_pid k)"
  using new_root [OF ready]
proof (elim disjE exE conjE)
  assume n: "pt_alloc_pt (vm k) = Some (0, vm k)" "free_pages (frames (vm k)) = {}"
  obtain k' where "fail_vmas ''ERROR: null pointer to pt_alloc_pt.'' k = Some (NULL, k')" "prints k k'"
    using fail_vmas_prints [of "''ERROR: null pointer to pt_alloc_pt.''" k] by auto
  then show ?thesis using n t by (auto simp: proc_create_process_vmas_def in_vm_def prints_def)
next
  fix v st1
  assume v: "pt_alloc_pt (vm k) = Some (v, st1)" "v \<noteq> 0"
    and st1: "\<forall>s. let satp = proc_setup_satp s v; st2 = proc_copy_kernel_pt satp st1
             in vm_ready st2 \<and> areas_kept (vm k) st2 \<and> took 1 (vm k) st2 \<and> fresh_space (vm k) satp st2"
  define satp where "satp = proc_setup_satp (p_satp (process_list k t)) v"
  define st2 where "st2 = proc_copy_kernel_pt satp st1"
  have st2: "vm_ready st2" "areas_kept (vm k) st2" "fresh_space (vm k) satp st2" "took 1 (vm k) st2"
    using st1 by (auto simp: Let_def satp_def st2_def)
  have sinv: "salloc_inv st2" using st2(1) by (simp add: vm_ready_def)
  from init_head_spec [OF sinv] show ?thesis
  proof (elim disjE exE conjE)
    fix st3 assume h: "pt_init_vmas_head st2 = Some (- ENORESOURCES, NULL, st3)" "areas_kept st2 st3" "free_pages (frames st2) = {}"
    define k3 where "k3 = k\<lparr>vm := st3, process_list := (process_list k)(t := (process_list k t)\<lparr>p_satp := satp, p_uvmas := NULL\<rparr>)\<rparr>"
    obtain k' where f: "fail_vmas ''ERROR: init_head failed in proc_create_process_vmas.'' k3 = Some (NULL, k')" "prints k3 k'"
      using fail_vmas_prints [of "''ERROR: init_head failed in proc_create_process_vmas.''" k3] by auto
    have "proc_create_process_vmas t e k = Some (NULL, k')"
      using f(1) h(1) v t by (simp add: proc_create_process_vmas_def in_vm_def upd_proc_def upd_vm_def k3_def flip: satp_def st2_def)
    moreover have "card (free_pages (frames (vm k))) \<le> 3" using st2(4) h(3) by (simp add: took_def)
    ultimately show ?thesis by blast
  next
    fix head st3 assume h: "pt_init_vmas_head st2 = Some (0, head, st3)" "salloc_inv st3" "areas_kept st2 st3" "area_list st3 head []" "took 1 st2 st3"
    obtain tv sv st4 st5 where a: "pt_alloc_vma head st3 = Some (tv, st4)" "pt_alloc_vma head st4 = Some (sv, st5)" "salloc_inv st5" "areas_kept st3 st5"
      and o: "(tv = NULL \<or> sv = NULL) \<and> card (free_pages (frames st3)) \<le> 1
         \<or> tv \<noteq> NULL \<and> sv \<noteq> NULL \<and> tv \<noteq> sv \<and> took 2 st3 st5 \<and> area_list st5 head [node_of tv, node_of sv]"
      using two_areas [OF h(2,4)] by blast
    define p where "p = (process_list k t)\<lparr>p_satp := satp, p_uvmas := head\<rparr>"
    define k5 where "k5 = k\<lparr>process_list := (process_list k)(t := p), vm := st5\<rparr>"
    show ?thesis
    proof (cases "tv = NULL \<or> sv = NULL")
      case True
      obtain k' where f: "fail_vmas ''ERROR: pt_alloc_vma failed in proc_create_process_vma.'' k5 = Some (NULL, k')" "prints k5 k'"
        using fail_vmas_prints [of "''ERROR: pt_alloc_vma failed in proc_create_process_vma.''" k5] by auto
      have "proc_create_process_vmas t e k = Some (NULL, k')"
        using f(1) h(1) a(1,2) v t True
        by (simp add: proc_create_process_vmas_def in_vm_def upd_proc_def upd_vm_def k5_def p_def flip: satp_def st2_def)
      moreover have "card (free_pages (frames (vm k))) \<le> 3" using st2(4) h(5) o True by (auto simp: took_def)
      ultimately show ?thesis by blast
    next
      case False
      then have l: "area_list st5 head [node_of tv, node_of sv]" "tv \<noteq> sv" using o by auto
      let ?fl = "VMA_READ OR VMA_WRITE OR VMA_EXEC OR VMA_USER"
      let ?n = "text_pages_needed (size_load (elf e))" and ?tvpn = "drop_bit PAGE_SHIFT (virtual_load (elf e))"
      have fl: "?fl = 0x4d" "?fl AND VMA_IDENTITY = 0" "?fl AND VMA_POPULATE = 0" by simp_all
      obtain st6 where st6: "pt_vma_new satp ?tvpn ?n 0x4d tv st5 = Some (0, st6)" "area_list st6 head [node_of tv, node_of sv]"
        "quiet st5 st6" "frames st6 = frames st5" "salloc_inv st6" "csr_satp st6 = csr_satp st5" "vma_at st6 tv = \<lparr>v_vpn = ?tvpn, v_pagen = ?n, v_flags = 0x4d\<rparr>"
        using vma_new_unpopulated [OF l(1), of tv "0x4d" satp ?tvpn ?n] a(3) by auto
      obtain st7 where st7: "pt_vma_new satp USER_STACK_BASE_VPN 1 0x4d sv st6 = Some (0, st7)" "area_list st7 head [node_of tv, node_of sv]"
        "quiet st6 st7" "frames st7 = frames st6" "salloc_inv st7" "vma_at st7 sv = \<lparr>v_vpn = USER_STACK_BASE_VPN, v_pagen = 1, v_flags = 0x4d\<rparr>"
        "vma_at st7 tv = vma_at st6 tv"
        using vma_new_unpopulated [OF st6(2), of sv "0x4d" satp USER_STACK_BASE_VPN 1] st6(5) l(2) by auto
      define k7 where "k7 = k\<lparr>process_list := (process_list k)(t := p), vm := st7\<lparr>csr_satp := satp\<rparr>\<rparr>"
      have ver: "VERIFY_VMAS tv sv (k\<lparr>process_list := q, vm := st7\<rparr>) = Some (k\<lparr>process_list := q, vm := st7\<rparr>)" for q
        using st6(7) st7(6,7) by (simp add: VERIFY_VMAS_def vma_at_def)
      have run: "proc_create_process_vmas t e k = Some (vpn2virt USER_STACK_BASE_VPN, k7)"
        using h(1) a(1,2) v t False st6(1) st7(1) ver
        by (simp add: proc_create_process_vmas_def in_vm_def upd_proc_def upd_vm_def k7_def p_def flip: satp_def st2_def)
      let ?st = "st7\<lparr>csr_satp := satp\<rparr>"
      have "quiet st2 st7" using h(3) a(4) st6(3) st7(3) unfolding areas_kept_def by (meson quiet_trans)
      moreover have "quiet st7 ?st" by (rule quiet_same) simp_all
      ultimately have q: "quiet st2 ?st" by (rule quiet_trans)
      have q': "quiet (vm k) ?st" using quiet_trans [OF _ q] st2(2) unfolding areas_kept_def by blast
      have "salloc_inv ?st" using st7(5) by (simp add: salloc_inv_def cong: if_cong)
      note ready = ready_quiet [OF st2(1) q this] and fresh = fresh_quiet [OF st2(3) q]
      have area: "area_list ?st head [node_of tv, node_of sv]"
        using st7(2) handed_same [of ?st st7] by (simp add: area_list_def)
      have vma: "vma_at ?st = vma_at st7" by (simp add: vma_at_def fun_eq_iff)
      have k7: "vm k7 = ?st" "process_list k7 t = p" "p_satp p = satp" "p_uvmas p = head" by (simp_all add: k7_def p_def)
      have took: "took 4 (vm k) ?st" using st2(4) h(5) o False st6(4) st7(4) by (auto simp: took_def)
      have "new_process t (elf e) k k7"
        unfolding new_process_def Let_def k7 vma using ready q' took fresh area st6(7) st7(6,7) by auto
      moreover have "p_pid (process_list k7 t) = p_pid (process_list k t)" "last_pid k7 = last_pid k" by (simp_all add: k7_def p_def)
      ultimately show ?thesis using run by blast
    qed
  qed
qed

end
