(* ===== verification/Create_Props.thy ===== *)
theory Create_Props
  imports Create
begin

text \<open>The properties of process creation, and of the process table in every state the kernel reaches.\<close>

unbundle bit_operations_syntax

lemma find_slot_cong:
  "process_list k' = process_list k \<Longrightarrow> find_slot_loop c k' = find_slot_loop c k"
proof (induction c k rule: find_slot_loop.induct)
  case (1 count k)
  then show ?case by (subst (1 2) find_slot_loop.simps) auto
qed

lemma run_process_spec:
  assumes "vm_ready (vm k)" "proc_find_free_process_slot k = int t" "t < MAX_PROCESSES"
    and "e = snd (parse_elf (kmem (vm k)) ptr)"
  shows "(\<exists>k'. proc_run_process ptr a3 k = Some (Inl (- 1), k') \<and> card (free_pages (frames (vm k))) \<le> 3)
    \<or> (\<exists>k'. proc_run_process ptr a3 k =
           Some (Inr (zero_frame\<lparr>tf_a3 := a3, tf_sp := vpn2virt USER_STACK_BASE_VPN + PAGE_SIZE,
             tf_satp := p_satp (process_list k' t), tf_sepc := e_entry (elf e)\<rparr>), k')
         \<and> new_process t (elf e) k k' \<and> started t k k' \<and> p_elf (process_list k' t) = e
         \<and> p_pid (process_list k' t) = last_pid k \<and> last_pid k' = last_pid k + 1)"
proof -
  define k0 where "k0 = upd_vm (\<lambda>st. st\<lparr>csr_satp := ksatp st\<rparr>) k"
  define k1 where "k1 = upd_proc t (\<lambda>p. p\<lparr>p_pid := last_pid k0\<rparr>) k0"
  have slot: "proc_find_free_process_slot k0 = int t"
  proof -
    have "process_list k0 = process_list k" "processes_total k0 = processes_total k" by (simp_all add: k0_def upd_vm_def)
    then show ?thesis using assms(2) unfolding proc_find_free_process_slot_def find_slot_cong [OF \<open>process_list k0 = process_list k\<close>] by simp
  qed
  have vm1: "vm k1 = (vm k)\<lparr>csr_satp := ksatp (vm k)\<rparr>" by (simp add: k1_def k0_def upd_vm_def upd_proc_def)
  have e: "e = snd (parse_elf (kmem (vm k1)) ptr)"
    unfolding assms(4) vm1 by (simp add: kmem_def kaddr_def is_paging_enabled_def)
  have q1: "quiet (vm k) (vm k1)" unfolding vm1 by (rule quiet_same) simp_all
  have "salloc_inv (vm k1)" using assms(1) by (simp add: vm1 vm_ready_def salloc_inv_def cong: if_cong)
  then have ready: "vm_ready (vm k1)" using ready_quiet [OF assms(1) q1] by blast
  note run = run_process_eq [OF k0_def slot k1_def e, of a3]
  from create_vmas_spec [OF ready assms(3), of e] show ?thesis
  proof (elim disjE exE conjE)
    fix k2 assume "proc_create_process_vmas t e k1 = Some (NULL, k2)" "card (free_pages (frames (vm k1))) \<le> 3"
    then show ?thesis unfolding run by (simp add: vm1)
  next
    fix k2 assume c: "proc_create_process_vmas t e k1 = Some (vpn2virt USER_STACK_BASE_VPN, k2)" "new_process t (elf e) k1 k2"
      "p_pid (process_list k2 t) = p_pid (process_list k1 t)" "last_pid k2 = last_pid k1"
    have nz: "vpn2virt USER_STACK_BASE_VPN \<noteq> 0" by (simp add: USER_STACK_BASE_VPN_def USER_STACK_BASE_def ppn2phys_def)
    have "prepares t k1 k2" by (rule create_vmas_prepares [OF c(1)])
    moreover have k1: "process_list k1 = (process_list k)(t := (process_list k t)\<lparr>p_pid := last_pid k\<rparr>)" "proc_running k1 = proc_running k"
      "processes_total k1 = processes_total k" "last_pid k1 = last_pid k"
      by (simp_all add: k1_def k0_def upd_vm_def upd_proc_def)
    moreover have "new_process t (elf e) k k2"
      using c(2) by (simp add: new_process_def Let_def vm1 quiet_def took_def fresh_space_def keeps_apart_def lower_free_def pt_inv_def)
    ultimately show ?thesis
      using c nz unfolding run by (simp add: started_def prepares_def upd_proc_def upd_mach_def new_process_def Let_def)
  qed
qed

text \<open>(C16) Starting a process when a slot is free. The call terminates; it fails only when at most three
  pages are free. Otherwise user mode is entered at the entry point of the ELF file with all
  registers zero except the stack pointer and the argument. The new address space has the kernel's
  mappings and an empty first slot, its areas are the pages of the load segment and the stack, and the kernel's
  own address space, like every other one, translates as before. If the kernel maps nothing else in
  the lower half, no other address space shares the tables of the new one there.\<close>
theorem process_created:
  assumes "vm_ready (vm k)" "proc_find_free_process_slot k = int t" "t < MAX_PROCESSES"
    and "e = snd (parse_elf (kmem (vm k)) ptr)"
  shows "(\<exists>k'. proc_run_process ptr a3 k = Some (Inl (- 1), k') \<and> card (free_pages (frames (vm k))) \<le> 3)
    \<or> (\<exists>k'. proc_run_process ptr a3 k =
           Some (Inr (zero_frame\<lparr>tf_a3 := a3, tf_sp := vpn2virt USER_STACK_BASE_VPN + PAGE_SIZE,
             tf_satp := p_satp (process_list k' t), tf_sepc := e_entry (elf e)\<rparr>), k')
         \<and> new_process t (elf e) k k' \<and> started t k k' \<and> p_elf (process_list k' t) = e
         \<and> p_pid (process_list k' t) = last_pid k \<and> last_pid k' = last_pid k + 1)"
  by (rule run_process_spec [OF assms])

section \<open>A concrete boot\<close>

text \<open>The kernel after \<open>__buddy_init\<close> with a page table root in block 2 and paging enabled.\<close>

definition boot_ex :: "buddy \<Rightarrow> kernel" where
  "boot_ex fr = proc_init_process_list 0 (kernel_ex\<lparr>vm := pt_ex\<lparr>frames := fr, ksatp := 0x9000000000080002\<rparr>, proc_running := 0, processes_total := 0\<rparr>)"

lemma boot_ex_ready:
  assumes "raw_buddy_init 0x80200000 used_state = Some fr"
  shows "vm_ready (vm (boot_ex fr))" "proc_find_free_process_slot (boot_ex fr) = 1" "3 < card (free_pages (frames (vm (boot_ex fr))))"
proof -
  have fr: "buddy_inv fr" "free_pages fr = {512..<8191}"
    using assms raw_buddy_init_inv [of used_state "0x80200000"] by (auto simp: used_state_def word_le_nat_alt word_less_nat_alt)
  have vm: "vm (boot_ex fr) = pt_ex\<lparr>frames := fr, ksatp := 0x9000000000080002\<rparr>"
    by (simp add: boot_ex_def proc_init_process_list_def Let_def upd_proc_def)
  have "live_page fr (block2ppn 2)" by (auto simp: live_page_def fr(2) intro!: exI [of _ 2])
  then have "pt_inv satp_ex (pt_ex\<lparr>frames := fr\<rparr>)" by (rule empty_root [OF fr(1)])
  moreover have "root_of 0x9000000000080002 = root_of satp_ex" by (simp add: u64_eq_iff unat_and_mask_64)
  ultimately show "vm_ready (vm (boot_ex fr))"
    by (simp add: vm_ready_def vm pt_inv_def is_paging_enabled_def) (simp add: pt_ex_def salloc_inv_def fr(1))
  have "p_status (process_list (boot_ex fr) 1) = PROCESS_FREE_SLOT" "processes_total (boot_ex fr) = 0"
    by (simp_all add: boot_ex_def proc_init_process_list_def Let_def upd_proc_def)
  moreover from this have "find_slot_loop 1 (boot_ex fr) = 1" by (subst find_slot_loop.simps) simp
  ultimately show "proc_find_free_process_slot (boot_ex fr) = 1" by (simp add: proc_find_free_process_slot_def)
  show "3 < card (free_pages (frames (vm (boot_ex fr))))" by (simp add: vm fr(2))
qed

lemma init_ex: "\<exists>fr. raw_buddy_init 0x80200000 used_state = Some fr"
  using raw_buddy_init_inv [of used_state "0x80200000"] by (auto simp: used_state_def word_le_nat_alt word_less_nat_alt)

lemma boot_ex_runs:
  assumes "raw_buddy_init 0x80200000 used_state = Some fr"
  shows "\<exists>f k'. proc_run_process 0x1000 0 (boot_ex fr) = Some (Inr f, k')"
proof -
  note b = boot_ex_ready [OF assms]
  have s: "proc_find_free_process_slot (boot_ex fr) = int 1" using b(2) by simp
  from run_process_spec [OF b(1) s _ refl, of "0x1000" 0] show ?thesis using b(3) by fastforce
qed

theorem process_created_witness:
  "\<exists>fr f k'. raw_buddy_init 0x80200000 used_state = Some fr \<and> proc_run_process 0x1000 0 (boot_ex fr) = Some (Inr f, k')
     \<and> started 1 (boot_ex fr) k'"
proof -
  obtain fr where fr: "raw_buddy_init 0x80200000 used_state = Some fr" using init_ex by blast
  note b = boot_ex_ready [OF fr]
  have s: "proc_find_free_process_slot (boot_ex fr) = int 1" using b(2) by simp
  from process_created [OF b(1) s _ refl, of "0x1000" 0] show ?thesis using fr b(3) by fastforce
qed

section \<open>The process table\<close>

text \<open>(C17) In every state the kernel reaches, from the first process on and whatever the user programs do,
  exactly one process runs, slot 0 is reserved, and \<open>processes_total\<close> is the number of processes
  that run or wait.\<close>
theorem process_table_inv:
  assumes "reachable k"
  shows "1 \<le> proc_running k \<and> proc_running k < MAX_PROCESSES
    \<and> {t. t < MAX_PROCESSES \<and> p_status (process_list k t) = PROCESS_RUNNING} = {proc_running k}
    \<and> p_status (process_list k 0) = PROCESS_RESERVED
    \<and> processes_total k = int (card {t. t < MAX_PROCESSES \<and> p_status (process_list k t) \<in> {PROCESS_RUNNING, PROCESS_PAUSED}})"
proof -
  let ?r = "proc_running k" and ?w = "{t. t < MAX_PROCESSES \<and> t \<noteq> proc_running k \<and> p_status (process_list k t) = PROCESS_PAUSED}"
  have inv: "?r < MAX_PROCESSES" "p_status (process_list k 0) = PROCESS_RESERVED" "p_status (process_list k ?r) = PROCESS_RUNNING"
    "\<forall>t < MAX_PROCESSES. t \<noteq> ?r \<longrightarrow> p_status (process_list k t) \<noteq> PROCESS_RUNNING" "processes_total k = 1 + int (length (run_queue k))"
    using reachable_inv [OF assms] by (auto simp: sched_inv_def)
  have "?r \<noteq> 0"
  proof
    assume "?r = 0"
    then show False using inv(2,3) by simp
  qed
  moreover have "{t. t < MAX_PROCESSES \<and> p_status (process_list k t) \<in> {PROCESS_RUNNING, PROCESS_PAUSED}} = insert ?r ?w"
    using inv by auto
  moreover have "card (insert ?r ?w) = Suc (card ?w)" by (subst card_insert_disjoint) auto
  ultimately show ?thesis using inv waiting_length [OF inv(1), of "process_list k"] by auto
qed

theorem process_table_inv_witness: "\<exists>k. reachable k \<and> 1 \<le> proc_running k"
proof -
  obtain fr where fr: "raw_buddy_init 0x80200000 used_state = Some fr" using init_ex by blast
  obtain f k' where "proc_run_process 0x1000 0 (boot_ex fr) = Some (Inr f, k')" using boot_ex_runs [OF fr] by blast
  then have "reachable k'" unfolding boot_ex_def by (rule reachable.boot)
  then show ?thesis using process_table_inv by blast
qed

end
