(* ===== verification/Mmap.thy ===== *)
theory Mmap
  imports Create_Props
begin

text \<open>
  The heap of a process: \<open>get_free_vpn\<close> finds the end of the highest area, \<open>scall_handler_mmap\<close> appends an
  area there.
\<close>

unbundle bit_operations_syntax

section \<open>The search for a free page number\<close>

definition heap_area :: "pt \<Rightarrow> addr \<Rightarrow> bool" where
  "heap_area st n \<longleftrightarrow> vm_vpn st (vma_of n) \<noteq> USER_STACK_BASE_VPN \<and> vm_vpn st (vma_of n) \<ge> USER_HEAP_BASE_VPN"

fun highest :: "pt \<Rightarrow> addr list \<Rightarrow> u64 \<times> u32 \<Rightarrow> u64 \<times> u32" where
  "highest st [] m = m"
| "highest st (n # xs) m =
     highest st xs (if heap_area st n \<and> vm_vpn st (vma_of n) > fst m then (vm_vpn st (vma_of n), ucast (vm_pagen st (vma_of n))) else m)"

lemma free_vpn_loop_spec:
  assumes "links (vm_nodes st) (xs @ [head])" "head \<notin> set xs"
  shows "free_vpn_loop st head (hd (xs @ [head])) mv mp = Some (highest st xs (mv, mp))"
  using assms
proof (induction xs arbitrary: mv mp)
  case Nil
  then show ?case by (subst free_vpn_loop.simps) simp
next
  case (Cons n xs)
  have nx: "nnext (vm_nodes st) n = hd (xs @ [head])" "links (vm_nodes st) (xs @ [head])"
    using Cons.prems(1) by (cases xs; simp)+
  have "n \<noteq> head" using Cons.prems(2) by auto
  then show ?case
    using Cons.IH nx Cons.prems(2) by (subst free_vpn_loop.simps) (auto simp: heap_area_def Let_def)
qed

lemma highest_append: "highest st (xs @ ys) m = highest st ys (highest st xs m)"
  by (induction st xs m rule: highest.induct) simp_all

lemma highest_spec:
  "highest st xs (mv, mp) = (mv', mp') \<Longrightarrow> mv \<le> mv' \<and> (\<forall>n \<in> set xs. heap_area st n \<longrightarrow> vm_vpn st (vma_of n) \<le> mv')
     \<and> ((mv', mp') = (mv, mp) \<or> (\<exists>n \<in> set xs. heap_area st n \<and> vm_vpn st (vma_of n) = mv' \<and> mp' = ucast (vm_pagen st (vma_of n))))"
proof (induction xs arbitrary: mv mp)
  case (Cons n xs)
  show ?case
  proof (cases "heap_area st n \<and> vm_vpn st (vma_of n) > mv")
    case True
    from Cons.prems have "highest st xs (vm_vpn st (vma_of n), ucast (vm_pagen st (vma_of n))) = (mv', mp')"
      unfolding highest.simps fst_conv if_P [OF True] .
    from Cons.IH [OF this] True show ?thesis by auto
  next
    case False
    from Cons.prems have "highest st xs (mv, mp) = (mv', mp')" unfolding highest.simps fst_conv if_not_P [OF False] .
    from Cons.IH [OF this] False show ?thesis by auto
  qed
qed simp

lemma get_free_vpn_spec:
  assumes "area_list (vm k) (p_uvmas (running k)) xs" "proc_running k < MAX_PROCESSES"
    and "highest (vm k) xs (0, 0) = (mv, mp)"
  shows "get_free_vpn (proc_running k) k = Some (if mv = 0 then USER_HEAP_BASE_VPN else mv + scast mp)"
proof -
  let ?head = "p_uvmas (running k)"
  have d: "dlist (vm_nodes (vm k)) ?head xs" using assms(1) by (simp add: area_list_def)
  then have l: "links (vm_nodes (vm k)) (xs @ [?head])" "?head \<notin> set xs" "nnext (vm_nodes (vm k)) ?head = hd (xs @ [?head])"
    using dlist_next_head [OF d] by (cases xs; simp add: dlist_def)+
  have "?head \<noteq> NULL" using area_list_nonzero [OF assms(1)] by auto
  then show ?thesis
    using free_vpn_loop_spec [OF l(1,2), of 0 0] assms(2,3) l(3) by (simp add: get_free_vpn_def)
qed

section \<open>A call of mmap\<close>

lemma mmap_spec:
  assumes l: "area_list (vm k) (p_uvmas (running k)) xs" and run: "proc_running k < MAX_PROCESSES" and inv: "salloc_inv (vm k)"
    and vpn: "get_free_vpn (proc_running k) k = Some vpn"
  shows "(\<exists>k'. scall_handler_mmap k = Some k' \<and> free_pages (frames (vm k)) = {} \<and> tf_a3 (tf_user k') = NULL \<and> quiet (vm k) (vm k'))
    \<or> (\<exists>v st'. scall_handler_mmap k = Some (set_a3 (vpn2virt vpn) (k\<lparr>vm := st'\<rparr>)) \<and> v \<noteq> NULL
        \<and> area_list st' (p_uvmas (running k)) (xs @ [node_of v]) \<and> node_of v \<notin> set xs \<and> quiet (vm k) st' \<and> took 1 (vm k) st' \<and> salloc_inv st'
        \<and> vma_at st' v = \<lparr>v_vpn = vpn, v_pagen = tf_a1 (tf_user k), v_flags = 0x4d\<rparr>
        \<and> (\<forall>u. u \<noteq> v \<longrightarrow> vma_at st' u = vma_at (vm k) u))"
  using alloc_vma_spec [OF inv l]
proof (elim disjE exE conjE)
  fix st1 assume a: "pt_alloc_vma (p_uvmas (running k)) (vm k) = Some (NULL, st1)" "areas_kept (vm k) st1" "free_pages (frames (vm k)) = {}"
  have "scall_handler_mmap k = Some (set_a3 NULL (k\<lparr>vm := st1\<rparr>))"
    using a(1) vpn run by (simp add: scall_handler_mmap_def in_vm_def)
  then show ?thesis using a(2,3) by (auto simp: set_a3_def areas_kept_def)
next
  fix v st1
  assume a: "pt_alloc_vma (p_uvmas (running k)) (vm k) = Some (v, st1)" "v \<noteq> NULL" "salloc_inv st1" "areas_kept (vm k) st1"
    "area_list st1 (p_uvmas (running k)) (xs @ [node_of v])" "v \<notin> vma_of ` set xs" "took 1 (vm k) st1"
  obtain st' where st': "pt_vma_new (p_satp (running k)) vpn (tf_a1 (tf_user k)) 0x4d v st1 = Some (0, st')"
    "area_list st' (p_uvmas (running k)) (xs @ [node_of v])" "quiet st1 st'" "frames st' = frames st1" "salloc_inv st'"
    "vma_at st' v = \<lparr>v_vpn = vpn, v_pagen = tf_a1 (tf_user k), v_flags = 0x4d\<rparr>" "\<forall>u. u \<noteq> v \<longrightarrow> vma_at st' u = vma_at st1 u"
    using vma_new_unpopulated [OF a(5), of v "0x4d" "p_satp (running k)" vpn "tf_a1 (tf_user k)"] a(3) by auto
  have "scall_handler_mmap k = Some (set_a3 (vpn2virt vpn) (k\<lparr>vm := st'\<rparr>))"
    using a(1,2) vpn run st'(1) by (simp add: scall_handler_mmap_def in_vm_def)
  moreover have "quiet (vm k) st'" using quiet_trans [OF _ st'(3)] a(4) by (simp add: areas_kept_def)
  moreover have "vma_at st1 = vma_at (vm k)" using a(4) by (simp add: areas_kept_def vma_at_def fun_eq_iff)
  moreover have "node_of v \<notin> set xs" using a(6) by force
  moreover have "took 1 (vm k) st'" using a(7) st'(4) by (simp add: took_def)
  ultimately show ?thesis using st'(2,5-7) a(2) by auto
qed

section \<open>Areas do not overlap\<close>

definition area_pages :: "pt \<Rightarrow> addr \<Rightarrow> nat set" where
  "area_pages st n = {unat (vm_vpn st (vma_of n)) ..< unat (vm_vpn st (vma_of n)) + unat (vm_pagen st (vma_of n))}"

text \<open>
  \<open>areas_ok\<close>: no area of the heap is empty, none has more pages than an \<open>int\<close> counts, areas that start below the
  heap end below it, all others but the stack end below the stack, and no two overlap.
\<close>

definition areas_ok :: "pt \<Rightarrow> addr list \<Rightarrow> bool" where
  "areas_ok st xs \<longleftrightarrow>
     (\<forall>n \<in> set xs. (USER_HEAP_BASE_VPN \<le> vm_vpn st (vma_of n) \<longrightarrow> 0 < unat (vm_pagen st (vma_of n))) \<and> unat (vm_pagen st (vma_of n)) < 2 ^ 31
        \<and> (vm_vpn st (vma_of n) < USER_HEAP_BASE_VPN \<longrightarrow> unat (vm_vpn st (vma_of n)) + unat (vm_pagen st (vma_of n)) \<le> unat USER_HEAP_BASE_VPN)
        \<and> (vm_vpn st (vma_of n) \<noteq> USER_STACK_BASE_VPN \<longrightarrow>
             unat (vm_vpn st (vma_of n)) + unat (vm_pagen st (vma_of n)) \<le> unat USER_STACK_BASE_VPN))
     \<and> (\<forall>n \<in> set xs. \<forall>m \<in> set xs. n \<noteq> m \<longrightarrow> area_pages st n \<inter> area_pages st m = {})"

lemma stack_vpn: "USER_STACK_BASE_VPN = 0x7FFFFFFFE"
  by (simp add: USER_STACK_BASE_VPN_def USER_STACK_BASE_def)

lemma interval_before:
  fixes a b n m :: nat
  assumes "{a..<a + n} \<inter> {b..<b + m} = {}" "a \<le> b" "0 < m"
  shows "a + n \<le> b"
proof (rule ccontr)
  assume "\<not> a + n \<le> b"
  then have "b \<in> {a..<a + n} \<inter> {b..<b + m}" using assms(2,3) by simp
  then show False using assms(1) by simp
qed

lemma highest_end:
  assumes ok: "areas_ok st xs" and h: "highest st xs (0, 0) = (mv, mp)" and mv: "mv \<noteq> 0"
  shows "\<exists>c \<in> set xs. heap_area st c \<and> vm_vpn st (vma_of c) = mv \<and> 0 < unat (vm_pagen st (vma_of c))
    \<and> unat (mv + scast mp) = unat mv + unat (vm_pagen st (vma_of c)) \<and> unat USER_HEAP_BASE_VPN \<le> unat mv"
proof -
  note N = ok [unfolded areas_ok_def, THEN conjunct1, rule_format]
  obtain c where c: "c \<in> set xs" "heap_area st c" "vm_vpn st (vma_of c) = mv" "mp = ucast (vm_pagen st (vma_of c))"
    using highest_spec [OF h] mv by auto
  have "scast mp = vm_pagen st (vma_of c)" using ucast_index N [OF c(1)] c(4) by simp
  moreover have "unat mv + unat (vm_pagen st (vma_of c)) \<le> 0x7FFFFFFFE"
    using N [OF c(1)] c(2,3) by (auto simp: heap_area_def stack_vpn)
  ultimately have "unat (mv + scast mp) = unat mv + unat (vm_pagen st (vma_of c))" by (simp add: unat_add_64)
  moreover have "unat USER_HEAP_BASE_VPN \<le> unat mv" using c(2,3) by (simp add: heap_area_def word_le_nat_alt)
  moreover have "0 < unat (vm_pagen st (vma_of c))" using N [OF c(1)] c(2) by (simp add: heap_area_def)
  ultimately show ?thesis using c by blast
qed

lemma free_vpn_beyond:
  assumes ok: "areas_ok st xs" and h: "highest st xs (0, 0) = (mv, mp)" and n: "n \<in> set xs" "vm_vpn st (vma_of n) \<noteq> USER_STACK_BASE_VPN"
  shows "unat (vm_vpn st (vma_of n)) + unat (vm_pagen st (vma_of n)) \<le> unat (if mv = 0 then USER_HEAP_BASE_VPN else mv + scast mp)"
proof -
  note H = highest_spec [OF h]
  note N = ok [unfolded areas_ok_def, THEN conjunct1, rule_format]
  show ?thesis
  proof (cases "mv = 0")
    case True
    then have "\<not> heap_area st n" using H n(1) by (auto simp: heap_area_def word_le_nat_alt)
    then show ?thesis using True N [OF n(1)] n(2) by (auto simp: heap_area_def not_le)
  next
    case False
    obtain c where c: "c \<in> set xs" "heap_area st c" "vm_vpn st (vma_of c) = mv" and e: "unat (mv + scast mp) = unat mv + unat (vm_pagen st (vma_of c))"
      and mv: "unat USER_HEAP_BASE_VPN \<le> unat mv"
      using highest_end [OF ok h False] by blast
    show ?thesis
    proof (cases "n = c \<or> \<not> heap_area st n")
      case True
      then show ?thesis using False e c(3) N [OF n(1)] n(2) mv by (auto simp: heap_area_def not_le)
    next
      case nc: False
      have le: "unat (vm_vpn st (vma_of n)) \<le> unat (vm_vpn st (vma_of c))" using H n(1) nc c(3) by (auto simp: word_le_nat_alt)
      have "area_pages st n \<inter> area_pages st c = {}" using ok n(1) c(1) nc by (auto simp: areas_ok_def)
      from interval_before [OF this [unfolded area_pages_def] le] N [OF c(1)] c(2)
      have "unat (vm_vpn st (vma_of n)) + unat (vm_pagen st (vma_of n)) \<le> unat mv" by (simp add: c(3) heap_area_def)
      then show ?thesis using False e by simp
    qed
  qed
qed

lemma areas_ok_append:
  assumes ok: "areas_ok st xs" and new: "node_of v \<notin> set xs" "vma_at st' v = \<lparr>v_vpn = vpn, v_pagen = pn, v_flags = fl\<rparr>"
    and old: "\<forall>u. u \<noteq> v \<longrightarrow> vma_at st' u = vma_at st u"
    and pn: "0 < unat pn" "unat pn < 2 ^ 31" and vpn: "USER_HEAP_BASE_VPN \<le> vpn" "unat vpn + unat pn \<le> unat USER_STACK_BASE_VPN"
    and beyond: "\<And>n. n \<in> set xs \<Longrightarrow> vm_vpn st (vma_of n) \<noteq> USER_STACK_BASE_VPN \<Longrightarrow>
      unat (vm_vpn st (vma_of n)) + unat (vm_pagen st (vma_of n)) \<le> unat vpn"
  shows "areas_ok st' (xs @ [node_of v])"
proof -
  have V: "vm_vpn st' v = vpn" "vm_pagen st' v = pn" using new(2) by (simp_all add: vma_at_def)
  have O: "vm_vpn st' (vma_of n) = vm_vpn st (vma_of n)" "vm_pagen st' (vma_of n) = vm_pagen st (vma_of n)" if "n \<in> set xs" for n
  proof -
    have "vma_of n \<noteq> v" using that new(1) by auto
    then show "vm_vpn st' (vma_of n) = vm_vpn st (vma_of n)" "vm_pagen st' (vma_of n) = vm_pagen st (vma_of n)"
      using old by (simp_all add: vma_at_def)
  qed
  have P: "area_pages st' n = area_pages st n" if "n \<in> set xs" for n using O [OF that] by (simp add: area_pages_def)
  have PV: "area_pages st' (node_of v) = {unat vpn..<unat vpn + unat pn}" by (simp add: area_pages_def V)
  have dis: "area_pages st n \<inter> {unat vpn..<unat vpn + unat pn} = {}" if "n \<in> set xs" for n
  proof (cases "vm_vpn st (vma_of n) = USER_STACK_BASE_VPN")
    case True
    then show ?thesis using vpn(2) by (auto simp: area_pages_def)
  next
    case False
    then show ?thesis using beyond [OF that False] by (auto simp: area_pages_def)
  qed
  show ?thesis
    unfolding areas_ok_def
  proof (intro conjI ballI impI)
    fix n m assume nm: "n \<in> set (xs @ [node_of v])" "m \<in> set (xs @ [node_of v])" "n \<noteq> m"
    then consider "n \<in> set xs" "m \<in> set xs" | "n \<in> set xs" "m = node_of v" | "n = node_of v" "m \<in> set xs" by auto
    then show "area_pages st' n \<inter> area_pages st' m = {}"
    proof cases
      case 1
      then show ?thesis using ok nm(3) P by (simp add: areas_ok_def)
    next
      case 2
      then show ?thesis using dis P PV by simp
    next
      case 3
      then show ?thesis using dis [OF 3(2)] P [OF 3(2)] PV by (simp add: Int_commute)
    qed
  qed (use ok O V pn vpn in \<open>auto simp: areas_ok_def\<close>)
qed

section \<open>Successive calls\<close>

lemma highest_cong:
  "(\<And>n. n \<in> set xs \<Longrightarrow> vma_at st' (vma_of n) = vma_at st (vma_of n)) \<Longrightarrow> highest st' xs m = highest st xs m"
proof (induction xs arbitrary: m)
  case (Cons n xs)
  have "vm_vpn st' (vma_of n) = vm_vpn st (vma_of n)" "vm_pagen st' (vma_of n) = vm_pagen st (vma_of n)"
    using Cons.prems [of n] by (simp_all add: vma_at_def)
  moreover have "highest st' xs m' = highest st xs m'" for m' using Cons by simp
  ultimately show ?case by (simp add: heap_area_def)
qed simp

text \<open>\<open>mapped k xs m\<close>: the running process has the areas \<open>xs\<close>, the highest being \<open>m\<close>, and pages are left.\<close>

definition mapped :: "kernel \<Rightarrow> addr list \<Rightarrow> u64 \<times> u32 \<Rightarrow> nat \<Rightarrow> bool" where
  "mapped k xs m free \<longleftrightarrow> area_list (vm k) (p_uvmas (running k)) xs \<and> proc_running k < MAX_PROCESSES \<and> salloc_inv (vm k)
     \<and> highest (vm k) xs (0, 0) = m \<and> free \<le> card (free_pages (frames (vm k)))"

lemma mmap_step:
  assumes "mapped k xs (mv, mp) (Suc f)" "vpn = (if mv = 0 then USER_HEAP_BASE_VPN else mv + scast mp)"
  shows "\<exists>k' v. scall_handler_mmap k = Some k' \<and> mapped k' (xs @ [node_of v])
      (if vpn \<noteq> USER_STACK_BASE_VPN \<and> USER_HEAP_BASE_VPN \<le> vpn \<and> mv < vpn then (vpn, ucast (tf_a1 (tf_user k))) else (mv, mp)) f
    \<and> node_of v \<notin> set xs \<and> tf_a3 (tf_user k') = vpn2virt vpn
    \<and> vm_vpn (vm k') v = vpn \<and> vm_pagen (vm k') v = tf_a1 (tf_user k)
    \<and> (\<forall>u. u \<noteq> v \<longrightarrow> vma_at (vm k') u = vma_at (vm k) u)"
proof -
  have m: "area_list (vm k) (p_uvmas (running k)) xs" "proc_running k < MAX_PROCESSES" "salloc_inv (vm k)"
    "highest (vm k) xs (0, 0) = (mv, mp)" "Suc f \<le> card (free_pages (frames (vm k)))" using assms(1) by (auto simp: mapped_def)
  have get: "get_free_vpn (proc_running k) k = Some vpn" unfolding assms(2) by (rule get_free_vpn_spec [OF m(1,2,4)])
  have ne: "free_pages (frames (vm k)) \<noteq> {}" using m(5) by auto
  from mmap_spec [OF m(1-3) get] ne obtain v st' where r: "scall_handler_mmap k = Some (set_a3 (vpn2virt vpn) (k\<lparr>vm := st'\<rparr>))"
      "area_list st' (p_uvmas (running k)) (xs @ [node_of v])" "node_of v \<notin> set xs" "took 1 (vm k) st'" "salloc_inv st'"
      "vma_at st' v = \<lparr>v_vpn = vpn, v_pagen = tf_a1 (tf_user k), v_flags = 0x4d\<rparr>" "\<forall>u. u \<noteq> v \<longrightarrow> vma_at st' u = vma_at (vm k) u"
    by blast
  let ?k = "set_a3 (vpn2virt vpn) (k\<lparr>vm := st'\<rparr>)"
  have V: "vm_vpn st' v = vpn" "vm_pagen st' v = tf_a1 (tf_user k)" using r(6) by (simp_all add: vma_at_def)
  have "highest st' xs (0, 0) = (mv, mp)"
    unfolding m(4) [symmetric]
  proof (rule highest_cong)
    fix n assume "n \<in> set xs"
    then have "vma_of n \<noteq> v" using r(3) by auto
    then show "vma_at st' (vma_of n) = vma_at (vm k) (vma_of n)" using r(7) by blast
  qed
  then have "mapped ?k (xs @ [node_of v])
      (if vpn \<noteq> USER_STACK_BASE_VPN \<and> USER_HEAP_BASE_VPN \<le> vpn \<and> mv < vpn then (vpn, ucast (tf_a1 (tf_user k))) else (mv, mp)) f"
    using r(2,4,5) m(2,5) by (simp add: mapped_def set_a3_def highest_append heap_area_def V took_def)
  then show ?thesis using r(1,3,7) V by (intro exI [of _ ?k] exI [of _ v]) (simp add: set_a3_def)
qed

end
