(* ===== verification/Mmap_Props.thy ===== *)
theory Mmap_Props
  imports Mmap
begin

text \<open>The properties of \<open>mmap\<close>: where it places an area, and where it fails to keep areas apart.\<close>

unbundle bit_operations_syntax

definition with_a1 :: "u64 \<Rightarrow> kernel \<Rightarrow> kernel" where
  "with_a1 a k = k\<lparr>tf_user := (tf_user k)\<lparr>tf_a1 := a\<rparr>\<rparr>"

text \<open>Successive calls of a process with the sizes \<open>as\<close>; the results are the addresses it gets.\<close>

fun mmap_all :: "u64 list \<Rightarrow> kernel \<Rightarrow> (u64 list \<times> kernel) option" where
  "mmap_all [] k = Some ([], k)"
| "mmap_all (a # as) k =
     do { k \<leftarrow> scall_handler_mmap (with_a1 a k);
          (ps, k') \<leftarrow> mmap_all as k;
          Some (tf_a3 (tf_user k) # ps, k') }"

lemma with_a1_simps [simp]:
  "mapped (with_a1 x k) ys m f = mapped k ys m f" "vm (with_a1 x k) = vm k" "tf_a1 (tf_user (with_a1 x k)) = x"
  by (simp_all add: mapped_def with_a1_def)

text \<open>Once the highest area counts as empty, every call returns its address.\<close>

definition area_at :: "pt \<Rightarrow> addr \<Rightarrow> u64 \<times> u64" where
  "area_at st v = (vm_vpn st v, vm_pagen st v)"

lemma mmap_all_same:
  assumes "mapped k ys (vpn, 0) (length as)" "vpn \<noteq> 0"
  shows "\<exists>k' us. mmap_all as k = Some (replicate (length as) (vpn2virt vpn), k')
    \<and> area_list (vm k') (p_uvmas (running k')) (ys @ map node_of us)
    \<and> map (area_at (vm k')) us = map (Pair vpn) as
    \<and> (\<forall>u. node_of u \<in> set ys \<longrightarrow> area_at (vm k') u = area_at (vm k) u)"
  using assms(1)
proof (induction as arbitrary: k ys)
  case Nil
  then show ?case by (auto simp: mapped_def intro!: exI [of _ "[]"])
next
  case (Cons a as)
  have "mapped (with_a1 a k) ys (vpn, 0) (Suc (length as))" using Cons.prems by simp
  from mmap_step [OF this, of vpn] assms(2) obtain k1 v where k1: "scall_handler_mmap (with_a1 a k) = Some k1"
    "mapped k1 (ys @ [node_of v]) (vpn, 0) (length as)" "node_of v \<notin> set ys" "tf_a3 (tf_user k1) = vpn2virt vpn"
    "area_at (vm k1) v = (vpn, a)" "\<forall>u. u \<noteq> v \<longrightarrow> vma_at (vm k1) u = vma_at (vm k) u"
    by (auto simp: area_at_def)
  from Cons.IH [OF k1(2)] obtain k' us where r: "mmap_all as k1 = Some (replicate (length as) (vpn2virt vpn), k')"
    "area_list (vm k') (p_uvmas (running k')) ((ys @ [node_of v]) @ map node_of us)" "map (area_at (vm k')) us = map (Pair vpn) as"
    "\<forall>u. node_of u \<in> set (ys @ [node_of v]) \<longrightarrow> area_at (vm k') u = area_at (vm k1) u" by blast
  have "area_at (vm k1) u = area_at (vm k) u" if "node_of u \<in> set ys" for u
  proof -
    have "u \<noteq> v" using that k1(3) by auto
    then have "vma_at (vm k1) u = vma_at (vm k) u" using k1(6) by blast
    then show ?thesis by (simp add: vma_at_def area_at_def)
  qed
  then show ?case using r k1(1,4,5) by (intro exI [of _ k'] exI [of _ "v # us"]) simp
qed

section \<open>A process with a heap\<close>

lemma heap_ex:
  "\<exists>k text stack. proc_running k < MAX_PROCESSES \<and> area_list (vm k) (p_uvmas (running k)) [node_of text, node_of stack]
     \<and> salloc_inv (vm k) \<and> areas_ok (vm k) [node_of text, node_of stack] \<and> 10 < card (free_pages (frames (vm k)))
     \<and> vm_vpn (vm k) text < USER_HEAP_BASE_VPN \<and> vm_vpn (vm k) stack = USER_STACK_BASE_VPN
     \<and> vm_pagen (vm k) stack = 1 \<and> pt_inv (ksatp (vm k)) (vm k) \<and> pt_inv (p_satp (running k)) (vm k)
     \<and> spaces_apart (pmem (vm k)) (p_satp (running k)) (ksatp (vm k))"
proof -
  obtain fr where fr: "raw_buddy_init 0x80200000 used_state = Some fr" using init_ex by blast
  have fp: "free_pages fr = {512..<8191}"
    using fr raw_buddy_init_inv [of used_state "0x80200000"] by (auto simp: used_state_def word_le_nat_alt word_less_nat_alt)
  note b = boot_ex_ready [OF fr]
  have s: "proc_find_free_process_slot (boot_ex fr) = int 1" using b(2) by simp
  let ?e = "snd (parse_elf (kmem (vm (boot_ex fr))) 0x1000)"
  have vm: "vm (boot_ex fr) = pt_ex\<lparr>frames := fr, ksatp := 0x9000000000080002\<rparr>"
    by (simp add: boot_ex_def proc_init_process_list_def Let_def upd_proc_def)
  have z: "load_le n (\<lambda>_. 0) x = 0" for n x by (induction n arbitrary: x) auto
  have km: "kmem (vm (boot_ex fr)) = (\<lambda>_. 0)" by (simp add: vm kmem_def pt_ex_def)
  have e: "virtual_load (elf ?e) = 0" "size_load (elf ?e) = 0"
    unfolding km by (simp_all add: parse_elf_def z load64_def load16_def load32_def Let_def find_load_loop.simps)
  obtain f k where k: "new_process 1 (elf ?e) (boot_ex fr) k" "started 1 (boot_ex fr) k"
    using run_process_spec [OF b(1) s _ refl, of "0x1000" 0] b(3) by fastforce
  have r: "proc_running k = 1" using k(2) by (simp add: started_def)
  obtain tv sv where a: "area_list (vm k) (p_uvmas (running k)) [node_of tv, node_of sv]" "vm_ready (vm k)" "took 4 (vm (boot_ex fr)) (vm k)"
    "vma_at (vm k) tv = \<lparr>v_vpn = 0, v_pagen = 0, v_flags = 0x4d\<rparr>"
    "vma_at (vm k) sv = \<lparr>v_vpn = USER_STACK_BASE_VPN, v_pagen = 1, v_flags = 0x4d\<rparr>"
    using k(1) unfolding new_process_def Let_def r e by (auto simp: text_pages_needed_def)
  have ks: "ksatp (vm k) = ksatp (vm (boot_ex fr))" using k(1) by (simp add: new_process_def Let_def quiet_def)
  have "lower_free (vm (boot_ex fr))"
    by (simp add: lower_free_def vm pt_ex_def entry_zero is_table_def pte_is_valid_bit)
  moreover have "pt_inv (ksatp (vm (boot_ex fr))) (vm (boot_ex fr))" using b(1) by (simp add: vm_ready_def)
  ultimately have sp: "pt_inv (p_satp (running k)) (vm k)" "spaces_apart (pmem (vm k)) (p_satp (running k)) (ksatp (vm k))"
    using k(1) unfolding ks by (simp_all add: new_process_def Let_def fresh_space_def keeps_apart_def r)
  from a have "areas_ok (vm k) [node_of tv, node_of sv]"
    by (auto simp: areas_ok_def vma_at_def area_pages_def stack_vpn)
  moreover have "10 < card (free_pages (frames (vm k)))" using a(3) by (simp add: took_def vm fp)
  ultimately show ?thesis
    using a r sp by (intro exI [of _ k] exI [of _ tv] exI [of _ sv]) (simp add: vm_ready_def vma_at_def)
qed

section \<open>The properties\<close>



text \<open>(C19) \<open>get_free_vpn\<close> keeps the size of the highest area in an \<open>int\<close>. When a process whose areas are disjoint and end
  below the stack maps a number of pages that is a multiple of 2^32, zero among them, and free pages are left, the new area
  therefore counts as empty: whatever sizes the process asks for next, all
  calls return the same address as the first, and all the areas begin at that page.\<close>
theorem mmap_zero_overlap:
  assumes "area_list (vm k) (p_uvmas (running k)) xs" "proc_running k < MAX_PROCESSES" "salloc_inv (vm k)" "areas_ok (vm k) xs"
    and "\<forall>n \<in> set xs. vm_vpn (vm k) (vma_of n) \<noteq> USER_STACK_BASE_VPN \<longrightarrow>
      unat (vm_vpn (vm k) (vma_of n)) + unat (vm_pagen (vm k) (vma_of n)) < unat USER_STACK_BASE_VPN"
    and "length (z # as) \<le> card (free_pages (frames (vm k)))" "unat z mod 2 ^ 32 = 0"
  shows "\<exists>k' p us. mmap_all (z # as) k = Some (replicate (length (z # as)) (vpn2virt p), k')
    \<and> area_list (vm k') (p_uvmas (running k')) (xs @ map node_of us)
    \<and> map (vm_vpn (vm k')) us = replicate (length (z # as)) p \<and> map (vm_pagen (vm k')) us = z # as"
proof -
  obtain mv mp where h: "highest (vm k) xs (0, 0) = (mv, mp)" by fastforce
  define vpn where "vpn = (if mv = 0 then USER_HEAP_BASE_VPN else mv + scast mp)"
  have top: "vpn \<noteq> USER_STACK_BASE_VPN \<and> USER_HEAP_BASE_VPN \<le> vpn \<and> mv < vpn"
  proof (cases "mv = 0")
    case True
    then show ?thesis by (simp add: vpn_def stack_vpn)
  next
    case False
    from highest_end [OF assms(4) h False] assms(5) False show ?thesis
      by (auto simp: vpn_def heap_area_def word_le_nat_alt word_less_nat_alt)
  qed
  then have nz: "vpn \<noteq> 0" by auto
  have "unat (ucast z :: u32) = 0" using assms(7) by (simp add: unsigned_ucast_eq unsigned_take_bit_eq take_bit_eq_mod)
  then have z: "(ucast z :: u32) = 0" by (simp only: unat_eq_zero)
  have "mapped (with_a1 z k) xs (mv, mp) (Suc (length as))" using assms h by (simp add: mapped_def with_a1_def)
  from mmap_step [OF this vpn_def] top obtain k1 v where k1: "scall_handler_mmap (with_a1 z k) = Some k1"
    "mapped k1 (xs @ [node_of v]) (vpn, 0) (length as)" "tf_a3 (tf_user k1) = vpn2virt vpn" "area_at (vm k1) v = (vpn, z)"
    by (auto simp: z area_at_def)
  from mmap_all_same [OF k1(2) nz] obtain k' us where r: "mmap_all as k1 = Some (replicate (length as) (vpn2virt vpn), k')"
    "area_list (vm k') (p_uvmas (running k')) ((xs @ [node_of v]) @ map node_of us)" "map (area_at (vm k')) us = map (Pair vpn) as"
    "\<forall>u. node_of u \<in> set (xs @ [node_of v]) \<longrightarrow> area_at (vm k') u = area_at (vm k1) u" by blast
  have "map (area_at (vm k')) (v # us) = map (Pair vpn) (z # as)" using r(3,4) k1(4) by simp
  from arg_cong [OF this, of "map fst"] arg_cong [OF this, of "map snd"]
  have "map (vm_vpn (vm k')) (v # us) = replicate (length (z # as)) vpn" "map (vm_pagen (vm k')) (v # us) = z # as"
    by (simp_all add: area_at_def comp_def map_replicate_const)
  then show ?thesis using r(1,2) k1(1,3) by (intro exI [of _ k'] exI [of _ vpn] exI [of _ "v # us"]) simp
qed

theorem mmap_zero_overlap_witness:
  "\<exists>k k' p us. mmap_all [0x100000000, 4, 4, 7] k = Some ([p, p, p, p], k') \<and> length us = 4
     \<and> (\<exists>xs. area_list (vm k') (p_uvmas (running k')) (xs @ map node_of us)) \<and> map (vm_pagen (vm k')) us = [0x100000000, 4, 4, 7]"
proof -
  obtain k tv sv where k: "proc_running k < MAX_PROCESSES" "area_list (vm k) (p_uvmas (running k)) [node_of tv, node_of sv]"
    "salloc_inv (vm k)" "areas_ok (vm k) [node_of tv, node_of sv]" "10 < card (free_pages (frames (vm k)))"
    "vm_vpn (vm k) tv < USER_HEAP_BASE_VPN" "vm_vpn (vm k) sv = USER_STACK_BASE_VPN" using heap_ex by blast
  have "unat (vm_vpn (vm k) tv) + unat (vm_pagen (vm k) tv) \<le> unat USER_HEAP_BASE_VPN" using k(4,6) by (simp add: areas_ok_def)
  then have "\<forall>n \<in> set [node_of tv, node_of sv]. vm_vpn (vm k) (vma_of n) \<noteq> USER_STACK_BASE_VPN \<longrightarrow>
      unat (vm_vpn (vm k) (vma_of n)) + unat (vm_pagen (vm k) (vma_of n)) < unat USER_STACK_BASE_VPN"
    using k(7) by (simp add: stack_vpn)
  from mmap_zero_overlap [OF k(2,1,3,4) this, of "0x100000000" "[4, 4, 7]"] k(5) obtain k' p us where
    r: "mmap_all [0x100000000, 4, 4, 7] k = Some (replicate (length [0x100000000 :: u64, 4, 4, 7]) (vpn2virt p), k')"
    "area_list (vm k') (p_uvmas (running k')) ([node_of tv, node_of sv] @ map node_of us)" "map (vm_pagen (vm k')) us = [0x100000000, 4, 4, 7]"
    by fastforce
  have "replicate (length [0x100000000 :: u64, 4, 4, 7]) x = [x, x, x, x]" for x :: u64 by simp
  moreover have "length us = 4" using arg_cong [OF r(3), of length] by simp
  ultimately show ?thesis using r by metis
qed

end
