(* ===== verification/Unmap.thy ===== *)
theory Unmap
  imports Create_Props
begin

text \<open>
  Unmapping areas (\<open>pt_vma_unmap_pages\<close>, \<open>pt_vma_destroy\<close>). The loop steps forward over a page it
  unmapped and backwards by the error code over a page that is not mapped; it ends all the same,
  because every second visit of a page finds it unmapped and the way back ends below page 0.
\<close>

unbundle bit_operations_syntax

section \<open>The tables of the lower half\<close>

definition mapped_vpns :: "mem \<Rightarrow> u64 \<Rightarrow> u64 set" where
  "mapped_vpns m root = {vpn. \<exists>d e. leaf_at m root vpn d e}"

text \<open>\<open>trimmed satp st st'\<close>: pages of the lower half were unmapped, and no more.\<close>

definition trimmed :: "u64 \<Rightarrow> pt \<Rightarrow> pt \<Rightarrow> bool" where
  "trimmed satp st st' \<longleftrightarrow> (\<exists>m. st' = st\<lparr>pmem := m\<rparr>) \<and> pt_inv satp st'
     \<and> (\<forall>vpn d. d < 4 \<longrightarrow> tab (pmem st') (root_of satp) vpn d = tab (pmem st) (root_of satp) vpn d)
     \<and> (\<forall>vpn d e. leaf_at (pmem st') (root_of satp) vpn d e \<longrightarrow> leaf_at (pmem st) (root_of satp) vpn d e)
     \<and> (\<forall>vpn d e. 256 \<le> unat (idx vpn 0) \<longrightarrow> leaf_at (pmem st) (root_of satp) vpn d e \<longrightarrow> leaf_at (pmem st') (root_of satp) vpn d e)
     \<and> (\<forall>a. drop_bit 12 a \<notin> user_pages (pmem st) (root_of satp) \<longrightarrow> pmem st' a = pmem st a)"

lemma trimmed_refl: "pt_inv satp st \<Longrightarrow> trimmed satp st st"
  by (auto simp: trimmed_def intro: exI [of _ "pmem st"])

lemma trimmedD:
  assumes "trimmed satp st st'"
  shows "\<exists>m. st' = st\<lparr>pmem := m\<rparr>" "pt_inv satp st'" "user_pages (pmem st') (root_of satp) = user_pages (pmem st) (root_of satp)"
    "leaf_at (pmem st') (root_of satp) vpn d e \<Longrightarrow> leaf_at (pmem st) (root_of satp) vpn d e"
    "256 \<le> unat (idx vpn 0) \<Longrightarrow> leaf_at (pmem st) (root_of satp) vpn d e \<Longrightarrow> leaf_at (pmem st') (root_of satp) vpn d e"
    "drop_bit 12 a \<notin> user_pages (pmem st) (root_of satp) \<Longrightarrow> pmem st' a = pmem st a"
    "k < 4 \<Longrightarrow> tab (pmem st') (root_of satp) vpn k = tab (pmem st) (root_of satp) vpn k"
proof -
  show "user_pages (pmem st') (root_of satp) = user_pages (pmem st) (root_of satp)"
    using assms by (intro user_pages_cong) (simp add: trimmed_def)
qed (use assms in \<open>unfold trimmed_def, blast+\<close>)

lemma trimmed_trans:
  assumes "trimmed satp st st1" "trimmed satp st1 st2"
  shows "trimmed satp st st2"
proof -
  note a = trimmedD [OF assms(1)] and b = trimmedD [OF assms(2)]
  have "\<exists>m. st2 = st\<lparr>pmem := m\<rparr>" using a(1) b(1) by auto
  moreover have "pmem st2 x = pmem st x" if "drop_bit 12 x \<notin> user_pages (pmem st) (root_of satp)" for x
    using a(6) [OF that] b(6) [of x] that unfolding a(3) by simp
  moreover have "tab (pmem st2) (root_of satp) v k = tab (pmem st) (root_of satp) v k" if "k < 4" for v k
    using a(7) [OF that] b(7) [OF that] by simp
  ultimately show ?thesis unfolding trimmed_def using a(4,5) b(2,4,5) by blast
qed

section \<open>One page\<close>

lemma get_pte_loop_error: "get_pte_loop depth vpn ptes p st = Some (r, x) \<Longrightarrow> - 3 \<le> r"
  by (induction depth vpn ptes p st rule: get_pte_loop.induct)
    (subst (asm) get_pte_loop.simps, auto split: bind_splits if_splits)

lemma pt_get_pte_error: "pt_get_pte satp vpn ptes st = Some (r, x) \<Longrightarrow> - 3 \<le> r"
  by (auto simp: pt_get_pte_def split: bind_splits if_splits dest: get_pte_loop_error)

lemma unmap_page_step:
  assumes inv: "pt_inv satp st" and low: "unat (idx vpn 0) < 256"
  shows "(\<exists>d e st'. leaf_at (pmem st) (root_of satp) vpn d e \<and> trimmed satp st st'
      \<and> pt_unmap_page satp vpn st = Some (512 ^ (3 - d), st')
      \<and> (\<forall>v d' e'. leaf_at (pmem st') (root_of satp) v d' e' \<longleftrightarrow>
          pre v (Suc d) \<noteq> pre vpn (Suc d) \<and> leaf_at (pmem st) (root_of satp) v d' e'))
    \<or> (vpn \<notin> mapped_vpns (pmem st) (root_of satp) \<and> (\<exists>r < 0. - 3 \<le> r \<and> pt_unmap_page satp vpn st = Some (r, st)))"
  using pt_get_pte_spec [of st satp vpn]
proof (elim disjE conjE exE)
  let ?root = "root_of satp"
  fix d e q
  assume l: "leaf_at (pmem st) ?root vpn d e" and q: "tab (pmem st) ?root vpn d = Some q"
    and g: "pt_get_pte satp vpn (replicate 5 0) st
      = Some (int (Suc d), walk_array (pmem st) satp vpn, Some (pte_at st q vpn d))"
  have d: "d < 4" "ent (pmem st) ?root vpn d = Some e" "pte_is_leaf e" using l by (auto simp: leaf_at_def)
  define m' where "m' = store64 (pmem st) (slot q (idx vpn d)) 0"
  define st' where "st' = st\<lparr>pmem := m'\<rparr>"
  have run: "pt_unmap_page satp vpn st = Some (512 ^ (3 - d), st')"
    using d(1) by (simp add: pt_unmap_page_def g store_pte_def st'_def m'_def level2depth_def unat_level2pagen)
  obtain st1 where s: "pt_inv satp st1" "pt_unmap_page satp vpn st = Some (512 ^ (3 - d), st1)"
    "\<forall>v d' e'. leaf_at (pmem st1) ?root v d' e' \<longleftrightarrow> pre v (Suc d) \<noteq> pre vpn (Suc d) \<and> leaf_at (pmem st) ?root v d' e'"
    using pt_unmap_page_spec [OF inv, of vpn] l leaf_at_unique [OF l] by metis
  have st1: "st1 = st'" using run s(2) by simp
  have wf: "pt_wf (pmem st) (frames st) ?root" using inv by (simp add: pt_inv_def)
  have old: "\<not> is_table (entry (pmem st) q (idx vpn d))" using d q by (auto simp: ent_def is_table_def)
  have T: "tab m' ?root v k = tab (pmem st) ?root v k" if "k \<le> 4" for v k
    by (rule write_leaf(1) [OF root_bound d(1) q pt_wfD(2) [OF wf d(1) q] old _ m'_def that])
      (auto simp: is_table_def pte_is_valid_bit)
  have "pmem st' a = pmem st a" if "drop_bit 12 a \<notin> user_pages (pmem st) ?root" for a
  proof -
    have "q \<in> user_pages (pmem st) ?root" unfolding user_pages_def using d(1) q low by auto
    then show ?thesis
      using that store_outside [OF tab_bound [OF root_bound q] unat_idx, of a "pmem st"] by (auto simp: st'_def m'_def)
  qed
  moreover have "pre v (Suc d) \<noteq> pre vpn (Suc d)" if "256 \<le> unat (idx v 0)" for v
    using that low pre_mono [of 1 "Suc d" v vpn] pre_Suc [of 0 v vpn] d(1) by auto
  moreover have "tab (pmem st') ?root v k = tab (pmem st) ?root v k" if "k < 4" for v k
    using that by (simp add: st'_def T)
  moreover have "\<exists>m. st' = st\<lparr>pmem := m\<rparr>" by (auto simp: st'_def)
  ultimately have "trimmed satp st st'" using s(1,3) unfolding trimmed_def st1 by blast
  then show ?thesis using l run s(3) unfolding st1 by blast
next
  fix r assume n: "\<forall>d e. \<not> leaf_at (pmem st) (root_of satp) vpn d e" "r < 0"
    "pt_get_pte satp vpn (replicate 5 0) st = Some (r, walk_array (pmem st) satp vpn, None)"
  then have "pt_unmap_page satp vpn st = Some (r, st)" by (simp add: pt_unmap_page_def)
  moreover have "- 3 \<le> r" using pt_get_pte_error n(3) by simp
  ultimately show ?thesis using n by (auto simp: mapped_vpns_def)
qed

section \<open>The loop\<close>

lemma low_idx: "unat vpn < 2 ^ 35 \<Longrightarrow> unat (idx vpn 0) < 256"
  by (simp add: u64_eq_iff vpn2vpnlevel_def mask_9 unat_and_mask_64 unat_drop_bit_64)

lemma unmap_loop_stop: "\<not> vpn < en \<Longrightarrow> unmap_pages_loop satp en vpn st = Some st"
  by (subst unmap_pages_loop.simps) simp

lemma unmap_loop_step:
  assumes "vpn < en" "pt_unmap_page satp vpn st = Some (r, st')" "r \<noteq> 0"
  shows "unmap_pages_loop satp en vpn st = unmap_pages_loop satp en (vpn + of_int r) st'"
  using assms by (subst unmap_pages_loop.simps) simp

lemma step_back:
  fixes vpn en :: u64
  assumes "- 3 \<le> r" "r < 0" "unat en \<le> 2 ^ 35" "vpn < en" "vpn + of_int r < en"
  shows "unat (vpn + of_int r) < unat vpn"
proof -
  define k where "k = nat (- r)"
  have k: "r = - int k" "0 < k" "k \<le> 3" using assms(1,2) by (auto simp: k_def)
  have v: "unat vpn < 2 ^ 35" using assms(3,4) by (simp add: word_less_nat_alt)
  have e: "vpn + of_int r = vpn - of_nat k" by (simp add: k(1))
  have u: "unat (of_nat k :: u64) = k" using k(3) by (simp add: unat_of_nat_64)
  show ?thesis
  proof (cases "k \<le> unat vpn")
    case True
    then have "unat (vpn - of_nat k) = unat vpn - k" using u by (subst unat_sub_64) (auto simp: word_le_nat_alt)
    then show ?thesis using True k(2) unfolding e by simp
  next
    case False
    then have "unat (vpn - of_nat k) = 2 ^ 64 + unat vpn - k" using u by (simp add: unat_sub_if')
    then have "\<not> vpn - of_nat k < en" using assms(3) k(3) by (simp add: word_less_nat_alt)
    then show ?thesis using assms(5) e by simp
  qed
qed

lemma unmap_loop_ends:
  assumes "pt_inv satp st" "unat en \<le> 2 ^ 35"
  shows "\<exists>st'. unmap_pages_loop satp en vpn st = Some st' \<and> trimmed satp st st'"
  using assms(1)
proof (induction "card (mapped_vpns (pmem st) (root_of satp)) * 2 ^ 35 + unat vpn" arbitrary: st vpn rule: less_induct)
  case less
  show ?case
  proof (cases "vpn < en")
    case False
    then show ?thesis using unmap_loop_stop trimmed_refl [OF less.prems] by blast
  next
    case True
    then have v: "unat vpn < 2 ^ 35" using assms(2) by (simp add: word_less_nat_alt)
    from unmap_page_step [OF less.prems low_idx [OF v]] show ?thesis
    proof (elim disjE exE conjE)
      fix d e st'
      assume l: "leaf_at (pmem st) (root_of satp) vpn d e" and t: "trimmed satp st st'"
        and run: "pt_unmap_page satp vpn st = Some (512 ^ (3 - d), st')"
        and lv: "\<forall>v d' e'. leaf_at (pmem st') (root_of satp) v d' e' \<longleftrightarrow>
          pre v (Suc d) \<noteq> pre vpn (Suc d) \<and> leaf_at (pmem st) (root_of satp) v d' e'"
      let ?v = "vpn + of_int (512 ^ (3 - d))"
      have "mapped_vpns (pmem st') (root_of satp) \<subset> mapped_vpns (pmem st) (root_of satp)"
        using l lv unfolding mapped_vpns_def by blast
      then have c: "card (mapped_vpns (pmem st') (root_of satp)) < card (mapped_vpns (pmem st) (root_of satp))"
        by (intro psubset_card_mono) simp_all
      have s: "unmap_pages_loop satp en vpn st = unmap_pages_loop satp en ?v st'"
        by (rule unmap_loop_step [OF True run]) simp
      show ?thesis
      proof (cases "?v < en")
        case False
        then show ?thesis unfolding s using unmap_loop_stop t by blast
      next
        case True
        then have "unat ?v < 2 ^ 35" using assms(2) by (simp add: word_less_nat_alt)
        then have "card (mapped_vpns (pmem st') (root_of satp)) * 2 ^ 35 + unat ?v
            < card (mapped_vpns (pmem st) (root_of satp)) * 2 ^ 35 + unat vpn"
          using mult_le_mono1 [OF Suc_leI [OF c], of "2 ^ 35"] by simp
        from less.hyps [OF this trimmedD(2) [OF t]] show ?thesis unfolding s using trimmed_trans [OF t] by blast
      qed
    next
      fix r assume r: "r < 0" "- 3 \<le> r" "pt_unmap_page satp vpn st = Some (r, st)"
      have s: "unmap_pages_loop satp en vpn st = unmap_pages_loop satp en (vpn + of_int r) st"
        by (rule unmap_loop_step [OF True r(3)]) (use r(1) in simp)
      show ?thesis
      proof (cases "vpn + of_int r < en")
        case False
        then show ?thesis unfolding s using unmap_loop_stop trimmed_refl [OF less.prems] by blast
      next
        case lt: True
        have "unat (vpn + of_int r) < unat vpn" by (rule step_back [OF r(2,1) assms(2) True lt])
        then show ?thesis unfolding s by (intro less.hyps less.prems) simp
      qed
    qed
  qed
qed

section \<open>An area that is mapped throughout\<close>

text \<open>Every page of the area is mapped, and no page reaches out of it.\<close>

definition populated :: "mem \<Rightarrow> u64 \<Rightarrow> nat \<Rightarrow> nat \<Rightarrow> bool" where
  "populated m root b e \<longleftrightarrow>
     (\<forall>v. b \<le> unat v \<and> unat v < e \<longrightarrow> (\<exists>d x. leaf_at m root v d x
        \<and> b \<le> unat v div 512 ^ (3 - d) * 512 ^ (3 - d) \<and> unat v div 512 ^ (3 - d) * 512 ^ (3 - d) + 512 ^ (3 - d) \<le> e))"

definition without_range :: "u64 \<Rightarrow> nat \<Rightarrow> nat \<Rightarrow> mem \<Rightarrow> mem \<Rightarrow> bool" where
  "without_range root b e m m' \<longleftrightarrow> (\<forall>v d x. leaf_at m' root v d x \<longleftrightarrow>
     \<not> (b \<le> unat v mod 2 ^ 36 \<and> unat v mod 2 ^ 36 < e) \<and> leaf_at m root v d x)"

lemma pre_eq_div:
  assumes "d < 4"
  shows "pre v (Suc d) = pre w (Suc d) \<longleftrightarrow> unat v mod 2 ^ 36 div 512 ^ (3 - d) = unat w mod 2 ^ 36 div 512 ^ (3 - d)"
proof -
  have "(512::nat) ^ (3 - d) = 2 ^ (9 * (4 - Suc d))" using assms by (simp add: power_mult)
  then show ?thesis by (simp only: pre_def u64_eq_iff unat_drop_bit_64 unat_and_mask_64)
qed

lemma leaf_at_cong: "leaf_at m root v d x \<Longrightarrow> pre w (Suc d) = pre v (Suc d) \<Longrightarrow> leaf_at m root w d x"
  using ent_cong [of d w v m root] by (simp add: leaf_at_def)

lemma div_range: "0 < (S::nat) \<Longrightarrow> x div S = n \<longleftrightarrow> n * S \<le> x \<and> x < n * S + S"
  by (auto simp: mult.commute dividend_less_times_div add.commute intro!: div_nat_eqI)

lemma unmap_populated:
  assumes inv: "pt_inv satp st0" and full: "populated (pmem st0) (root_of satp) b (unat en)" and e: "unat en \<le> 2 ^ 35"
    and st: "pt_inv satp st" "trimmed satp st0 st" "b \<le> unat vpn" "unat vpn \<le> unat en"
      "without_range (root_of satp) b (unat vpn) (pmem st0) (pmem st)"
  shows "\<exists>st'. unmap_pages_loop satp en vpn st = Some st' \<and> trimmed satp st0 st'
    \<and> without_range (root_of satp) b (unat en) (pmem st0) (pmem st')"
  using st
proof (induction "unat en - unat vpn" arbitrary: st vpn rule: less_induct)
  case less
  show ?case
  proof (cases "vpn < en")
    case False
    then have "unat vpn = unat en" using less.prems(4) by (simp add: word_less_nat_alt)
    then show ?thesis using unmap_loop_stop [OF False] less.prems by auto
  next
    case True
    let ?root = "root_of satp"
    have lt: "unat vpn < unat en" and v: "unat vpn < 2 ^ 35" using e True by (simp_all add: word_less_nat_alt)
    obtain d x where l0: "leaf_at (pmem st0) ?root vpn d x"
      and in': "b \<le> unat vpn div 512 ^ (3 - d) * 512 ^ (3 - d)" "unat vpn div 512 ^ (3 - d) * 512 ^ (3 - d) + 512 ^ (3 - d) \<le> unat en"
      using full lt less.prems(3) unfolding populated_def by blast
    define S :: nat where "S = 512 ^ (3 - d)"
    have S: "0 < S" and d: "d < 4" using l0 by (simp_all add: S_def leaf_at_def)
    have l: "leaf_at (pmem st) ?root vpn d x"
      using l0 less.prems(5) v unfolding without_range_def by auto
    have start: "unat vpn div S * S = unat vpn"
    proof (rule ccontr)
      define s where "s = (of_nat (unat vpn div S * S) :: u64)"
      assume n: "unat vpn div S * S \<noteq> unat vpn"
      have le: "unat vpn div S * S \<le> unat vpn" by (rule div_times_less_eq_dividend)
      then have s: "unat s = unat vpn div S * S" using v unfolding s_def by (intro unat_of_nat_64) (erule le_less_trans, simp)
      then have b: "b \<le> unat s" "unat s < unat vpn" using in'(1) le_neq_implies_less [OF le n] by (simp_all add: S_def)
      have "pre s (Suc d) = pre vpn (Suc d)" unfolding pre_eq_div [OF d] using b v s S by (simp flip: S_def)
      then have "leaf_at (pmem st) ?root s d x" by (rule leaf_at_cong [OF l])
      then show False using less.prems(5) b v unfolding without_range_def by auto
    qed
    from unmap_page_step [OF less.prems(1) low_idx [OF v]] l leaf_at_unique [OF l]
    obtain st' where t: "trimmed satp st st'" and run: "pt_unmap_page satp vpn st = Some (512 ^ (3 - d), st')"
      and lv: "\<forall>v d' e'. leaf_at (pmem st') ?root v d' e' \<longleftrightarrow> pre v (Suc d) \<noteq> pre vpn (Suc d) \<and> leaf_at (pmem st) ?root v d' e'"
      unfolding mapped_vpns_def by blast
    let ?v = "vpn + of_int (512 ^ (3 - d))"
    have vS: "unat vpn + S \<le> unat en" using in'(2) start by (simp add: S_def)
    have "(of_int (512 ^ (3 - d)) :: u64) = of_nat S" by (simp add: S_def)
    then have v': "unat ?v = unat vpn + S" using vS e by (simp add: unat_add_of_nat_64)
    have "without_range ?root b (unat ?v) (pmem st0) (pmem st')"
      unfolding without_range_def v'
    proof (intro allI)
      fix w d' e'
      have "pre w (Suc d) = pre vpn (Suc d) \<longleftrightarrow> unat vpn \<le> unat w mod 2 ^ 36 \<and> unat w mod 2 ^ 36 < unat vpn + S"
        unfolding pre_eq_div [OF d] S_def [symmetric] using v start by (simp add: div_range [OF S])
      then show "leaf_at (pmem st') ?root w d' e' \<longleftrightarrow>
          \<not> (b \<le> unat w mod 2 ^ 36 \<and> unat w mod 2 ^ 36 < unat vpn + S) \<and> leaf_at (pmem st0) ?root w d' e'"
        using lv less.prems(3,5) unfolding without_range_def by auto
    qed
    moreover have "unmap_pages_loop satp en vpn st = unmap_pages_loop satp en ?v st'"
      by (rule unmap_loop_step [OF True run]) simp
    ultimately show ?thesis
      using less.hyps [of ?v st'] v' vS S lt less.prems(3) trimmedD(2) [OF t] trimmed_trans [OF less.prems(2) t] by simp
  qed
qed

lemma without_range_empty: "without_range root b b m m"
  by (simp add: without_range_def)

end
