(* ===== verification/Kill.thy ===== *)
theory Kill
  imports Unmap Mmap_Props
begin

text \<open>
  Ending a process (\<open>proc_kill_process\<close>, \<open>scall_handler_end\<close>): the loops over its areas end, the kernel's
  half and all other address spaces keep their translation, and the next process is resumed.
\<close>

unbundle bit_operations_syntax

section \<open>Other address spaces\<close>

lemma trimmed_other:
  assumes "trimmed satp st st'" "pt_inv satp' st" "spaces_apart (pmem st) satp satp'"
  shows "pt_inv satp' st' \<and> (\<forall>vpn. sv48_translate (pmem st') satp' vpn = sv48_translate (pmem st) satp' vpn)"
proof -
  have k: "tables_kept (pmem st) (pmem st') (root_of satp')"
    using trimmedD(6) [OF assms(1)] assms(3) unfolding tables_kept_def spaces_apart_def by blast
  have wf: "pt_wf (pmem st) (frames st) (root_of satp')" and b: "buddy_inv (frames st)" using assms(2) by (simp_all add: pt_inv_def)
  have "frames st' = frames st" using trimmedD(1) [OF assms(1)] by auto
  then have "pt_inv satp' st'" using tables_kept_wf [OF k root_bound wf order_refl] b by (simp add: pt_inv_def)
  then show ?thesis using tables_kept_translate [OF k wf] by blast
qed

lemma trimmed_upper:
  assumes "trimmed satp st st'" "pt_inv satp st" "256 \<le> unat (idx vpn 0)"
  shows "sv48_translate (pmem st') satp vpn = sv48_translate (pmem st) satp vpn"
proof -
  have "pt_wf (pmem st) (frames st) (root_of satp)" "pt_wf (pmem st') (frames st') (root_of satp)"
    using assms(2) trimmedD(2) [OF assms(1)] by (simp_all add: pt_inv_def)
  then show ?thesis by (rule translate_cong) (use trimmedD(4,5) [OF assms(1)] assms(3) in blast)
qed

section \<open>The areas of a process\<close>

definition lower_areas :: "pt \<Rightarrow> addr list \<Rightarrow> bool" where
  "lower_areas st xs \<longleftrightarrow> (\<forall>n \<in> set xs. unat (vm_vpn st (vma_of n) + vm_pagen st (vma_of n)) \<le> 2 ^ 35)"

lemma trimmed_nodes: "trimmed satp (st\<lparr>vm_nodes := h\<rparr>) st' \<longleftrightarrow> vm_nodes st' = h \<and> trimmed satp st (st'\<lparr>vm_nodes := vm_nodes st\<rparr>)"
proof -
  have "(\<exists>m. st' = st\<lparr>vm_nodes := h, pmem := m\<rparr>) \<longleftrightarrow> vm_nodes st' = h \<and> (\<exists>m. st'\<lparr>vm_nodes := vm_nodes st\<rparr> = st\<lparr>pmem := m\<rparr>)"
    by (cases st; cases st') auto
  then show ?thesis by (auto simp: trimmed_def pt_inv_def)
qed

lemma destroy_spec:
  assumes "pt_inv satp st" "unat (vm_vpn st p + vm_pagen st p) \<le> 2 ^ 35"
  shows "\<exists>st'. pt_vma_destroy satp p st = Some st' \<and> vm_nodes st' = list_remove (node_of p) (vm_nodes st)
    \<and> trimmed satp st (st'\<lparr>vm_nodes := vm_nodes st\<rparr>)"
proof -
  let ?st = "st\<lparr>vm_nodes := list_remove (node_of p) (vm_nodes st)\<rparr>"
  have "pt_inv satp ?st" using assms(1) by (simp add: pt_inv_def)
  from unmap_loop_ends [OF this assms(2), of "vm_vpn st p"] show ?thesis
    by (auto simp: pt_vma_destroy_def pt_vma_unmap_pages_def vma_at_def trimmed_nodes)
qed

lemma kill_loop_spec:
  assumes "pt_inv satp st" "dlist (vm_nodes st) head xs" "lower_areas st xs"
  shows "\<exists>st'. kill_loop head satp (hd (xs @ [head])) st = Some st' \<and> dlist (vm_nodes st') head []
    \<and> trimmed satp st (st'\<lparr>vm_nodes := vm_nodes st\<rparr>)"
  using assms
proof (induction xs arbitrary: st)
  case Nil
  then show ?case by (subst kill_loop.simps) (simp add: trimmed_refl)
next
  case (Cons n xs)
  have ne: "n \<noteq> head" and nx: "nnext (vm_nodes st) n = hd (xs @ [head])"
    using Cons.prems(2) by (auto simp: dlist_def) (cases xs, auto)
  obtain st1 where st1: "pt_vma_destroy satp (vma_of n) st = Some st1" "vm_nodes st1 = list_remove n (vm_nodes st)"
    "trimmed satp st (st1\<lparr>vm_nodes := vm_nodes st\<rparr>)"
    using destroy_spec [OF Cons.prems(1), of "vma_of n"] Cons.prems(3) by (auto simp: lower_areas_def)
  obtain m where m: "st1\<lparr>vm_nodes := vm_nodes st\<rparr> = st\<lparr>pmem := m\<rparr>" using trimmedD(1) [OF st1(3)] by blast
  have "vm_vpn (st1\<lparr>vm_nodes := vm_nodes st\<rparr>) = vm_vpn st" "vm_pagen (st1\<lparr>vm_nodes := vm_nodes st\<rparr>) = vm_pagen st" by (simp_all add: m)
  then have "lower_areas st1 xs" using Cons.prems(3) by (simp add: lower_areas_def)
  moreover have "pt_inv satp st1" using trimmedD(2) [OF st1(3)] by (simp add: pt_inv_def)
  moreover have "dlist (vm_nodes st1) head xs" using dlist_list_remove(1) [of _ head "[]" n xs] Cons.prems(2) st1(2) by simp
  ultimately obtain st2 where st2: "kill_loop head satp (hd (xs @ [head])) st1 = Some st2" "dlist (vm_nodes st2) head []"
    "trimmed satp st1 (st2\<lparr>vm_nodes := vm_nodes st1\<rparr>)"
    using Cons.IH [of st1] by blast
  have "trimmed satp (st1\<lparr>vm_nodes := vm_nodes st\<rparr>) (st2\<lparr>vm_nodes := vm_nodes st\<rparr>)"
    using st2(3) by (simp add: trimmed_nodes)
  then have "trimmed satp st (st2\<lparr>vm_nodes := vm_nodes st\<rparr>)" by (rule trimmed_trans [OF st1(3)])
  then show ?case using st1(1) st2(1,2) ne nx by (subst kill_loop.simps) simp
qed

section \<open>Killing\<close>

text \<open>\<open>spares satp st st'\<close>: every address space apart from \<open>satp\<close> is as it was.\<close>

definition spares :: "u64 \<Rightarrow> pt \<Rightarrow> pt \<Rightarrow> bool" where
  "spares satp st st' \<longleftrightarrow> (\<forall>satp'. pt_inv satp' st \<longrightarrow> spaces_apart (pmem st) satp satp' \<longrightarrow>
     pt_inv satp' st' \<and> (\<forall>vpn. sv48_translate (pmem st') satp' vpn = sv48_translate (pmem st) satp' vpn))"

lemma kill_spec:
  assumes "proc_running k < MAX_PROCESSES" "area_list (vm k) (p_uvmas (running k)) xs"
    and "pt_inv (p_satp (running k)) (vm k)" "lower_areas (vm k) xs"
  shows "\<exists>k'. proc_kill_process i k = Some k' \<and> frames (vm k') = frames (vm k) \<and> ksatp (vm k') = ksatp (vm k)
    \<and> csr_satp (vm k') = ksatp (vm k) \<and> mach k' = mach k \<and> spares (p_satp (running k)) (vm k) (vm k')"
proof -
  let ?st = "(vm k)\<lparr>csr_satp := ksatp (vm k)\<rparr>" and ?p = "running k"
  have nz: "p_uvmas ?p \<noteq> 0" using area_list_nonzero [OF assms(2), of "p_uvmas ?p"] by simp
  have d: "dlist (vm_nodes ?st) (p_uvmas ?p) xs" using assms(2) by (simp add: area_list_def)
  have inv: "pt_inv (p_satp ?p) ?st" using assms(3) by (simp add: pt_inv_def)
  obtain st' where st': "kill_loop (p_uvmas ?p) (p_satp ?p) (hd (xs @ [p_uvmas ?p])) ?st = Some st'"
    "trimmed (p_satp ?p) ?st (st'\<lparr>vm_nodes := vm_nodes ?st\<rparr>)"
    using kill_loop_spec [OF inv d] assms(4) by (auto simp: lower_areas_def)
  have hd: "nnext (vm_nodes (vm k)) (p_uvmas ?p) = hd (xs @ [p_uvmas ?p])" using dlist_next_head [OF d] by simp
  obtain m where m: "st'\<lparr>vm_nodes := vm_nodes (vm k)\<rparr> = ?st\<lparr>pmem := m\<rparr>" using trimmedD(1) [OF st'(2)] by auto
  have f: "frames st' = frames (vm k)" "ksatp st' = ksatp (vm k)" "csr_satp st' = ksatp (vm k)"
    using arg_cong [OF m, of frames] arg_cong [OF m, of ksatp] arg_cong [OF m, of csr_satp] by simp_all
  have "spares (p_satp ?p) (vm k) st'"
    unfolding spares_def using trimmed_other [OF st'(2)] by (auto simp: pt_inv_def)
  then show ?thesis
    using assms(1) nz st'(1) hd f by (simp add: proc_kill_process_def upd_vm_def upd_proc_def Let_def)
qed

lemma end_spec:
  assumes inv: "sched_inv k" and time: "time_ok k" and a: "area_list (vm k) (p_uvmas (running k)) xs"
    and pt: "pt_inv (p_satp (running k)) (vm k)" "lower_areas (vm k) xs"
  shows "\<exists>c k'. scall_handler_end k = Some (c, k') \<and> (run_queue k \<noteq> [] \<longrightarrow> spares (p_satp (running k)) (vm k) (vm k')
    \<and> frames (vm k') = frames (vm k))"
proof -
  have r: "proc_running k < MAX_PROCESSES" using inv by (simp add: sched_inv_def)
  obtain k1 where k1: "proc_kill_process (proc_running k) k = Some k1" "frames (vm k1) = frames (vm k)" "mach k1 = mach k"
    "spares (p_satp (running k)) (vm k) (vm k1)"
    using kill_spec [OF r a pt] by blast
  obtain p where p: "p_status p = PROCESS_FREE_SLOT" "process_list k1 = (process_list k)(proc_running k := p)"
    "proc_running k1 = proc_running k" "processes_total k1 = processes_total k"
    using kill_frees_slot [OF k1(1)] by blast
  let ?k1 = "k1\<lparr>processes_total := processes_total k1 - 1\<rparr>"
  show ?thesis
  proof (cases "run_queue k")
    case Nil
    then have "processes_total k1 = 1" using inv p(4) by (simp add: sched_inv_def)
    moreover obtain k2 where k2: "kprintstr (''No more processes to run.'' @ [CHR 0x0A]) ?k1 = Some k2" "prints ?k1 k2"
      using kprintstr_prints [of "''No more processes to run.'' @ [CHR 0x0A]" ?k1] by auto
    moreover have "time_ok k2" using time k2(2) k1(3) by (auto simp: time_ok_def prints_def)
    then obtain k3 where "ecall ECALL_TURNOFF k2 = Some (Off, k3)" using ecall_off by blast
    ultimately show ?thesis
      using k1(1) Nil by (auto simp: scall_handler_end_def seq_def proc_turnoff_def ecall_poweroff_def)
  next
    case (Cons t ts)
    have "processes_total k1 - 1 \<noteq> 0" using Cons inv p(4) by (simp add: sched_inv_def)
    moreover have "process_list ?k1 = (process_list k)(proc_running k := p)" "proc_running ?k1 = proc_running k"
      "processes_total ?k1 = processes_total k - of_bool (p_status p \<noteq> PROCESS_PAUSED)"
      using p by simp_all
    from scheduler_next [OF inv Cons this] p(1) obtain k' where k': "proc_scheduler ?k1 = Some (Resumes (resume_frame (process_list k t)), k')"
      "vm k' = (vm k1)\<lparr>csr_satp := tf_satp (p_tf (process_list k t))\<rparr>" by auto
    moreover have "spares (p_satp (running k)) (vm k) (vm k')" using k1(4) by (auto simp: spares_def k'(2) pt_inv_def)
    ultimately show ?thesis using k1(1,2) by (auto simp: scall_handler_end_def)
  qed
qed

end
