(* ===== verification/Kill_Props.thy ===== *)
theory Kill_Props
  imports Kill
begin

text \<open>The properties of unmapping an area and of ending a process.\<close>

unbundle bit_operations_syntax

section \<open>Unmapping an area\<close>

lemma without_range_translate:
  assumes "pt_inv satp st" "pt_inv satp st'" "without_range (root_of satp) b e (pmem st) (pmem st')" "unat vpn < 2 ^ 36"
  shows "sv48_translate (pmem st') satp vpn = (if b \<le> unat vpn \<and> unat vpn < e then None else sv48_translate (pmem st) satp vpn)"
proof -
  have l: "leaf_at (pmem st') (root_of satp) vpn d x \<longleftrightarrow> \<not> (b \<le> unat vpn \<and> unat vpn < e) \<and> leaf_at (pmem st) (root_of satp) vpn d x" for d x
    using assms(3,4) by (simp add: without_range_def)
  have wf: "pt_wf (pmem st) (frames st) (root_of satp)" "pt_wf (pmem st') (frames st') (root_of satp)"
    using assms(1,2) by (simp_all add: pt_inv_def)
  show ?thesis
  proof (cases "b \<le> unat vpn \<and> unat vpn < e")
    case True
    then have "sv48_translate (pmem st') satp vpn \<noteq> Some q" for q using sv48_translate_leaf [OF wf(2), of vpn q] l by auto
    then show ?thesis using True by (cases "sv48_translate (pmem st') satp vpn") auto
  next
    case False
    then show ?thesis using translate_cong [OF wf, of vpn] l by auto
  qed
qed

text \<open>(C21) Unmapping an area that is mapped throughout: \<open>pt_vma_unmap_pages\<close> terminates, no page of the area is
  translated any more, and all other pages of the address space are translated as before.\<close>
theorem unmap_area_correct:
  assumes "pt_inv satp st" "populated (pmem st) (root_of satp) (unat (v_vpn vma)) (unat (v_vpn vma) + unat (v_pagen vma))"
    and "unat (v_vpn vma) + unat (v_pagen vma) \<le> 2 ^ 35"
  shows "\<exists>st'. pt_vma_unmap_pages satp vma st = Some st' \<and> pt_inv satp st' \<and>
    (\<forall>vpn. unat vpn < 2 ^ 36 \<longrightarrow> sv48_translate (pmem st') satp vpn =
       (if unat (v_vpn vma) \<le> unat vpn \<and> unat vpn < unat (v_vpn vma) + unat (v_pagen vma) then None
        else sv48_translate (pmem st) satp vpn))"
proof -
  have en: "unat (v_vpn vma + v_pagen vma) = unat (v_vpn vma) + unat (v_pagen vma)" using assms(3) by (simp add: unat_add_64)
  obtain st' where st': "pt_vma_unmap_pages satp vma st = Some st'" "trimmed satp st st'"
    "without_range (root_of satp) (unat (v_vpn vma)) (unat (v_vpn vma + v_pagen vma)) (pmem st) (pmem st')"
    using unmap_populated [OF assms(1) _ _ assms(1) trimmed_refl [OF assms(1)] order_refl _ without_range_empty,
        where en = "v_vpn vma + v_pagen vma" and vpn = "v_vpn vma"]
      assms(2,3) en unfolding pt_vma_unmap_pages_def by auto
  note inv' = trimmedD(2) [OF st'(2)]
  from without_range_translate [OF assms(1) inv' st'(3)] inv' st'(1) show ?thesis unfolding en by blast
qed

theorem unmap_area_correct_witness:
  "\<exists>st st'. pt_inv satp_ex st \<and> leaf_at (pmem st) (root_of satp_ex) 1 3 0x2000040F
     \<and> pt_vma_unmap_pages satp_ex \<lparr>v_vpn = 0, v_pagen = 2, v_flags = 7\<rparr> st = Some st' \<and> sv48_translate (pmem st') satp_ex 1 = None"
proof -
  obtain st where st: "pt_inv satp_ex st" "leaf_at (pmem st) (root_of satp_ex) 0 3 0x2000000F"
    "leaf_at (pmem st) (root_of satp_ex) 1 3 0x2000040F" using two_leaves_ex by blast
  have "\<exists>x. leaf_at (pmem st) (root_of satp_ex) v 3 x" if "unat v < 2" for v
  proof -
    have "v = 0 \<or> v = 1" using that by (auto simp: u64_eq_iff)
    then show ?thesis using st(2,3) by auto
  qed
  then have "populated (pmem st) (root_of satp_ex) 0 2" unfolding populated_def by fastforce
  then have "populated (pmem st) (root_of satp_ex) 0 (Suc (Suc 0))" by (simp only: numeral_2_eq_2)
  then have "\<exists>st'. pt_vma_unmap_pages satp_ex \<lparr>v_vpn = 0, v_pagen = 2, v_flags = 7\<rparr> st = Some st' \<and> sv48_translate (pmem st') satp_ex 1 = None"
    using unmap_area_correct [OF st(1), of "\<lparr>v_vpn = 0, v_pagen = 2, v_flags = 7\<rparr>"] by auto
  then show ?thesis using st by blast
qed

text \<open>(C22) An area whose first page is not mapped is not unmapped at all if nothing below it is mapped:
  \<open>pt_vma_unmap_pages\<close> takes the error of \<open>pt_unmap_page\<close> for a number of pages, walks down to page 0 and ends
  there. The pages of the area that are mapped stay mapped.\<close>
theorem unmap_hole_keeps_pages:
  assumes "pt_inv satp st" "unat (v_vpn vma + v_pagen vma) \<le> 2 ^ 35"
    and "\<forall>v \<le> v_vpn vma. \<forall>d e. \<not> leaf_at (pmem st) (root_of satp) v d e"
  shows "pt_vma_unmap_pages satp vma st = Some st"
proof -
  let ?en = "v_vpn vma + v_pagen vma"
  have "unmap_pages_loop satp ?en vpn st = Some st" if "vpn \<le> v_vpn vma" for vpn
    using that
  proof (induction "unat vpn" arbitrary: vpn rule: less_induct)
    case less
    show ?case
    proof (cases "vpn < ?en")
      case True
      then have v: "unat vpn < 2 ^ 35" using assms(2) by (simp add: word_less_nat_alt)
      obtain r where r: "r < 0" "- 3 \<le> r" "pt_unmap_page satp vpn st = Some (r, st)"
        using unmap_page_step [OF assms(1) low_idx [OF v]] assms(3) less.prems by blast
      have s: "unmap_pages_loop satp ?en vpn st = unmap_pages_loop satp ?en (vpn + of_int r) st"
        by (rule unmap_loop_step [OF True r(3)]) (use r(1) in simp)
      show ?thesis
      proof (cases "vpn + of_int r < ?en")
        case lt: True
        have b: "unat (vpn + of_int r) < unat vpn" by (rule step_back [OF r(2,1) assms(2) True lt])
        then have "vpn + of_int r \<le> v_vpn vma" using less.prems by (simp add: word_le_nat_alt)
        then show ?thesis unfolding s by (rule less.hyps [OF b])
      qed (simp add: s unmap_loop_stop)
    qed (simp add: unmap_loop_stop)
  qed
  then show ?thesis by (simp add: pt_vma_unmap_pages_def)
qed

theorem unmap_hole_keeps_pages_witness:
  "\<exists>st. pt_vma_unmap_pages satp_ex \<lparr>v_vpn = 0, v_pagen = 2, v_flags = 7\<rparr> st = Some st
     \<and> leaf_at (pmem st) (root_of satp_ex) 1 3 0x2000040F"
proof -
  obtain s where s: "pt_inv satp_ex s" "leaf_at (pmem s) (root_of satp_ex) 0 3 0x2000000F"
    "leaf_at (pmem s) (root_of satp_ex) 1 3 0x2000040F" using two_leaves_ex by blast
  obtain d e st where st: "leaf_at (pmem s) (root_of satp_ex) 0 d e" "pt_inv satp_ex st"
    "\<forall>v d' e'. leaf_at (pmem st) (root_of satp_ex) v d' e' \<longleftrightarrow> pre v (Suc d) \<noteq> pre 0 (Suc d) \<and> leaf_at (pmem s) (root_of satp_ex) v d' e'"
    using pt_unmap_page_spec [OF s(1), of 0] s(2) by blast
  have d: "d = 3" using leaf_at_unique [OF st(1) s(2)] by simp
  have "pre 1 4 \<noteq> pre 0 4" by (simp add: pre_def mask_eq_exp_minus_1)
  then have "leaf_at (pmem st) (root_of satp_ex) 1 3 0x2000040F" "\<not> leaf_at (pmem st) (root_of satp_ex) 0 d' e'" for d' e'
    using st(3) s(3) by (simp_all add: d)
  then show ?thesis using unmap_hole_keeps_pages [OF st(2), of "\<lparr>v_vpn = 0, v_pagen = 2, v_flags = 7\<rparr>"] by auto
qed

section \<open>Ending a process\<close>

text \<open>(C20) Ending a process with well-formed page tables, all of whose areas end at or below page 2^35, the start of the kernel's half (\<open>mmap\<close> does not
  enforce this), terminates. The machine is switched off if no process waits; otherwise the
  slot is free, the next process of the queue is resumed with its registers, and every address space
  that shares no table with the lower half of the one that ended is translated as before. No page returns to
  the allocator.\<close>
theorem end_process_correct:
  assumes "sched_inv k" "time_ok k" "area_list (vm k) (p_uvmas (running k)) xs"
    and "pt_inv (p_satp (running k)) (vm k)" "lower_areas (vm k) xs"
  shows "\<exists>c k'. scall_handler_end k = Some (c, k') \<and> (case run_queue k of
      [] \<Rightarrow> c = Off
    | t # ts \<Rightarrow> c = Resumes (resume_frame (process_list k t)) \<and> sched_inv k' \<and> proc_running k' = t \<and> run_queue k' = ts
        \<and> p_status (process_list k' (proc_running k)) = PROCESS_FREE_SLOT
        \<and> spares (p_satp (running k)) (vm k) (vm k') \<and> free_pages (frames (vm k')) = free_pages (frames (vm k)))"
proof -
  obtain c k' where e: "scall_handler_end k = Some (c, k')"
    "run_queue k \<noteq> [] \<longrightarrow> spares (p_satp (running k)) (vm k) (vm k') \<and> frames (vm k') = frames (vm k)"
    using end_spec [OF assms] by blast
  have r: "p_status (running k) = PROCESS_RUNNING" "proc_running k < MAX_PROCESSES" using assms(1) by (auto simp: sched_inv_def)
  have "t \<noteq> proc_running k" if "run_queue k = t # ts" for t ts
    using waiting_set [OF r(2), of "process_list k"] that by auto
  then show ?thesis using end_result [OF assms(1) e(1)] e by (auto split: list.splits)
qed

theorem end_process_correct_witness:
  "\<exists>k f k'. run_queue k = [2] \<and> scall_handler_end k = Some (Resumes f, k') \<and> proc_running k' = 2
     \<and> (\<forall>vpn. sv48_translate (pmem (vm k')) (ksatp (vm k)) vpn = sv48_translate (pmem (vm k)) (ksatp (vm k)) vpn)"
proof -
  obtain q tv sv where q: "area_list (vm q) (p_uvmas (running q)) [node_of tv, node_of sv]" "areas_ok (vm q) [node_of tv, node_of sv]"
    "vm_vpn (vm q) tv < USER_HEAP_BASE_VPN" "vm_vpn (vm q) sv = USER_STACK_BASE_VPN" "vm_pagen (vm q) sv = 1"
    "pt_inv (ksatp (vm q)) (vm q)" "pt_inv (p_satp (running q)) (vm q)" "spaces_apart (pmem (vm q)) (p_satp (running q)) (ksatp (vm q))"
    using heap_ex by blast
  define p where "p = (process_list kernel_ex 1)\<lparr>p_satp := p_satp (running q), p_uvmas := p_uvmas (running q)\<rparr>"
  define k where "k = kernel_ex\<lparr>vm := vm q, process_list := (process_list kernel_ex)(1 := p)\<rparr>"
  have r: "proc_running k = 1" "vm k = vm q" "process_list k 1 = p" "p_satp p = p_satp (running q)" "p_uvmas p = p_uvmas (running q)"
    by (simp_all add: k_def p_def kernel_ex_def)
  have queue: "run_queue k = [2]"
    using waiting_cong [of 1 "process_list k" "process_list kernel_ex"] kernel_ex_queue by (simp add: k_def kernel_ex_def)
  moreover have "sched_inv kernel_ex" using kernel_ex_inv by (simp add: sys_inv_def)
  ultimately have "sched_inv k" using kernel_ex_queue by (simp add: sched_inv_def) (simp add: k_def p_def kernel_ex_def proc_ex_def)
  moreover have "time_ok k" by (simp add: time_ok_def k_def kernel_ex_def)
  moreover have "unat (vm_vpn (vm q) tv) + unat (vm_pagen (vm q) tv) \<le> unat USER_HEAP_BASE_VPN" using q(2,3) by (simp add: areas_ok_def)
  then have "lower_areas (vm q) [node_of tv, node_of sv]"
    using q(4,5) by (simp add: lower_areas_def stack_vpn unat_add_64)
  ultimately obtain c k' where "scall_handler_end k = Some (c, k')" "c = Resumes (resume_frame (process_list k 2))" "proc_running k' = 2"
    "spares (p_satp (running q)) (vm q) (vm k')"
    using end_process_correct [of k "[node_of tv, node_of sv]"] q(1,7) queue r by (auto simp: r(3) [simplified])
  then show ?thesis using queue q(6,8) r(2) unfolding spares_def by (intro exI [of _ k]) auto
qed

end
