(* ===== verification/Identity.thy ===== *)
theory Identity
  imports Unmap
begin

text \<open>
  Areas that map given physical pages (\<open>VMA_IDENTITY\<close>), as the kernel uses them for its own mappings: \<open>__pt_vma_new\<close>
  maps every page of the area to its physical page with the largest pages that fit.
\<close>

unbundle bit_operations_syntax

section \<open>Page numbers and blocks\<close>

text \<open>A page number selects an entry by its lowest 36 bits.\<close>

abbreviation pg :: "u64 \<Rightarrow> nat" where "pg v \<equiv> unat v mod 2 ^ 36"

abbreviation block_start :: "nat \<Rightarrow> nat \<Rightarrow> nat" where "block_start l n \<equiv> n div 512 ^ l * 512 ^ l"

lemma block_start_shift:
  assumes "l \<le> 3"
  shows "block_start l (2 ^ 36 * k + n) = 2 ^ 36 * k + block_start l n"
proof -
  have "(2::nat) ^ 36 = 512 ^ 4" by simp
  also have "\<dots> = 512 ^ l * 512 ^ (4 - l)" using assms by (simp flip: power_add)
  finally have e: "(2::nat) ^ 36 * k = 512 ^ (4 - l) * k * 512 ^ l" by (simp only: ac_simps)
  define S c :: nat where "S = 512 ^ l" and "c = 512 ^ (4 - l) * k"
  have "0 < S" by (simp add: S_def)
  then have "(c * S + n) div S * S = c * S + n div S * S" by (simp add: distrib_right)
  then show ?thesis unfolding e S_def c_def .
qed

lemma unat_pg: "unat v = 2 ^ 36 * (unat v div 2 ^ 36) + pg v"
  by simp

definition id_area :: "vma \<Rightarrow> bool" where
  "id_area vma \<longleftrightarrow> v_flags vma AND VMA_IDENTITY \<noteq> 0 \<and> v_flags vma AND VMA_POPULATE = 0 \<and> bit (v_flags vma) 0
     \<and> pg (v_vpn vma) + unat (v_pagen vma) \<le> 2 ^ 36 \<and> unat (v_vpn vma) + unat (v_pagen vma) \<le> 2 ^ 52"

abbreviation area_lo :: "vma \<Rightarrow> nat" where "area_lo vma \<equiv> pg (v_vpn vma)"
abbreviation area_hi :: "vma \<Rightarrow> nat" where "area_hi vma \<equiv> pg (v_vpn vma) + unat (v_pagen vma)"

lemma area_vpn:
  assumes "id_area vma" "i < unat (v_pagen vma)"
  shows "in_area vma (v_vpn vma + of_nat i)" "pg (v_vpn vma + of_nat i) = area_lo vma + i"
    "unat (v_vpn vma + of_nat i) div 2 ^ 36 = unat (v_vpn vma) div 2 ^ 36" "unat (v_vpn vma + of_nat i) = unat (v_vpn vma) + i"
proof -
  have i: "unat (v_vpn vma) + unat (v_pagen vma) \<le> 2 ^ 52" "area_lo vma + unat (v_pagen vma) \<le> 2 ^ 36" using assms(1) by (simp_all add: id_area_def)
  show u: "unat (v_vpn vma + of_nat i) = unat (v_vpn vma) + i" using i(1) assms(2) by (simp add: unat_add_of_nat_64)
  then show "in_area vma (v_vpn vma + of_nat i)" using i(1) assms(2) by (simp add: in_area_def)
  define k where "k = unat (v_vpn vma) div 2 ^ 36"
  define n where "n = area_lo vma + i"
  have s: "unat (v_vpn vma) + i = 2 ^ 36 * k + n" unfolding k_def n_def by simp
  have lt: "n < 2 ^ 36" using i(2) assms(2) unfolding n_def by linarith
  show "pg (v_vpn vma + of_nat i) = area_lo vma + i" unfolding u s n_def [symmetric] using lt by simp
  show "unat (v_vpn vma + of_nat i) div 2 ^ 36 = unat (v_vpn vma) div 2 ^ 36" unfolding u s k_def [symmetric] using lt by simp
qed

lemma fits_pg:
  assumes "id_area vma" "i < unat (v_pagen vma)" "l \<le> 3"
  shows "fits vma (v_vpn vma + of_nat i) l \<longleftrightarrow>
    area_lo vma \<le> block_start l (area_lo vma + i) \<and> block_start l (area_lo vma + i) + 512 ^ l \<le> area_hi vma"
proof -
  note a = area_vpn [OF assms(1,2)]
  define k where "k = unat (v_vpn vma) div 2 ^ 36"
  have v: "unat (v_vpn vma) = 2 ^ 36 * k + area_lo vma" unfolding k_def by simp
  have n: "unat (v_vpn vma + of_nat i) = 2 ^ 36 * k + (area_lo vma + i)" using a(4) v by simp
  define s where "s = block_start l (area_lo vma + i)"
  have "block_start l (unat (v_vpn vma + of_nat i)) = 2 ^ 36 * k + s"
    unfolding n s_def by (rule block_start_shift [OF assms(3)])
  then show ?thesis unfolding fits_nat [OF a(1) assms(3)] s_def [symmetric] using v by linarith
qed

section \<open>One page\<close>

lemma id_new_page:
  assumes id: "v_flags vma AND VMA_IDENTITY \<noteq> 0" "v_flags vma AND VMA_POPULATE = 0" and z: "pg_pte out = 0"
  shows "\<exists>out'. back_level vma vpn ppn l out st = Some (Some l, out', st)
    \<and> pg_pte out' = new_pte (v_flags vma) ppn \<and> pg_vpn out' = vpn2prevpageboundary vpn l \<and> pg_level out' = l"
  using id set_perm_again [of "out\<lparr>pg_vpn := vpn2prevpageboundary vpn l, pg_level := l\<rparr>" "v_flags vma"] z
  by (subst back_level.simps) (auto simp: pt_vma_new_page_at_vpn_of_level_def raw_pt_page_needs_pte_def Let_def new_pte_def)

definition mapped_id :: "u64 \<Rightarrow> vma \<Rightarrow> u64 \<Rightarrow> u64 \<Rightarrow> nat \<Rightarrow> pt \<Rightarrow> pt \<Rightarrow> bool" where
  "mapped_id satp vma vpn ppn l st st' \<longleftrightarrow> pt_inv satp st' \<and> pt_grows satp st st' \<and> pt_extends satp vpn st st'
     \<and> (\<forall>v d x. leaf_at (pmem st') (root_of satp) v d x \<longleftrightarrow>
          (if pre v (4 - l) = pre vpn (4 - l) then d = 3 - l \<and> x = new_pte (v_flags vma) ppn
           else leaf_at (pmem st) (root_of satp) v d x))"

lemma id_map_page:
  assumes inv: "pt_inv satp st" and id: "v_flags vma AND VMA_IDENTITY \<noteq> 0" "v_flags vma AND VMA_POPULATE = 0" "bit (v_flags vma) 0"
    and l: "fit_level vma vpn PAGE_TERA = Some l" "512 ^ l dvd unat vpn" "l \<le> 3"
    and free: "\<And>d x. \<not> leaf_at (pmem st) (root_of satp) vpn d x"
      "ent (pmem st) (root_of satp) vpn (3 - l) = None \<or> ent (pmem st) (root_of satp) vpn (3 - l) = Some 0"
  shows "(\<exists>st'. pt_vma_map_page_at_vpn satp vma vpn ppn st = Some (512 ^ l, st') \<and> mapped_id satp vma vpn ppn l st st')
    \<or> (\<exists>st'. pt_grows satp st st' \<and> pt_extends satp vpn st st' \<and> free_pages (frames st') = {})"
proof -
  let ?z = "\<lparr>pg_vpn = 0, pg_level = 0, pg_ppn = 0, pg_pte = 0\<rparr>" and ?root = "root_of satp"
  have b: "vpn2prevpageboundary vpn l = vpn"
    using l(2) by (simp add: u64_eq_iff unat_prevboundary [OF l(3)])
  obtain r where r: "raw_pt_find_level_of_highest_empty_pte satp vpn st = Some (int r)" "l \<le> r"
    using find_level_empty [OF free(1) l(3) free(2)] by blast
  obtain out where out: "back_level vma vpn ppn l ?z st = Some (Some l, out, st)"
    "pg_pte out = new_pte (v_flags vma) ppn" "pg_vpn out = vpn" "pg_level out = l"
    using id_new_page [OF id(1,2), of ?z vpn ppn l st] b by auto
  have "unat vpn mod 512 ^ l = 0" using l(2) by simp
  then have rem: "sint (vpn + level2pagen l - vpn) = 512 ^ l" using page_remaining [OF l(3), of vpn] b by simp
  have new: "pt_vma_new_page_at_vpn satp vma vpn ppn ?z st = Some (512 ^ l, out, st)"
    using l(1) r out(1) b rem by (simp add: pt_vma_new_page_at_vpn_def Let_def)
  have leaf: "pte_is_valid (new_pte (v_flags vma) ppn)" "pte_is_leaf (new_pte (v_flags vma) ppn)"
    using id(3) by (simp_all add: new_pte_fields)
  have nb: "\<not> blocked (pmem st) ?root vpn (4 - l)"
  proof -
    have four: "Suc (3 - l) = 4 - l" using l(3) by simp
    have "tab (pmem st) ?root vpn (Suc (3 - l)) = None"
      using free(2) by (auto simp: ent_def is_table_def pte_is_valid_bit split: option.splits)
    then show ?thesis using free(1) unfolding four by (simp add: blocked_def)
  qed
  obtain q st' where q: "pt_set_pte_leaf satp vpn (new_pte (v_flags vma) ppn) (4 - l) st = Some (q, st')" "pt_inv satp st'"
    "pt_grows satp st st'" "pt_extends satp vpn st st'"
    and o: "q = 0 \<and> (\<forall>v d x. leaf_at (pmem st') ?root v d x \<longleftrightarrow>
            (if pre v (4 - l) = pre vpn (4 - l) then d = 4 - l - 1 \<and> x = new_pte (v_flags vma) ppn else leaf_at (pmem st) ?root v d x))
      \<or> free_pages (frames st') = {}"
    using pt_set_pte_leaf_spec [OF inv _ _ leaf, of "4 - l" vpn] nb l(3) by force
  show ?thesis
  proof (cases "free_pages (frames st') = {}")
    case False
    have "raw_pt_map_page satp out st = Some (0, st')"
      using q(1) o False out l(3) by (simp add: raw_pt_map_page_def level2depth_def)
    then have "pt_vma_map_page_at_vpn satp vma vpn ppn st = Some (512 ^ l, st')"
      using new by (simp add: pt_vma_map_page_at_vpn_def)
    moreover have "mapped_id satp vma vpn ppn l st st'" using q o False by (simp add: mapped_id_def)
    ultimately show ?thesis by blast
  qed (use q in blast)
qed

section \<open>Room for an area\<close>

text \<open>Nothing is mapped in the range, and no table belongs to a block inside it.\<close>

definition clear_range :: "mem \<Rightarrow> u64 \<Rightarrow> nat \<Rightarrow> nat \<Rightarrow> bool" where
  "clear_range m root lo hi \<longleftrightarrow> (\<forall>v. lo \<le> pg v \<longrightarrow> pg v < hi \<longrightarrow>
     (\<forall>d x. \<not> leaf_at m root v d x)
     \<and> (\<forall>d < 4. lo \<le> block_start (3 - d) (pg v) \<longrightarrow> block_start (3 - d) (pg v) + 512 ^ (3 - d) \<le> hi \<longrightarrow>
          ent m root v d = None \<or> ent m root v d = Some 0))"

lemma clear_range_sub: "clear_range m root lo hi \<Longrightarrow> lo \<le> lo' \<Longrightarrow> hi' \<le> hi \<Longrightarrow> clear_range m root lo' hi'"
  unfolding clear_range_def by (meson le_trans less_le_trans)

lemma pre_eq_block:
  assumes "d < 4"
  shows "pre v (Suc d) = pre w (Suc d) \<longleftrightarrow> block_start (3 - d) (pg v) = block_start (3 - d) (pg w)"
  unfolding pre_eq_div [OF assms] by simp

lemma in_block: "block_start l n \<le> n \<and> n < block_start l n + 512 ^ l" for l n
proof -
  have "n mod 512 ^ l < 512 ^ l" by simp
  moreover have "n div 512 ^ l * 512 ^ l + n mod 512 ^ l = n" by (rule div_mult_mod_eq)
  ultimately show ?thesis by linarith
qed

lemma clear_range_step:
  assumes m: "mapped_id satp vma vpn ppn l st st'" and l: "l \<le> 3" "512 ^ l dvd pg vpn"
    and dis: "pg vpn + 512 ^ l \<le> lo \<or> hi \<le> pg vpn" and c: "clear_range (pmem st) (root_of satp) lo hi"
  shows "clear_range (pmem st') (root_of satp) lo hi"
  unfolding clear_range_def
proof (intro allI impI conjI)
  fix v assume v: "lo \<le> pg v" "pg v < hi"
  have four: "Suc (3 - l) = 4 - l" "3 - (3 - l) = l" using l(1) by simp_all
  have start: "block_start l (pg vpn) = pg vpn" using l(2) by simp
  have "pre v (4 - l) \<noteq> pre vpn (4 - l)"
  proof
    assume "pre v (4 - l) = pre vpn (4 - l)"
    then have "block_start l (pg v) = pg vpn" using pre_eq_block [of "3 - l" v vpn] unfolding four start by simp
    then show False using in_block [where l = l and n = "pg v"] v dis by linarith
  qed
  then show "\<not> leaf_at (pmem st') (root_of satp) v d x" for d x
    using m c v unfolding mapped_id_def clear_range_def by simp
  fix d assume d: "d < (4::nat)" "lo \<le> block_start (3 - d) (pg v)" "block_start (3 - d) (pg v) + 512 ^ (3 - d) \<le> hi"
  have "pre v (Suc d) \<noteq> pre vpn (Suc d)"
  proof
    assume "pre v (Suc d) = pre vpn (Suc d)"
    then have "block_start (3 - d) (pg v) = block_start (3 - d) (pg vpn)" using pre_eq_block [OF d(1)] by simp
    then have "lo \<le> pg vpn \<and> pg vpn < hi" using in_block [where l = "3 - d" and n = "pg vpn"] d(2,3) by linarith
    moreover have "(0::nat) < 512 ^ l" by simp
    ultimately show False using dis by linarith
  qed
  then have "ent (pmem st') (root_of satp) v d = ent (pmem st) (root_of satp) v d
      \<or> ent (pmem st) (root_of satp) v d = None \<and> ent (pmem st') (root_of satp) v d = Some 0"
    using m d(1) unfolding mapped_id_def pt_extends_def by blast
  then show "ent (pmem st') (root_of satp) v d = None \<or> ent (pmem st') (root_of satp) v d = Some 0"
    using c v d unfolding clear_range_def by metis
qed

section \<open>Tables an area needs\<close>

definition area_tables :: "nat \<Rightarrow> nat \<Rightarrow> (nat \<times> nat) set" where
  "area_tables lo hi = (\<lambda>(d, n). (d, n div 512 ^ (4 - d))) ` ({1..3} \<times> {lo..<hi})"

text \<open>The pages taken from the allocator have become tables on the way to the area.\<close>

definition only_tables :: "u64 \<Rightarrow> nat \<Rightarrow> nat \<Rightarrow> pt \<Rightarrow> pt \<Rightarrow> bool" where
  "only_tables satp lo hi st st' \<longleftrightarrow>
     (\<forall>b \<in> free_pages (frames st) - free_pages (frames st'). \<exists>v d. lo \<le> pg v \<and> pg v < hi \<and> d \<in> {1..3}
        \<and> tab (pmem st') (root_of satp) v d = Some (block2ppn b))
     \<and> (\<forall>v d q. d \<le> 4 \<longrightarrow> tab (pmem st) (root_of satp) v d = Some q \<longrightarrow> tab (pmem st') (root_of satp) v d = Some q)
     \<and> (\<forall>v. (\<forall>w. lo \<le> pg w \<and> pg w < hi \<longrightarrow> pre v 1 \<noteq> pre w 1) \<longrightarrow> ent (pmem st') (root_of satp) v 0 = ent (pmem st) (root_of satp) v 0)"

lemma only_tables_refl [simp]: "only_tables satp lo hi st st"
  by (simp add: only_tables_def)

lemma only_tables_step:
  assumes "only_tables satp lo hi st st1" "pt_extends satp vpn st1 st2" "lo \<le> pg vpn" "pg vpn < hi"
  shows "only_tables satp lo hi st st2"
proof -
  let ?root = "root_of satp"
  have mono: "tab (pmem st2) ?root v d = Some q" if "d \<le> 4" "tab (pmem st1) ?root v d = Some q" for v d q
    using assms(2) that unfolding pt_extends_def by blast
  have "\<exists>v d. lo \<le> pg v \<and> pg v < hi \<and> d \<in> {1..3} \<and> tab (pmem st2) ?root v d = Some (block2ppn b)"
    if b: "b \<in> free_pages (frames st) - free_pages (frames st2)" for b
  proof (cases "b \<in> free_pages (frames st1)")
    case True
    then show ?thesis using assms(2-4) b unfolding pt_extends_def by blast
  next
    case False
    then obtain v d where v: "lo \<le> pg v" "pg v < hi" "d \<in> {1..3}" "tab (pmem st1) ?root v d = Some (block2ppn b)"
      using assms(1) b unfolding only_tables_def by blast
    then show ?thesis using mono [of d v "block2ppn b"] by auto
  qed
  moreover have "ent (pmem st2) ?root v 0 = ent (pmem st) ?root v 0" if "\<forall>w. lo \<le> pg w \<and> pg w < hi \<longrightarrow> pre v 1 \<noteq> pre w 1" for v
  proof -
    have "pre v (Suc 0) \<noteq> pre vpn (Suc 0)" using that assms(3,4) by simp
    moreover have "ent (pmem st1) ?root v 0 \<noteq> None" by (simp add: ent_def)
    ultimately have "ent (pmem st2) ?root v 0 = ent (pmem st1) ?root v 0"
      using assms(2) unfolding pt_extends_def by (metis zero_less_numeral)
    then show ?thesis using assms(1) that unfolding only_tables_def by simp
  qed
  ultimately show ?thesis using assms(1) mono unfolding only_tables_def by blast
qed

lemma only_tables_card:
  assumes "only_tables satp lo hi st st'" "buddy_inv (frames st)"
  shows "card (free_pages (frames st) - free_pages (frames st')) \<le> card (area_tables lo hi)"
proof -
  let ?t = "free_pages (frames st) - free_pages (frames st')" and ?root = "root_of satp"
  define P where "P b v d \<longleftrightarrow> lo \<le> pg v \<and> pg v < hi \<and> d \<in> {1..3} \<and> tab (pmem st') ?root v d = Some (block2ppn b)" for b v d
  have "\<forall>b \<in> ?t. \<exists>vd. P b (fst vd) (snd vd)" using assms(1) by (auto simp: only_tables_def P_def)
  then obtain f where f: "\<forall>b \<in> ?t. P b (fst (f b)) (snd (f b))" by (rule bchoice [THEN exE])
  define g where "g b = (snd (f b), pg (fst (f b)) div 512 ^ (4 - snd (f b)))" for b
  have "inj_on g ?t"
  proof (rule inj_onI)
    fix b c assume bc: "b \<in> ?t" "c \<in> ?t" "g b = g c"
    define v w d where "v = fst (f b)" and "w = fst (f c)" and "d = snd (f b)"
    have "snd (f c) = d" using bc(3) by (simp add: g_def d_def)
    then have d: "d \<in> {1..3}" and t: "tab (pmem st') ?root v d = Some (block2ppn b)" "tab (pmem st') ?root w d = Some (block2ppn c)"
      using bspec [OF f bc(1)] bspec [OF f bc(2)] by (simp_all add: P_def v_def w_def flip: d_def)
    have "pre v d = pre w d"
    proof -
      obtain k where k: "d = Suc k" "k < 4" using d by (cases d) auto
      have "pg v div 512 ^ (4 - d) = pg w div 512 ^ (4 - d)" using bc(3) by (auto simp: g_def v_def w_def d_def)
      then show ?thesis using pre_eq_div [OF k(2), of v w] k(1) by simp
    qed
    then have "tab (pmem st') ?root v d = tab (pmem st') ?root w d" using d by (intro tab_cong) auto
    then have "block2ppn b = block2ppn c" using t by simp
    then show "b = c" using block2ppn_inj free_pages_bound [OF assms(2)] bc by blast
  qed
  moreover have "g ` ?t \<subseteq> area_tables lo hi"
    using f by (force simp: area_tables_def P_def g_def)
  moreover have "finite (area_tables lo hi)" by (simp add: area_tables_def)
  ultimately show ?thesis by (metis card_image card_mono)
qed

lemma div_interval: "0 < (D::nat) \<Longrightarrow> card ((\<lambda>n. n div D) ` {lo..<lo + n}) \<le> n div D + 2"
proof -
  assume D: "0 < D"
  have "(\<lambda>n. n div D) ` {lo..<lo + n} \<subseteq> {lo div D..<lo div D + (n div D + 2)}"
  proof (clarsimp)
    fix x assume x: "lo \<le> x" "x < lo + n"
    have "x < (lo div D + n div D + 2) * D"
      using x(2) dividend_less_div_times [OF D, of lo] dividend_less_div_times [OF D, of n] by (simp add: distrib_right)
    then show "lo div D \<le> x div D \<and> x div D < Suc (Suc (lo div D + n div D))"
      using x(1) D by (simp add: div_le_mono less_mult_imp_div_less)
  qed
  from card_mono [OF _ this] show ?thesis by simp
qed

lemma card_area_tables: "card (area_tables lo (lo + n)) \<le> n div 512 + n div 512 ^ 2 + n div 512 ^ 3 + 6"
proof -
  let ?f = "\<lambda>d. (\<lambda>k. (d, k)) ` ((\<lambda>n. n div 512 ^ (4 - d)) ` {lo..<lo + n})"
  have c: "card (?f d) \<le> n div 512 ^ (4 - d) + 2" for d
    by (rule order_trans [OF card_image_le div_interval]) simp_all
  have "area_tables lo (lo + n) \<subseteq> ?f 1 \<union> ?f 2 \<union> ?f 3"
  proof
    fix x assume "x \<in> area_tables lo (lo + n)"
    then obtain d k where "d \<in> {1..3}" "k \<in> {lo..<lo + n}" "x = (d, k div 512 ^ (4 - d))" unfolding area_tables_def by auto
    then have x: "d \<in> {1..3}" "x \<in> ?f d" by blast+
    from x(1) consider "d = 1" | "d = 2" | "d = 3" by force
    then show "x \<in> ?f 1 \<union> ?f 2 \<union> ?f 3" using x(2) by cases blast+
  qed
  then have "card (area_tables lo (lo + n)) \<le> card (?f 1 \<union> ?f 2 \<union> ?f 3)" by (intro card_mono) simp_all
  then have "card (area_tables lo (lo + n)) \<le> card (?f 1) + card (?f 2) + card (?f 3)"
    using card_Un_le [of "?f 1 \<union> ?f 2" "?f 3"] card_Un_le [of "?f 1" "?f 2"] by linarith
  then show ?thesis using c [of 1] c [of 2] c [of 3] by simp
qed

section \<open>The loop\<close>

text \<open>The pages below \<open>area_lo vma + i\<close> are mapped to their physical pages, the first of which is \<open>ppn\<close>, and each lies in
  a page of the table inside the area.\<close>

definition mapped_to :: "mem \<Rightarrow> u64 \<Rightarrow> vma \<Rightarrow> u64 \<Rightarrow> nat \<Rightarrow> bool" where
  "mapped_to m root vma ppn i \<longleftrightarrow> (\<forall>v. area_lo vma \<le> pg v \<longrightarrow> pg v < area_lo vma + i \<longrightarrow>
     (\<exists>d < 4. area_lo vma \<le> block_start (3 - d) (pg v) \<and> block_start (3 - d) (pg v) + 512 ^ (3 - d) \<le> area_lo vma + i
        \<and> leaf_at m root v d (new_pte (v_flags vma) (ppn + of_nat (block_start (3 - d) (pg v) - area_lo vma)))))"

definition same_outside :: "mem \<Rightarrow> mem \<Rightarrow> u64 \<Rightarrow> nat \<Rightarrow> nat \<Rightarrow> bool" where
  "same_outside m m' root lo hi \<longleftrightarrow> (\<forall>v d x. \<not> (lo \<le> pg v \<and> pg v < hi) \<longrightarrow> leaf_at m' root v d x = leaf_at m root v d x)"

definition id_progress :: "u64 \<Rightarrow> vma \<Rightarrow> u64 \<Rightarrow> pt \<Rightarrow> nat \<Rightarrow> pt \<Rightarrow> bool" where
  "id_progress satp vma ppn st i st' \<longleftrightarrow> pt_inv satp st' \<and> pt_grows satp st st' \<and> i \<le> unat (v_pagen vma)
     \<and> mapped_to (pmem st') (root_of satp) vma ppn i
     \<and> same_outside (pmem st) (pmem st') (root_of satp) (area_lo vma) (area_lo vma + i)
     \<and> clear_range (pmem st') (root_of satp) (area_lo vma + i) (area_hi vma)
     \<and> (\<forall>k \<le> 3. area_lo vma \<le> block_start k (area_lo vma + i) \<longrightarrow> block_start k (area_lo vma + i) + 512 ^ k \<le> area_hi vma \<longrightarrow>
          512 ^ k dvd area_lo vma + i)
     \<and> only_tables satp (area_lo vma) (area_hi vma) st st'
     \<and> (\<forall>lo hi. hi \<le> area_lo vma \<or> area_hi vma \<le> lo \<longrightarrow> clear_range (pmem st) (root_of satp) lo hi \<longrightarrow>
          clear_range (pmem st') (root_of satp) lo hi)"

lemma aligned_next:
  assumes "l \<le> 3" "512 ^ l dvd n" "k \<le> 3" "lo \<le> block_start k (n + 512 ^ l)" "block_start k (n + 512 ^ l) + 512 ^ k \<le> hi"
    and max: "\<And>j. l < j \<Longrightarrow> j \<le> 3 \<Longrightarrow> \<not> (lo \<le> block_start j n \<and> block_start j n + 512 ^ j \<le> hi)"
  shows "512 ^ k dvd n + 512 ^ l"
proof (rule ccontr)
  assume nd: "\<not> 512 ^ k dvd n + 512 ^ l"
  have nl: "512 ^ l dvd n + 512 ^ l" using assms(2) by simp
  have kl: "l < k"
  proof (rule ccontr)
    assume "\<not> l < k"
    then have "(512::nat) ^ k dvd 512 ^ l" by (simp add: le_imp_power_dvd)
    then show False using nd nl dvd_trans by blast
  qed
  define s where "s = block_start k (n + 512 ^ l)"
  have sk: "512 ^ k dvd s" by (simp add: s_def)
  have s: "s \<le> n + 512 ^ l" "n + 512 ^ l < s + 512 ^ k" unfolding s_def using in_block by blast+
  have "s \<noteq> n + 512 ^ l" using sk nd by auto
  then have "s < n + 512 ^ l" using s(1) by simp
  moreover have "512 ^ l dvd n + 512 ^ l - s"
    using sk kl nl dvd_trans [OF le_imp_power_dvd [of l k 512] sk] by (intro dvd_diff_nat) simp_all
  ultimately have "512 ^ l \<le> n + 512 ^ l - s" by (simp add: dvd_imp_le)
  then have "s \<le> n" "n < s + 512 ^ k" using s by simp_all
  then have "n div 512 ^ k = s div 512 ^ k" using sk
    by (intro div_nat_eqI) (auto simp: dvd_div_mult_self mult.commute [of "512 ^ k"])
  then have "block_start k n = s" using sk by simp
  then show False using max [OF kl assms(3)] assms(4,5) by (simp add: s_def)
qed

lemma pre_in_block:
  assumes "l \<le> 3" "512 ^ l dvd pg vpn"
  shows "pre v (4 - l) = pre vpn (4 - l) \<longleftrightarrow> pg vpn \<le> pg v \<and> pg v < pg vpn + 512 ^ l"
proof -
  have four: "Suc (3 - l) = 4 - l" "3 - (3 - l) = l" using assms(1) by simp_all
  have d: "3 - l < (4::nat)" by simp
  have S: "(0::nat) < 512 ^ l" by simp
  have "pg vpn div 512 ^ l * 512 ^ l = pg vpn" using assms(2) by simp
  then show ?thesis using pre_eq_div [OF d, of v vpn] div_range [OF S, of "pg v" "pg vpn div 512 ^ l"] unfolding four by simp
qed

lemma id_progress_step:
  assumes area: "id_area vma" and pr: "id_progress satp vma ppn st0 i st" and i: "i < unat (v_pagen vma)"
    and l: "fit_level vma (v_vpn vma + of_nat i) PAGE_TERA = Some l"
    and m: "mapped_id satp vma (v_vpn vma + of_nat i) (ppn + of_nat i) l st st'"
  shows "id_progress satp vma ppn st0 (i + 512 ^ l) st'"
proof -
  let ?vpn = "v_vpn vma + of_nat i" and ?root = "root_of satp"
  define lo hi n where "lo = area_lo vma" and "hi = area_hi vma" and "n = lo + i"
  have pgv: "pg ?vpn = n" using area_vpn(2) [OF area i] by (simp add: n_def lo_def)
  have l3: "l \<le> 3" "fits vma ?vpn l" "\<And>k. l < k \<Longrightarrow> k \<le> 3 \<Longrightarrow> \<not> fits vma ?vpn k"
    using l fit_level_spec [of vma ?vpn 3] by auto
  note F = fits_pg [OF area i, folded lo_def hi_def, folded n_def]
  have fit: "lo \<le> block_start l n" "block_start l n + 512 ^ l \<le> hi" using F l3(1,2) by auto
  have al: "512 ^ l dvd n" using pr l3(1) fit unfolding id_progress_def lo_def hi_def n_def by blast
  have start: "block_start l n = n" using al by simp
  have top: "n + 512 ^ l \<le> hi" using fit(2) start by simp
  note B = pre_in_block [OF l3(1) al [folded pgv], unfolded pgv]
  have leaf: "leaf_at (pmem st') ?root v d x \<longleftrightarrow> (if n \<le> pg v \<and> pg v < n + 512 ^ l
      then d = 3 - l \<and> x = new_pte (v_flags vma) (ppn + of_nat i) else leaf_at (pmem st) ?root v d x)" for v d x
    using m B unfolding mapped_id_def by simp
  have M1: "mapped_to (pmem st') ?root vma ppn (i + 512 ^ l)"
    unfolding mapped_to_def lo_def [symmetric]
  proof (intro allI impI)
    fix v assume v: "lo \<le> pg v" "pg v < lo + (i + 512 ^ l)"
    show "\<exists>d < 4. lo \<le> block_start (3 - d) (pg v) \<and> block_start (3 - d) (pg v) + 512 ^ (3 - d) \<le> lo + (i + 512 ^ l)
        \<and> leaf_at (pmem st') ?root v d (new_pte (v_flags vma) (ppn + of_nat (block_start (3 - d) (pg v) - lo)))"
    proof (cases "pg v < n")
      case True
      then obtain d where "d < 4" "lo \<le> block_start (3 - d) (pg v)" "block_start (3 - d) (pg v) + 512 ^ (3 - d) \<le> n"
        "leaf_at (pmem st) ?root v d (new_pte (v_flags vma) (ppn + of_nat (block_start (3 - d) (pg v) - lo)))"
        using pr v unfolding id_progress_def mapped_to_def lo_def n_def by blast
      then show ?thesis using True leaf [of v d] by (intro exI [of _ d]) (simp add: n_def)
    next
      case False
      then have "n \<le> pg v \<and> pg v < n + 512 ^ l" using v(2) by (simp add: n_def)
      moreover from this have "pg v div 512 ^ l = n div 512 ^ l" using start div_range [of "512 ^ l" "pg v" "n div 512 ^ l"] by simp
      then have "block_start l (pg v) = n" using start by simp
      moreover have "3 - (3 - l) = l" using l3(1) by simp
      ultimately show ?thesis using leaf [of v "3 - l"] by (intro exI [of _ "3 - l"]) (simp add: n_def)
    qed
  qed
  have M2: "same_outside (pmem st0) (pmem st') ?root lo (lo + (i + 512 ^ l))"
    using pr leaf unfolding id_progress_def same_outside_def lo_def [symmetric] n_def by auto
  have M3: "clear_range (pmem st') ?root (lo + (i + 512 ^ l)) hi"
  proof -
    have "clear_range (pmem st) ?root n hi" using pr unfolding id_progress_def lo_def hi_def n_def by blast
    then have "clear_range (pmem st) ?root (n + 512 ^ l) hi" by (rule clear_range_sub) simp_all
    from clear_range_step [OF m l3(1) _ _ this] show ?thesis using al unfolding pgv by (simp add: n_def add.assoc)
  qed
  have M4: "512 ^ k dvd lo + (i + 512 ^ l)"
    if "k \<le> 3" "lo \<le> block_start k (lo + (i + 512 ^ l))" "block_start k (lo + (i + 512 ^ l)) + 512 ^ k \<le> hi" for k
    using aligned_next [OF l3(1) al that(1), of lo hi] that(2,3) l3(3) F by (simp add: n_def add.assoc)
  have M5: "only_tables satp lo hi st0 st'"
  proof (rule only_tables_step)
    show "only_tables satp lo hi st0 st" using pr unfolding id_progress_def lo_def hi_def by blast
    show "pt_extends satp ?vpn st st'" using m by (simp add: mapped_id_def)
    show "lo \<le> pg ?vpn" "pg ?vpn < hi" unfolding pgv n_def using i by (simp_all add: hi_def lo_def)
  qed
  have M6: "clear_range (pmem st') ?root lo' hi'" if "hi' \<le> lo \<or> hi \<le> lo'" "clear_range (pmem st0) ?root lo' hi'" for lo' hi'
  proof -
    have "clear_range (pmem st) ?root lo' hi'" using pr that unfolding id_progress_def lo_def hi_def by blast
    from clear_range_step [OF m l3(1) _ _ this] show ?thesis using al that(1) top unfolding pgv by (auto simp: n_def)
  qed
  have M7: "pt_grows satp st0 st" "pt_inv satp st'" "pt_grows satp st st'" using m pr by (simp_all add: mapped_id_def id_progress_def)
  from this have M8: "pt_grows satp st0 st'" by (blast intro: pt_grows_trans)
  have M9: "i + 512 ^ l \<le> unat (v_pagen vma)" using top by (simp add: n_def hi_def lo_def)
  have M10: "hi = lo + unat (v_pagen vma)" by (simp add: hi_def lo_def)
  show ?thesis
    unfolding id_progress_def lo_def [symmetric] M10 [symmetric]
    by (intro conjI allI impI M1 M2 M3 M5 M7(2) M8 M9; (rule M4 | rule M6); assumption)
qed

lemma vma_at_grows: "pt_grows satp st st' \<Longrightarrow> vma_at st' p = vma_at st p"
proof -
  assume "pt_grows satp st st'"
  then have e: "st' = st\<lparr>pmem := pmem st', frames := frames st'\<rparr>" by (simp add: pt_grows_def)
  show ?thesis unfolding vma_at_def using arg_cong [OF e, of vm_vpn] arg_cong [OF e, of vm_pagen] arg_cong [OF e, of vm_flags] by simp
qed

lemma fit_level_end:
  assumes "id_area vma"
  shows "fit_level vma (v_vpn vma + v_pagen vma) PAGE_TERA = None"
proof -
  let ?e = "v_vpn vma + v_pagen vma"
  have u: "unat ?e = unat (v_vpn vma) + unat (v_pagen vma)" "unat ?e \<le> 2 ^ 52"
    using assms by (simp_all add: id_area_def unat_add_64)
  have "\<not> fits vma ?e l" if l: "l \<le> 3" for l
  proof -
    have s: "(512::nat) ^ l \<le> 512 ^ 3" using l by (intro power_increasing) auto
    have "block_start l (unat ?e) + 512 ^ l < 2 ^ 64"
    proof -
      have "block_start l (unat ?e) \<le> unat ?e" using in_block by blast
      then have "block_start l (unat ?e) + 512 ^ l \<le> 2 ^ 52 + 512 ^ 3" using u(2) s by linarith
      then show ?thesis by (rule le_less_trans) simp
    qed
    then have "unat (vpn2prevpageboundary ?e l + level2pagen l) = block_start l (unat ?e) + 512 ^ l"
      using unat_prevboundary [OF l, of ?e] unat_level2pagen [OF l] by (subst unat_add_64) auto
    then show ?thesis using in_block [where l = l and n = "unat ?e"] unfolding fits_def word_le_nat_alt by linarith
  qed
  then show ?thesis using fit_level_spec [of vma ?e 3] by simp
qed

lemma id_loop:
  assumes area: "id_area vma" and room: "card (area_tables (area_lo vma) (area_hi vma)) < card (free_pages (frames st0))"
    and b0: "buddy_inv (frames st0)" and at: "vma_at st0 out = vma" and pr: "id_progress satp vma ppn st0 i st"
  shows "\<exists>st'. vma_new_loop satp out (v_vpn vma + of_nat i) (ppn + of_nat i) st = Some st'
    \<and> id_progress satp vma ppn st0 (unat (v_pagen vma)) st'"
  using pr
proof (induction "unat (v_pagen vma) - i" arbitrary: i st rule: less_induct)
  case less
  let ?vpn = "v_vpn vma + of_nat i" and ?ppn = "ppn + of_nat i" and ?root = "root_of satp"
  have inv: "pt_inv satp st" and g: "pt_grows satp st0 st" and le: "i \<le> unat (v_pagen vma)"
    using less.prems by (simp_all add: id_progress_def)
  have vma: "vma_at st out = vma" using vma_at_grows [OF g] at by simp
  show ?case
  proof (cases "i < unat (v_pagen vma)")
    case False
    then have "i = unat (v_pagen vma)" using le by simp
    moreover have "vma_new_loop satp out (v_vpn vma + v_pagen vma) (ppn + v_pagen vma) st = Some st"
      using fit_level_end [OF area]
      by (subst vma_new_loop.simps) (simp add: vma pt_vma_map_page_at_vpn_def pt_vma_new_page_at_vpn_def)
    ultimately show ?thesis using less.prems by auto
  next
    case True
    note A = area_vpn [OF area True]
    have id: "v_flags vma AND VMA_IDENTITY \<noteq> 0" "v_flags vma AND VMA_POPULATE = 0" "bit (v_flags vma) 0"
      using area by (simp_all add: id_area_def)
    have "fits vma ?vpn 0" using fits_nat [OF A(1), of 0] A(1) by (auto simp: in_area_def)
    then obtain l where l: "fit_level vma ?vpn 3 = Some l" "l \<le> 3" "fits vma ?vpn l"
      using fit_level_spec [of vma ?vpn 3] by (cases "fit_level vma ?vpn 3") auto
    have fit: "area_lo vma \<le> block_start l (area_lo vma + i)" "block_start l (area_lo vma + i) + 512 ^ l \<le> area_hi vma"
      using fits_pg [OF area True l(2)] l(3) by auto
    have al: "512 ^ l dvd area_lo vma + i" using less.prems l(2) fit unfolding id_progress_def by blast
    have start: "block_start l (area_lo vma + i) = area_lo vma + i" using al by simp
    have dv: "512 ^ l dvd unat ?vpn"
    proof -
      have "unat ?vpn = 2 ^ 36 * (unat (v_vpn vma) div 2 ^ 36) + (area_lo vma + i)" using A(4) by simp
      moreover have "(512::nat) ^ l dvd 2 ^ 36" using le_imp_power_dvd [of l 4 "512 :: nat"] l(2) by simp
      ultimately show ?thesis using al by (metis dvd_add dvd_mult2)
    qed
    have c: "clear_range (pmem st) ?root (area_lo vma + i) (area_hi vma)" using less.prems unfolding id_progress_def by blast
    have three: "3 - (3 - l) = l" using l(2) by simp
    have free: "\<not> leaf_at (pmem st) ?root ?vpn d x"
      "ent (pmem st) ?root ?vpn (3 - l) = None \<or> ent (pmem st) ?root ?vpn (3 - l) = Some 0" for d x
    proof -
      have h: "(area_lo vma + i \<le> pg ?vpn \<longrightarrow> pg ?vpn < area_hi vma \<longrightarrow> (\<forall>d x. \<not> leaf_at (pmem st) ?root ?vpn d x)
        \<and> (\<forall>d < 4. area_lo vma + i \<le> block_start (3 - d) (pg ?vpn) \<longrightarrow> block_start (3 - d) (pg ?vpn) + 512 ^ (3 - d) \<le> area_hi vma \<longrightarrow>
          ent (pmem st) ?root ?vpn d = None \<or> ent (pmem st) ?root ?vpn d = Some 0))"
        using c unfolding clear_range_def by blast
      have hi: "area_lo vma + i < area_hi vma" using True by simp
      show "\<not> leaf_at (pmem st) ?root ?vpn d x" using h hi unfolding A(2) by blast
      show "ent (pmem st) ?root ?vpn (3 - l) = None \<or> ent (pmem st) ?root ?vpn (3 - l) = Some 0"
        using h hi spec [OF conjunct2, of _ _ "3 - l"] fit(2) start unfolding A(2)
        by (metis diff_less_Suc eval_nat_numeral(3) eval_nat_numeral(2) le_refl semiring_norm(26) semiring_norm(27) three)
    qed
    from id_map_page [OF inv id l(1) dv l(2) free, of ?ppn] show ?thesis
    proof (elim disjE exE conjE)
      fix st' assume m: "pt_vma_map_page_at_vpn satp vma ?vpn ?ppn st = Some (512 ^ l, st')" "mapped_id satp vma ?vpn ?ppn l st st'"
      note P = id_progress_step [OF area less.prems True l(1) m(2)]
      have S: "(0::nat) < 512 ^ l" "(512::nat) ^ l \<le> 512 ^ 3" using l(2) by (simp, intro power_increasing) auto
      then have "unat (of_nat (512 ^ l) :: u64) = 512 ^ l" by (intro unat_of_nat_64) auto
      then have pos: "(0::u64) < of_nat (512 ^ l)" using S(1) by (simp add: word_less_nat_alt)
      have "vma_new_loop satp out ?vpn ?ppn st = vma_new_loop satp out (v_vpn vma + of_nat (i + 512 ^ l)) (ppn + of_nat (i + 512 ^ l)) st'"
        using m(1) pos by (subst vma_new_loop.simps) (simp add: vma add.assoc Let_def)
      moreover have "unat (v_pagen vma) - (i + 512 ^ l) < unat (v_pagen vma) - i" using S(1) True by linarith
      ultimately show ?thesis using less.hyps [OF _ P] by simp
    next
      fix st' assume x: "pt_grows satp st st'" "pt_extends satp ?vpn st st'" "free_pages (frames st') = {}"
      have "only_tables satp (area_lo vma) (area_hi vma) st0 st" using less.prems unfolding id_progress_def by blast
      from only_tables_step [OF this x(2)] A(2) True have "only_tables satp (area_lo vma) (area_hi vma) st0 st'" by simp
      from only_tables_card [OF this b0] show ?thesis using x(3) room by simp
    qed
  qed
qed

section \<open>A set of areas\<close>

text \<open>The areas are mapped to their physical pages, and wherever no area reaches nothing is mapped.\<close>

definition id_mapped :: "mem \<Rightarrow> u64 \<Rightarrow> (vma \<times> u64) list \<Rightarrow> bool" where
  "id_mapped m root as \<longleftrightarrow> (\<forall>(vma, ppn) \<in> set as. mapped_to m root vma ppn (unat (v_pagen vma)))
     \<and> (\<forall>lo hi. (\<forall>(vma, ppn) \<in> set as. hi \<le> area_lo vma \<or> area_hi vma \<le> lo) \<longrightarrow> clear_range m root lo hi)"

definition areas_apart :: "vma \<Rightarrow> vma \<Rightarrow> bool" where
  "areas_apart a b \<longleftrightarrow> area_hi a \<le> area_lo b \<or> area_hi b \<le> area_lo a"

lemma mapped_to_outside:
  assumes "mapped_to m root vma ppn i" "same_outside m m' root lo hi" "area_lo vma + i \<le> lo \<or> hi \<le> area_lo vma"
  shows "mapped_to m' root vma ppn i"
  unfolding mapped_to_def
proof (intro allI impI)
  fix v assume v: "area_lo vma \<le> pg v" "pg v < area_lo vma + i"
  then have "\<not> (lo \<le> pg v \<and> pg v < hi)" using assms(3) by linarith
  then have "leaf_at m' root v d x = leaf_at m root v d x" for d x using assms(2) unfolding same_outside_def by blast
  then show "\<exists>d < 4. area_lo vma \<le> block_start (3 - d) (pg v) \<and> block_start (3 - d) (pg v) + 512 ^ (3 - d) \<le> area_lo vma + i
        \<and> leaf_at m' root v d (new_pte (v_flags vma) (ppn + of_nat (block_start (3 - d) (pg v) - area_lo vma)))"
    using assms(1) v unfolding mapped_to_def by simp
qed

lemma id_mapped_add:
  assumes "id_mapped (pmem st) (root_of satp) as" "id_progress satp vma ppn st (unat (v_pagen vma)) st'"
    and "\<forall>(a, q) \<in> set as. areas_apart a vma"
  shows "id_mapped (pmem st') (root_of satp) ((vma, ppn) # as)"
proof -
  have P: "mapped_to (pmem st') (root_of satp) vma ppn (unat (v_pagen vma))"
    "same_outside (pmem st) (pmem st') (root_of satp) (area_lo vma) (area_hi vma)"
    and C: "\<And>lo hi. hi \<le> area_lo vma \<or> area_hi vma \<le> lo \<Longrightarrow> clear_range (pmem st) (root_of satp) lo hi \<Longrightarrow>
       clear_range (pmem st') (root_of satp) lo hi"
    using assms(2) unfolding id_progress_def by blast+
  have "mapped_to (pmem st') (root_of satp) a q (unat (v_pagen a))" if "(a, q) \<in> set as" for a q
    using mapped_to_outside [OF _ P(2), of a q "unat (v_pagen a)"] assms(1,3) that unfolding id_mapped_def areas_apart_def by blast
  moreover have "clear_range (pmem st') (root_of satp) lo hi"
    if "\<forall>(a, q) \<in> set ((vma, ppn) # as). hi \<le> area_lo a \<or> area_hi a \<le> lo" for lo hi
    using C [of hi lo] that assms(1) unfolding id_mapped_def by simp
  ultimately show ?thesis using P(1) unfolding id_mapped_def by auto
qed

lemma id_progress_start:
  assumes "pt_inv satp st" "clear_range (pmem st) (root_of satp) (area_lo vma) (area_hi vma)"
  shows "id_progress satp vma ppn st 0 st"
proof -
  have "512 ^ k dvd area_lo vma" if "area_lo vma \<le> block_start k (area_lo vma)" for k
  proof -
    have "block_start k (area_lo vma) = area_lo vma" using that by (simp add: antisym)
    then show ?thesis by (metis dvd_triv_right)
  qed
  then show ?thesis using assms by (simp add: id_progress_def mapped_to_def same_outside_def)
qed

lemma card_le_diff: "finite A \<Longrightarrow> finite B \<Longrightarrow> card A \<le> card B + card (A - B)"
  by (metis card_Un_le card_mono finite_UnI Un_Diff_cancel Un_upper1 Un_commute finite_Diff order_trans)

text \<open>Pages are only taken from the allocator, never given back.\<close>

lemma grows_free:
  assumes "pt_inv satp st" "pt_inv satp st'" "pt_grows satp st st'" "only_tables satp lo hi st st'"
  shows "free_pages (frames st') \<subseteq> free_pages (frames st)"
proof
  have inv: "buddy_inv (frames st)" "buddy_inv (frames st')" and wf: "pt_wf (pmem st') (frames st') (root_of satp)"
    using assms(1,2) by (auto simp: pt_inv_def)
  fix b assume b: "b \<in> free_pages (frames st')"
  then have "block2ppn b \<in> owned satp st" using assms(3) by (auto simp: pt_grows_def owned_def)
  then consider v d where "d < 4" "tab (pmem st) (root_of satp) v d = Some (block2ppn b)"
    | c where "c \<in> free_pages (frames st)" "block2ppn b = block2ppn c"
    by (auto simp: owned_def pt_pages_def)
  then show "b \<in> free_pages (frames st)"
  proof cases
    case 1
    then have "tab (pmem st') (root_of satp) v d = Some (block2ppn b)" using assms(4) by (simp add: only_tables_def)
    from pt_wfD(1) [OF wf 1(1) this] show ?thesis using free_not_live [OF inv(2) b] by blast
  next
    case 2
    then show ?thesis using block2ppn_inj [of b c] free_pages_bound [OF inv(1) 2(1)] free_pages_bound [OF inv(2) b] by simp
  qed
qed

text \<open>An area in an empty range: \<open>vma_new_loop\<close> runs to its end.\<close>

lemma id_area_clear:
  fixes vpn pagen flags out st
  defines "vma \<equiv> \<lparr>v_vpn = vpn, v_pagen = pagen, v_flags = flags\<rparr>"
    and "st0 \<equiv> st\<lparr>vm_vpn := (vm_vpn st)(out := vpn), vm_pagen := (vm_pagen st)(out := pagen), vm_flags := (vm_flags st)(out := flags)\<rparr>"
  assumes inv: "pt_inv satp st" and node: "is_node_init (node_of out) (vm_nodes st)" and area: "id_area vma"
    and room: "card (area_tables (area_lo vma) (area_hi vma)) < card (free_pages (frames st))"
    and clear: "clear_range (pmem st) (root_of satp) (area_lo vma) (area_hi vma)"
  shows "\<exists>st'. raw_pt_vma_new satp vpn ppn pagen flags out st = Some (0, st') \<and> id_progress satp vma ppn st0 (unat (v_pagen vma)) st'"
proof -
  have inv0: "pt_inv satp st0" using inv by (simp add: pt_inv_def st0_def)
  have at: "vma_at st0 out = vma" by (simp add: vma_at_def st0_def vma_def)
  have room0: "card (area_tables (area_lo vma) (area_hi vma)) < card (free_pages (frames st0))" "buddy_inv (frames st0)"
    using room inv by (simp_all add: st0_def pt_inv_def)
  have clear0: "clear_range (pmem st0) (root_of satp) (area_lo vma) (area_hi vma)" using clear by (simp add: st0_def)
  obtain st' where st': "vma_new_loop satp out (v_vpn vma) ppn st0 = Some st'" "id_progress satp vma ppn st0 (unat (v_pagen vma)) st'"
    using id_loop [OF area room0 at id_progress_start [OF inv0 clear0]] by auto
  have "flags AND VMA_IDENTITY \<noteq> 0" using area by (simp add: id_area_def vma_def)
  then have "raw_pt_vma_new satp vpn ppn pagen flags out st = Some (0, st')"
    using st'(1) node by (simp add: raw_pt_vma_new_def st0_def vma_def)
  then show ?thesis using st'(2) by blast
qed

lemma id_area_new:
  fixes vpn pagen flags out st
  defines "vma \<equiv> \<lparr>v_vpn = vpn, v_pagen = pagen, v_flags = flags\<rparr>"
    and "st0 \<equiv> st\<lparr>vm_vpn := (vm_vpn st)(out := vpn), vm_pagen := (vm_pagen st)(out := pagen), vm_flags := (vm_flags st)(out := flags)\<rparr>"
  assumes inv: "pt_inv satp st" and node: "is_node_init (node_of out) (vm_nodes st)" and area: "id_area vma"
    and room: "card (area_tables (area_lo vma) (area_hi vma)) < card (free_pages (frames st))"
    and m: "id_mapped (pmem st) (root_of satp) as" "\<forall>(a, q) \<in> set as. areas_apart a vma"
  shows "\<exists>st'. raw_pt_vma_new satp vpn ppn pagen flags out st = Some (0, st') \<and> pt_inv satp st' \<and> pt_grows satp st0 st'
    \<and> id_mapped (pmem st') (root_of satp) ((vma, ppn) # as) \<and> free_pages (frames st') \<subseteq> free_pages (frames st)
    \<and> card (free_pages (frames st)) \<le> card (free_pages (frames st')) + card (area_tables (area_lo vma) (area_hi vma))"
proof -
  have inv0: "pt_inv satp st0" "buddy_inv (frames st0)" using inv by (simp_all add: pt_inv_def st0_def)
  have m0: "id_mapped (pmem st0) (root_of satp) as" using m(1) by (simp add: st0_def)
  have clear: "clear_range (pmem st) (root_of satp) (area_lo vma) (area_hi vma)"
    using m unfolding id_mapped_def areas_apart_def by blast
  obtain st' where st': "raw_pt_vma_new satp vpn ppn pagen flags out st = Some (0, st')" "id_progress satp vma ppn st0 (unat (v_pagen vma)) st'"
    using id_area_clear [OF inv node area [unfolded vma_def] room [unfolded vma_def] clear [unfolded vma_def], of ppn] unfolding vma_def st0_def by blast
  have p: "pt_inv satp st'" "pt_grows satp st0 st'" "only_tables satp (area_lo vma) (area_hi vma) st0 st'"
    using st'(2) unfolding id_progress_def by blast+
  have "finite (free_pages (frames st0))" "finite (free_pages (frames st'))"
    using free_pages_bound inv0(2) p(1) unfolding pt_inv_def by (meson finite_nat_set_iff_bounded)+
  from card_le_diff [OF this] have "card (free_pages (frames st)) \<le> card (free_pages (frames st')) + card (area_tables (area_lo vma) (area_hi vma))"
    using only_tables_card [OF p(3) inv0(2)] by (simp add: st0_def)
  moreover have "free_pages (frames st') \<subseteq> free_pages (frames st)" using grows_free [OF inv0(1) p] by (simp add: st0_def)
  ultimately show ?thesis using id_mapped_add [OF m0 st'(2) m(2)] st'(1) p(1,2) by blast
qed

section \<open>Translation\<close>

text \<open>The processor accepts a large page only if the physical page is aligned, too.\<close>

lemma id_translate:
  assumes inv: "pt_inv satp st" and m: "mapped_to (pmem st) (root_of satp) vma ppn (unat (v_pagen vma))" and area: "id_area vma"
    and ppn: "unat ppn + unat (v_pagen vma) \<le> 2 ^ 44" "unat ppn mod 512 ^ 3 = area_lo vma mod 512 ^ 3"
    and v: "area_lo vma \<le> pg v" "pg v < area_hi vma"
  shows "sv48_translate (pmem st) satp v = Some (ppn + of_nat (pg v - area_lo vma))"
proof -
  obtain d where d: "d < 4" "area_lo vma \<le> block_start (3 - d) (pg v)"
    "leaf_at (pmem st) (root_of satp) v d (new_pte (v_flags vma) (ppn + of_nat (block_start (3 - d) (pg v) - area_lo vma)))"
    using m v unfolding mapped_to_def by blast
  define l where "l = 3 - d"
  define S :: nat where "S = 512 ^ l"
  define s where "s = block_start l (pg v)"
  define q where "q = ppn + of_nat (s - area_lo vma)"
  have S: "S dvd 512 ^ 3" "S dvd 2 ^ 36" "S = 2 ^ (9 * l)"
    using le_imp_power_dvd [of l 3 "512::nat"] le_imp_power_dvd [of l 4 "512::nat"] by (simp_all add: S_def l_def power_mult)
  have l9: "9 * l \<le> 64" by (simp add: l_def)
  have s: "s \<le> pg v" "S dvd s" "pg v mod S = pg v - s" "area_lo vma \<le> s"
    using in_block [where l = l and n = "pg v"] d(2) by (simp_all add: s_def S_def l_def minus_div_mult_eq_mod [symmetric])
  have le: "s - area_lo vma < unat (v_pagen vma)" using s(1,4) v by linarith
  have uq: "unat q = unat ppn + (s - area_lo vma)"
    unfolding q_def using ppn(1) le by (subst unat_add_of_nat_64) simp_all
  have "unat ppn mod S = area_lo vma mod S"
    using arg_cong [OF ppn(2), of "\<lambda>x. x mod S"] by (simp only: mod_mod_cancel [OF S(1)])
  then have "(unat ppn + (s - area_lo vma)) mod S = (area_lo vma + (s - area_lo vma)) mod S"
    by (rule mod_add_cong) (rule refl)
  then have q0: "unat q mod S = 0" using s(2) by (simp only: uq le_add_diff_inverse [OF s(4)] dvd_imp_mod_0)
  have lt: "unat q < 2 ^ 44" using uq ppn(1) le by linarith
  have get: "pte_get_ppn (new_pte (v_flags vma) q) = q" using lt by (simp add: new_pte_fields u64_eq_iff unat_and_mask_64)
  have qm: "q AND mask (9 * l) = 0" using q0 unat_and_mask_64 [OF l9, of q] unfolding S(3) by (simp add: unat_eq_zero)
  have "q AND (v AND mask (9 * l)) = (q AND mask (9 * l)) AND v" by (simp add: ac_simps)
  then have "q OR (v AND mask (9 * l)) = q + (v AND mask (9 * l))" using qm by (simp add: disjunctive_add_eq_or)
  moreover have "unat (v AND mask (9 * l)) = pg v - s"
    using s(3) mod_mod_cancel [OF S(2), of "unat v"] by (simp only: unat_and_mask_64 [OF l9] flip: S(3))
  from arg_cong [OF this, of "of_nat :: nat \<Rightarrow> u64"] have "v AND mask (9 * l) = of_nat (pg v - s)" by simp
  ultimately have "q OR (v AND mask (9 * l)) = ppn + of_nat (pg v - area_lo vma)"
    using s(1,4) by (simp add: q_def add.assoc flip: of_nat_add)
  moreover have "hw_leaf d (new_pte (v_flags vma) q)" using area qm by (simp add: hw_leaf_def get bit_new_pte id_area_def l_def)
  ultimately show ?thesis
    using sv48_translate_leaf [of "pmem st" "frames st" satp v] inv d(3) get unfolding pt_inv_def
    by (metis l_def q_def s_def)
qed

end
