(* ===== verification/Boot_Map.thy ===== *)
theory Boot_Map
  imports Identity Kill_Props
begin

text \<open>
  The kernel's address space at boot (\<open>pt_init\<close>, \<open>pt_destroy_low_kvmas\<close>): the four identity areas are
  mapped at low and at high addresses, the list of areas moves to the high half, and the low areas
  are removed.
\<close>

unbundle bit_operations_syntax

section \<open>One area\<close>

text \<open>
  \<open>kspace as xs st\<close>: paging is off, the nodes of the kernel's list are \<open>xs\<close>, and the page tables map exactly
  the areas \<open>as\<close>.
\<close>

definition kspace :: "(vma \<times> u64) list \<Rightarrow> addr list \<Rightarrow> pt \<Rightarrow> bool" where
  "kspace as xs st \<longleftrightarrow> \<not> is_paging_enabled st \<and> salloc_inv st \<and> pt_inv (ksatp st) st
     \<and> id_mapped (pmem st) (root_of (ksatp st)) as \<and> area_list st (kvmas_head st) xs"

text \<open>\<open>inside F m st\<close>: the page tables and the free pages are pages of \<open>F\<close>, and memory is that of \<open>m\<close> everywhere else.\<close>

definition inside :: "u64 set \<Rightarrow> mem \<Rightarrow> pt \<Rightarrow> bool" where
  "inside F m st \<longleftrightarrow> owned (ksatp st) st \<subseteq> F \<and> (\<forall>a. drop_bit 12 a \<notin> F \<longrightarrow> pmem st a = m a)"

definition stays :: "pt \<Rightarrow> pt \<Rightarrow> bool" where
  "stays st st' \<longleftrightarrow> ksatp st' = ksatp st \<and> kvmas_head st' = kvmas_head st \<and> layout st' = layout st
     \<and> (\<forall>F m. inside F m st \<longrightarrow> inside F m st')"

lemma stays_trans: "stays st st' \<Longrightarrow> stays st' st'' \<Longrightarrow> stays st st''"
  by (simp add: stays_def)

lemma inside_step:
  assumes "inside F m st" "owned (ksatp st) st' \<subseteq> owned (ksatp st) st" "root_of (ksatp st') = root_of (ksatp st)"
    "\<And>a. drop_bit 12 a \<notin> owned (ksatp st) st \<Longrightarrow> pmem st' a = pmem st a"
  shows "inside F m st'"
proof -
  have "owned (ksatp st') st' = owned (ksatp st) st'" by (simp only: owned_def assms(3))
  moreover have "pmem st' a = m a" if "drop_bit 12 a \<notin> F" for a
  proof -
    have "drop_bit 12 a \<notin> owned (ksatp st) st" using that assms(1) unfolding inside_def by blast
    then show ?thesis using assms(1,4) that unfolding inside_def by simp
  qed
  ultimately show ?thesis using assms(1,2) unfolding inside_def by blast
qed

lemma quiet_inside:
  assumes "quiet st st'" "pt_inv (ksatp st) st" "inside F m st"
  shows "inside F m st'"
proof (rule inside_step [OF assms(3)])
  have "pt_pages (pmem st') (root_of (ksatp st)) = pt_pages (pmem st) (root_of (ksatp st))"
    using assms(1,2) by (intro pt_pages_cong) (simp add: quiet_def)
  then show "owned (ksatp st) st' \<subseteq> owned (ksatp st) st" using assms(1) unfolding owned_def quiet_def by blast
  show "root_of (ksatp st') = root_of (ksatp st)" using assms(1) by (simp add: quiet_def)
  show "pmem st' a = pmem st a" if "drop_bit 12 a \<notin> owned (ksatp st) st" for a
    using assms(1) that unfolding owned_def quiet_def by blast
qed

lemma id_mapped_set: "set as = set bs \<Longrightarrow> id_mapped m root as = id_mapped m root bs"
  by (simp add: id_mapped_def)

lemma id_mapped_cong:
  assumes "\<And>v d. d < 4 \<Longrightarrow> ent m' root v d = ent m root v d"
  shows "id_mapped m' root as = id_mapped m root as"
proof -
  have l: "leaf_at m' root v d x = leaf_at m root v d x" for v d x using assms by (auto simp: leaf_at_def)
  have "clear_range m' root lo hi = clear_range m root lo hi" for lo hi
    unfolding clear_range_def by (simp add: l assms cong: conj_cong imp_cong)
  moreover have "mapped_to m' root vma ppn i = mapped_to m root vma ppn i" for vma ppn i
    unfolding mapped_to_def by (simp add: l)
  ultimately show ?thesis by (simp add: id_mapped_def)
qed

lemma kspace_quiet:
  assumes "kspace as xs st" "areas_kept st st'" "salloc_inv st'" "area_list st' (kvmas_head st) ys"
  shows "kspace as ys st'" "stays st st'" "vma_at st' = vma_at st"
proof -
  have q: "quiet st st'" using assms(2) by (simp add: areas_kept_def)
  have k: "stays st st'" using assms(1,2) quiet_inside [OF q] by (simp add: areas_kept_def stays_def quiet_def kspace_def)
  have "pt_inv (ksatp st) st'" "id_mapped (pmem st') (root_of (ksatp st)) as"
    using q assms(1) id_mapped_cong [of "pmem st'" "root_of (ksatp st)" "pmem st" as] by (auto simp: quiet_def kspace_def)
  then show "kspace as ys st'" "stays st st'" "vma_at st' = vma_at st"
    using assms k by (auto simp: kspace_def stays_def is_paging_enabled_def areas_kept_def vma_at_def)
qed

lemma handed_grow:
  assumes "handed st p n" "free_pages (frames st') \<subseteq> free_pages (frames st)" "ksatp st' = ksatp st"
    "salloc_base st' = salloc_base st" "salloc_cursor st' = salloc_cursor st"
  shows "handed st' p n"
proof -
  obtain b off where b: "b < NBLOCKS" "b \<notin> free_pages (frames st)" "p = phys2kvirt st (ppn2phys (block2ppn b) + off)" "unat off + unat n \<le> 4096"
    "salloc_base st = ppn2phys (block2ppn b) \<longrightarrow> unat off + unat n \<le> unat (salloc_cursor st)"
    using assms(1) unfolding handed_def by blast
  have "p = phys2kvirt st' (ppn2phys (block2ppn b) + off)" using b(3) assms(3) by (simp add: phys2kvirt_def is_paging_enabled_def)
  then show ?thesis unfolding handed_def using b assms(2,4,5) by (intro exI [of _ b] exI [of _ off]) auto
qed

lemma map_area:
  fixes vpn pagen flags
  defines "vma \<equiv> \<lparr>v_vpn = vpn, v_pagen = pagen, v_flags = flags\<rparr>"
  assumes k: "kspace as xs st" and out: "node_of out \<in> set xs" and area: "id_area vma"
    and room: "card (area_tables (area_lo vma) (area_hi vma)) \<le> T" "T < card (free_pages (frames st))"
    and apart: "\<forall>(a, q) \<in> set as. areas_apart a vma"
  shows "\<exists>st'. raw_pt_vma_new (ksatp st) vpn ppn pagen flags out st = Some (0, st') \<and> kspace ((vma, ppn) # as) xs st'
    \<and> stays st st' \<and> vma_at st' = (vma_at st)(out := vma) \<and> took T st st'"
proof -
  let ?st = "st\<lparr>vm_vpn := (vm_vpn st)(out := vpn), vm_pagen := (vm_pagen st)(out := pagen), vm_flags := (vm_flags st)(out := flags)\<rparr>"
  have K: "pt_inv (ksatp st) st" "id_mapped (pmem st) (root_of (ksatp st)) as" "salloc_inv st" "\<not> is_paging_enabled st"
    "area_list st (kvmas_head st) xs" using k by (simp_all add: kspace_def)
  have "card (area_tables (area_lo vma) (area_hi vma)) < card (free_pages (frames st))" using room by simp
  from id_area_new [OF K(1) area_node_init [OF K(5) out] area [unfolded vma_def] this [unfolded vma_def] K(2) apart [unfolded vma_def],
    folded vma_def, of ppn]
  obtain st' where st': "raw_pt_vma_new (ksatp st) vpn ppn pagen flags out st = Some (0, st')" "pt_inv (ksatp st) st'"
    "pt_grows (ksatp st) ?st st'" "id_mapped (pmem st') (root_of (ksatp st)) ((vma, ppn) # as)"
    "free_pages (frames st') \<subseteq> free_pages (frames st)"
    "card (free_pages (frames st)) \<le> card (free_pages (frames st')) + card (area_tables (area_lo vma) (area_hi vma))"
    by blast
  obtain m fr where e: "st' = ?st\<lparr>pmem := m, frames := fr\<rparr>" using st'(3) unfolding pt_grows_def by blast
  have ow: "owned (ksatp st) ?st = owned (ksatp st) st" by (simp add: owned_def)
  have "inside F m0 st'" if "inside F m0 st" for F m0
  proof (rule inside_step [OF that])
    show "owned (ksatp st) st' \<subseteq> owned (ksatp st) st" using st'(3) unfolding pt_grows_def ow by blast
    show "root_of (ksatp st') = root_of (ksatp st)" by (simp add: e)
    have "\<forall>a. drop_bit 12 a \<notin> owned (ksatp st) st \<longrightarrow> pmem st' a = pmem ?st a" using st'(3) unfolding pt_grows_def ow by blast
    then show "\<And>a. drop_bit 12 a \<notin> owned (ksatp st) st \<Longrightarrow> pmem st' a = pmem st a" by simp
  qed
  then have s: "stays st st'" "vm_nodes st' = vm_nodes st" "salloc_base st' = salloc_base st" "salloc_cursor st' = salloc_cursor st"
    by (simp_all add: e stays_def)
  have al: "\<And>c x. allocated (frames st) c = Some x \<Longrightarrow> allocated (frames st') c = Some x"
  proof -
    have "\<forall>b x. allocated (frames ?st) b = Some x \<longrightarrow> allocated (frames st') b = Some x" using st'(3) unfolding pt_grows_def by blast
    then show "\<And>c x. allocated (frames st) c = Some x \<Longrightarrow> allocated (frames st') c = Some x" by (simp del: split_paired_All)
  qed
  have "salloc_inv st'" using st'(2) al s by (intro salloc_inv_grow [OF K(3)]) (auto simp: pt_inv_def)
  moreover have "area_list st' (kvmas_head st') xs"
    using K(5) s handed_grow [OF _ st'(5)] by (simp add: area_list_def stays_def)
  ultimately have "kspace ((vma, ppn) # as) xs st'"
    using s(1) st'(2,4) K(4) by (simp add: kspace_def stays_def is_paging_enabled_def)
  moreover have "vma_at st' = (vma_at st)(out := vma)" by (simp add: e vma_at_def vma_def fun_eq_iff)
  moreover have "took T st st'" using st'(6) room(1) by (simp add: took_def)
  ultimately show ?thesis using st'(1) s(1) by blast
qed

section \<open>A low and a high area\<close>

text \<open>The areas of the list are those of \<open>as\<close>, in order.\<close>

definition booting :: "(vma \<times> u64) list \<Rightarrow> pt \<Rightarrow> bool" where
  "booting as st \<longleftrightarrow> (\<exists>xs. kspace as xs st \<and> map (vma_at st \<circ> vma_of) xs = map fst as)"

lemma alloc_kvma:
  assumes k: "kspace as xs st" and room: "0 < card (free_pages (frames st))"
  shows "\<exists>v st'. pt_alloc_vma (kvmas_head st) st = Some (v, st') \<and> v \<noteq> NULL \<and> kspace as (xs @ [node_of v]) st' \<and> stays st st'
    \<and> vma_at st' = vma_at st \<and> v \<notin> vma_of ` set xs \<and> took 1 st st'"
proof -
  have K: "salloc_inv st" "area_list st (kvmas_head st) xs" using k by (simp_all add: kspace_def)
  from alloc_vma_spec [OF K] room obtain v st' where v: "pt_alloc_vma (kvmas_head st) st = Some (v, st')" "v \<noteq> NULL" "salloc_inv st'"
    "areas_kept st st'" "took 1 st st'" "area_list st' (kvmas_head st) (xs @ [node_of v])" "v \<notin> vma_of ` set xs" by force
  from kspace_quiet [OF k v(4,3,6)] v show ?thesis by blast
qed

lemma map_lowhigh:
  fixes vpn ppn pagen flags
  defines "lo \<equiv> \<lparr>v_vpn = ppn, v_pagen = pagen, v_flags = flags\<rparr>" and "hi \<equiv> \<lparr>v_vpn = vpn, v_pagen = pagen, v_flags = flags\<rparr>"
  assumes b: "booting as st" and areas: "id_area lo" "id_area hi"
    and apart: "areas_apart lo hi" "\<forall>(a, q) \<in> set as. areas_apart a lo" "\<forall>(a, q) \<in> set as. areas_apart a hi"
    and T: "card (area_tables (area_lo lo) (area_hi lo)) \<le> T" "card (area_tables (area_lo hi) (area_hi hi)) \<le> T"
    and room: "2 * T + 2 < card (free_pages (frames st))"
  shows "\<exists>st'. raw_map_lowhigh vpn ppn pagen flags st = Some (0, st') \<and> booting (as @ [(lo, ppn), (hi, ppn)]) st' \<and> stays st st'
    \<and> took (2 * T + 2) st st'"
proof -
  obtain xs where k: "kspace as xs st" and xs: "map (vma_at st \<circ> vma_of) xs = map fst as" using b by (auto simp: booting_def)
  obtain low st1 where s1: "pt_alloc_vma (kvmas_head st) st = Some (low, st1)" "low \<noteq> NULL" "kspace as (xs @ [node_of low]) st1"
    "stays st st1" "vma_at st1 = vma_at st" "low \<notin> vma_of ` set xs" "took 1 st st1"
    using alloc_kvma [OF k] room by auto
  obtain high st2 where s2: "pt_alloc_vma (kvmas_head st1) st1 = Some (high, st2)" "high \<noteq> NULL"
    "kspace as (xs @ [node_of low, node_of high]) st2" "stays st1 st2" "vma_at st2 = vma_at st1" "high \<notin> vma_of ` set (xs @ [node_of low])"
    "took 1 st1 st2"
    using alloc_kvma [OF s1(3)] room s1(7) by (auto simp: took_def)
  have r2: "T < card (free_pages (frames st2))" using room s1(7) s2(7) by (simp add: took_def)
  obtain st3 where s3: "raw_pt_vma_new (ksatp st2) ppn ppn pagen flags low st2 = Some (0, st3)"
    "kspace ((lo, ppn) # as) (xs @ [node_of low, node_of high]) st3" "stays st2 st3" "vma_at st3 = (vma_at st2)(low := lo)" "took T st2 st3"
    using map_area [OF s2(3) _ areas(1) [unfolded lo_def] T(1) [unfolded lo_def] r2 apart(2) [unfolded lo_def], of low ppn]
    unfolding lo_def by auto
  have r3: "T < card (free_pages (frames st3))" using room s1(7) s2(7) s3(5) by (simp add: took_def)
  have ap: "\<forall>(a, q) \<in> set ((lo, ppn) # as). areas_apart a hi" using apart by simp
  obtain st4 where s4: "raw_pt_vma_new (ksatp st3) vpn ppn pagen flags high st3 = Some (0, st4)"
    "kspace ((hi, ppn) # (lo, ppn) # as) (xs @ [node_of low, node_of high]) st4" "stays st3 st4" "vma_at st4 = (vma_at st3)(high := hi)"
    "took T st3 st4"
    using map_area [OF s3(2) _ areas(2) [unfolded hi_def] T(2) [unfolded hi_def] r3 ap [unfolded hi_def], of high ppn]
    unfolding hi_def by auto
  have same: "kvmas_head st1 = kvmas_head st" "ksatp st2 = ksatp st" "ksatp st3 = ksatp st"
    using s1(4) s2(4) s3(3) by (simp_all add: stays_def)
  have "raw_map_lowhigh vpn ppn pagen flags st = Some (0, st4)"
    using s1(1,2) s2(1,2) s3(1) s4(1) same by (simp add: raw_map_lowhigh_def)
  moreover have "kspace (as @ [(lo, ppn), (hi, ppn)]) (xs @ [node_of low, node_of high]) st4"
    using s4(2) id_mapped_set [of "(hi, ppn) # (lo, ppn) # as" "as @ [(lo, ppn), (hi, ppn)]"] by (auto simp: kspace_def)
  moreover have "map (vma_at st4 \<circ> vma_of) (xs @ [node_of low, node_of high]) = map fst (as @ [(lo, ppn), (hi, ppn)])"
  proof -
    have "vma_at st4 (vma_of n) = vma_at st (vma_of n)" if "n \<in> set xs" for n
      using that s1(5,6) s2(5,6) s3(4) s4(4) by auto
    then have "map (vma_at st4 \<circ> vma_of) xs = map fst as" using xs by (simp cong: map_cong)
    moreover have "low \<noteq> high" using s2(6) by auto
    ultimately show ?thesis using s3(4) s4(4) by simp
  qed
  moreover have "stays st st4" using s1(4) s2(4) s3(3) s4(3) by (blast intro: stays_trans)
  moreover have "took (2 * T + 2) st st4" using s1(7) s2(7) s3(5) s4(5) by (simp add: took_def)
  ultimately show ?thesis unfolding booting_def by blast
qed

section \<open>The regions of physical memory\<close>

text \<open>A region of \<open>n\<close> pages from page \<open>p\<close> on becomes two areas, at \<open>p\<close> and in the high half.\<close>

definition low_area :: "nat \<times> nat \<times> u64 \<Rightarrow> vma" where
  "low_area = (\<lambda>(p, n, f). \<lparr>v_vpn = of_nat p, v_pagen = of_nat n, v_flags = f\<rparr>)"

definition high_area :: "nat \<times> nat \<times> u64 \<Rightarrow> vma" where
  "high_area = (\<lambda>(p, n, f). \<lparr>v_vpn = of_nat (0xffff800000000 + p), v_pagen = of_nat n, v_flags = f\<rparr>)"

definition region :: "nat \<times> nat \<times> u64 \<Rightarrow> (vma \<times> u64) list" where
  "region r = [(low_area r, of_nat (fst r)), (high_area r, of_nat (fst r))]"

definition region_ok :: "nat \<times> nat \<times> u64 \<Rightarrow> bool" where
  "region_ok = (\<lambda>(p, n, f). p + n \<le> 2 ^ 32 \<and> f AND VMA_IDENTITY \<noteq> 0 \<and> f AND VMA_POPULATE = 0 \<and> bit f 0)"

lemma small_nat: "p + n \<le> 2 ^ 32 \<Longrightarrow> p \<le> 2 ^ 32 \<and> n \<le> (2 ^ 32 :: nat)"
  by linarith

lemma area_numbers:
  assumes "region_ok (p, n, f)"
  shows "unat (v_vpn (low_area (p, n, f))) = p" "unat (v_pagen (low_area (p, n, f))) = n"
    "unat (v_vpn (high_area (p, n, f))) = 0xffff800000000 + p" "unat (v_pagen (high_area (p, n, f))) = n"
    "area_lo (low_area (p, n, f)) = p" "area_lo (high_area (p, n, f)) = 2 ^ 35 + p"
proof -
  have b: "p \<le> 2 ^ 32" "n \<le> 2 ^ 32" using assms small_nat [of p n] by (simp_all add: region_ok_def)
  show u: "unat (v_vpn (low_area (p, n, f))) = p" "unat (v_pagen (low_area (p, n, f))) = n"
    "unat (v_vpn (high_area (p, n, f))) = 0xffff800000000 + p" "unat (v_pagen (high_area (p, n, f))) = n"
    using b by (simp_all add: low_area_def high_area_def unat_of_nat_64 del: of_nat_add)
  have "(0xffff800000000 + p) mod 2 ^ 36 = (2 ^ 35 + p + 65535 * 2 ^ 36) mod 2 ^ 36" by simp
  also have "\<dots> = 2 ^ 35 + p" using b(1) unfolding mod_mult_self1 by simp
  finally show "area_lo (high_area (p, n, f)) = 2 ^ 35 + p" unfolding u .
  show "area_lo (low_area (p, n, f)) = p" using b unfolding u by simp
qed

lemma region_areas:
  assumes "region_ok r"
  shows "id_area (low_area r)" "id_area (high_area r)" "areas_apart (low_area r) (high_area r)"
proof -
  obtain p n f where r: "r = (p, n, f)" by (cases r)
  note u = area_numbers [OF assms [unfolded r]]
  have f: "v_flags (low_area r) = f" "v_flags (high_area r) = f" by (simp_all add: r low_area_def high_area_def)
  have b: "p \<le> 2 ^ 32" "n \<le> 2 ^ 32" "p + n \<le> 2 ^ 32" using assms small_nat [of p n] by (simp_all add: region_ok_def r)
  show "id_area (low_area r)" "id_area (high_area r)"
    using assms b u f by (simp_all add: id_area_def r region_ok_def)
  show "areas_apart (low_area r) (high_area r)" using b u by (simp add: areas_apart_def r)
qed

definition regions_apart :: "nat \<times> nat \<times> u64 \<Rightarrow> nat \<times> nat \<times> u64 \<Rightarrow> bool" where
  "regions_apart = (\<lambda>(p, n, f) (q, m, g). p + n \<le> q \<or> q + m \<le> p)"

lemma region_apart_areas:
  assumes "region_ok r" "region_ok s" "regions_apart r s" "a \<in> fst ` set (region r)" "b \<in> fst ` set (region s)"
  shows "areas_apart a b"
proof -
  obtain p n f q m g where rs: "r = (p, n, f)" "s = (q, m, g)" by (cases r, cases s)
  note u = area_numbers [OF assms(1) [unfolded rs]] area_numbers [OF assms(2) [unfolded rs]]
  have b: "p + n \<le> 2 ^ 32" "q + m \<le> 2 ^ 32" using assms(1,2) by (simp_all add: region_ok_def rs)
  show ?thesis
    using assms(3-5) b u by (auto simp: rs region_def areas_apart_def regions_apart_def)
qed

lemma map_region:
  assumes b: "booting (concat (map region rs)) st" and r: "region_ok (p, n, f)" "\<forall>s \<in> set rs. region_ok s \<and> regions_apart s (p, n, f)"
    and vpn: "vpn = of_nat (0xffff800000000 + p)"
    and T: "n div 512 + n div 512 ^ 2 + n div 512 ^ 3 + 6 \<le> T" and room: "2 * T + 2 < card (free_pages (frames st))"
  shows "\<exists>st'. raw_map_lowhigh vpn (of_nat p) (of_nat n) f st = Some (0, st') \<and> booting (concat (map region (rs @ [(p, n, f)]))) st'
    \<and> stays st st' \<and> took (2 * T + 2) st st'"
proof -
  let ?r = "(p, n, f)"
  note u = area_numbers [OF r(1)] and a = region_areas [OF r(1)]
  have ap: "\<forall>(a, q) \<in> set (concat (map region rs)). areas_apart a x" if "x \<in> fst ` set (region ?r)" for x
    using region_apart_areas [OF _ r(1) _ _ that] r(2) by (fastforce simp: image_iff)
  have mem: "low_area ?r \<in> fst ` set (region ?r)" "high_area ?r \<in> fst ` set (region ?r)" by (simp_all add: region_def)
  have t: "card (area_tables (area_lo (low_area ?r)) (area_hi (low_area ?r))) \<le> T"
    "card (area_tables (area_lo (high_area ?r)) (area_hi (high_area ?r))) \<le> T"
    using card_area_tables [where n = n] T unfolding u by (meson order_trans)+
  have e: "low_area ?r = \<lparr>v_vpn = of_nat p, v_pagen = of_nat n, v_flags = f\<rparr>"
    "high_area ?r = \<lparr>v_vpn = vpn, v_pagen = of_nat n, v_flags = f\<rparr>" by (simp_all add: low_area_def high_area_def vpn)
  have "concat (map region (rs @ [?r])) = concat (map region rs) @ [(low_area ?r, of_nat p), (high_area ?r, of_nat p)]"
    by (simp add: region_def)
  then show ?thesis
    using map_lowhigh [OF b a [unfolded e] ap [OF mem(1), unfolded e] ap [OF mem(2), unfolded e] t [unfolded e] room] e by simp
qed

end
