(* ===== verification/Boot_Init.thy ===== *)
theory Boot_Init
  imports Boot_Map
begin

text \<open>\<open>pt_init\<close> step by step: the root table, the head of the list, the four regions and the switch to high addresses.\<close>

unbundle bit_operations_syntax

section \<open>The root table and the head of the list\<close>

lemma zero_root:
  assumes "\<And>i. unat i < 512 \<Longrightarrow> entry m root i = 0"
  shows "tab m root v d = Some p \<longleftrightarrow> d = 0 \<and> p = root" "ent m root v d = (if d = 0 then Some 0 else None)"
proof -
  have e: "entry m root (idx v k) = 0" for k by (rule assms) (rule unat_idx)
  have n: "tab m root v (Suc k) = None" for k
    by (induction k) (use e [of 0] in \<open>simp_all add: is_table_def pte_is_valid_bit Let_def\<close>)
  show "tab m root v d = Some p \<longleftrightarrow> d = 0 \<and> p = root" by (cases d) (auto simp: n simp del: tab.simps(2))
  show "ent m root v d = (if d = 0 then Some 0 else None)" using e [of 0] by (cases d) (simp_all add: ent_def n del: tab.simps(2))
qed

lemma ksatp_init_spec:
  assumes binv: "buddy_inv (frames st)" and free: "free_pages (frames st) \<noteq> {}" and z: "salloc_base st = 0" "salloc_cursor st = 0"
  shows "\<exists>st'. ksatp_init st = Some (0, st') \<and> \<not> is_paging_enabled st' \<and> salloc_inv st' \<and> pt_inv (ksatp st') st'
    \<and> id_mapped (pmem st') (root_of (ksatp st')) [] \<and> layout st' = layout st \<and> took 1 st st'
    \<and> inside (block2ppn ` free_pages (frames st)) (pmem st) st'"
proof -
  from pt_alloc_pt_spec [OF binv] free obtain b fr v where b: "b \<in> free_pages (frames st)" "buddy_inv fr"
      "free_pages fr = free_pages (frames st) - {b}" "v \<noteq> 0" "pte_get_ppn v = block2ppn b"
    and run: "pt_alloc_pt st = Some (v, st\<lparr>frames := fr, pmem := memset (pmem st) (ppn2phys (block2ppn b)) 0 0x1000\<rparr>)"
    by blast
  define m where "m = memset (pmem st) (ppn2phys (block2ppn b)) 0 0x1000"
  define satp where "satp = satp_set (satp_set (ksatp st) 0 (mask 4) 60) (block2ppn b) (mask 44) 0"
  define st' where "st' = st\<lparr>frames := fr, pmem := m, ksatp := satp\<rparr>"
  have bN: "b < NBLOCKS" by (rule free_pages_bound [OF binv b(1)])
  have bb: "unat (block2ppn b) < 2 ^ 44" using block2ppn_unat [OF bN] bN by simp
  have "root_of satp = block2ppn b AND mask 44" unfolding satp_def by (rule bit_word_eqI) (auto simp: satp_set_bit bit_simps)
  then have root: "root_of satp = block2ppn b" using bb by (simp add: u64_eq_iff unat_and_mask_64)
  have "ksatp_init st = Some (0, st')"
    using run b(4) by (simp add: ksatp_init_def b(5) st'_def satp_def m_def mask_4 mask_44 Let_def)
  moreover have "\<not> is_paging_enabled st'"
  proof -
    have "\<not> bit (drop_bit 60 satp) 0" by (simp add: satp_def bit_simps satp_set_bit)
    then have "bit (drop_bit 60 satp XOR 9) 0" by (simp add: bit_simps)
    then show ?thesis unfolding is_paging_enabled_def st'_def by auto
  qed
  moreover have e: "entry m (block2ppn b) i = 0" if "unat i < 512" for i unfolding m_def using entry_memset_page [OF bb bb that] by simp
  have "live_page fr (block2ppn b)" using bN b(3) by (auto simp: live_page_def)
  then have "pt_wf m fr (block2ppn b)" by (intro pt_wfI) (auto simp: zero_root [OF e] pte_ok_def split: if_splits)
  then have "pt_inv (ksatp st') st'" using b(2) by (simp add: pt_inv_def st'_def root)
  moreover have "\<not> leaf_at m (block2ppn b) w d x" for w d x
    by (auto simp: leaf_at_def zero_root [OF e] pte_is_leaf_bit split: if_splits)
  then have "id_mapped (pmem st') (root_of (ksatp st')) []"
    by (simp add: id_mapped_def clear_range_def st'_def root zero_root [OF e])
  moreover have "salloc_inv st'" using b(2) z by (simp add: salloc_inv_def st'_def)
  moreover have "took 1 st st'" using card_minus_one b(3) by (simp add: took_def st'_def)
  moreover have "inside (block2ppn ` free_pages (frames st)) (pmem st) st'"
  proof -
    have "pt_pages m (block2ppn b) \<subseteq> {block2ppn b}" using zero_root(1) [OF e] by (auto simp: pt_pages_def)
    then have "owned satp st' \<subseteq> block2ppn ` free_pages (frames st)" using b(1,3) by (auto simp: owned_def st'_def root)
    moreover have "m a = pmem st a" if "drop_bit 12 a \<notin> block2ppn ` free_pages (frames st)" for a
      unfolding m_def using memset_outside [OF bb] that b(1) by auto
    ultimately show ?thesis by (simp add: inside_def st'_def)
  qed
  ultimately show ?thesis by (intro exI [of _ st']) (simp add: st'_def)
qed

lemma init_kvmas_spec:
  assumes "\<not> is_paging_enabled st" "salloc_inv st" "pt_inv (ksatp st) st" "id_mapped (pmem st) (root_of (ksatp st)) []"
    and "free_pages (frames st) \<noteq> {}"
  shows "\<exists>p st'. pt_init_vmas_head st = Some (0, p, st') \<and> booting [] (st'\<lparr>kvmas_head := p\<rparr>) \<and> layout st' = layout st \<and> took 1 st st'
    \<and> (\<forall>F m. inside F m st \<longrightarrow> inside F m (st'\<lparr>kvmas_head := p\<rparr>))"
proof -
  from init_head_spec [OF assms(2)] assms(5) obtain p st' where p: "pt_init_vmas_head st = Some (0, p, st')" "salloc_inv st'"
    "areas_kept st st'" "took 1 st st'" "area_list st' p []" by blast
  have q: "quiet st st'" "layout st' = layout st" using p(3) by (simp_all add: areas_kept_def)
  then have "pt_inv (ksatp st) st'" "id_mapped (pmem st') (root_of (ksatp st)) []" "ksatp st' = ksatp st"
    using assms(3,4) id_mapped_cong [of "pmem st'" "root_of (ksatp st)" "pmem st" "[]"] by (auto simp: quiet_def)
  moreover have "area_list (st'\<lparr>kvmas_head := p\<rparr>) p []"
    using p(5) handed_same [of "st'\<lparr>kvmas_head := p\<rparr>" st' p 16] by (simp add: area_list_def)
  ultimately have "kspace [] [] (st'\<lparr>kvmas_head := p\<rparr>)"
    using assms(1) p(2) by (simp add: kspace_def is_paging_enabled_def pt_inv_def salloc_inv_def cong: if_cong)
  moreover have "inside F m (st'\<lparr>kvmas_head := p\<rparr>)" if "inside F m st" for F m
    using quiet_inside [OF q(1) assms(3) that] by (simp add: inside_def owned_def)
  ultimately show ?thesis using p(1,4) q(2) by (auto simp: booting_def)
qed

section \<open>The four regions\<close>

text \<open>The allocator's memory, the stack, the image of the kernel and the devices; \<open>k\<close> is the number of pages of the image.\<close>

definition regions :: "nat \<Rightarrow> (nat \<times> nat \<times> u64) list" where
  "regions k = [(0x80000 + k, 8191 - k, 0x25), (0x81fff, 1, 0x25), (0x80000, k, 0x2d), (0, 0x80000, 0x25)]"

lemma high_vpn:
  assumes "p \<le> 2 ^ 32"
  shows "phys2ppn_pt (VIRT_MEM_KERNEL_BASE + ppn2phys (of_nat p)) = of_nat (0xffff800000000 + p)"
proof -
  have "unat (ppn2phys (of_nat p)) = 4096 * p" using assms by (simp add: ppn2phys_def unat_push_bit_64 unat_of_nat_64)
  moreover have "unat VIRT_MEM_KERNEL_BASE = 0xffff800000000000" by (simp add: VIRT_MEM_KERNEL_BASE_def)
  ultimately have "unat (VIRT_MEM_KERNEL_BASE + ppn2phys (of_nat p)) = 0xffff800000000000 + 4096 * p"
    using assms by (subst unat_add_64) simp_all
  then show ?thesis using assms
    by (simp add: u64_eq_iff phys2ppn_pt_def unat_drop_bit_64 unat_of_nat_64 del: of_nat_add)
qed

lemma page_number:
  fixes x :: u64
  assumes "unat x = 4096 * p"
  shows "phys2ppn_pt x = of_nat p"
proof -
  have "4096 * p < 2 ^ 64" using unsigned_less [of x, where 'a = nat] unfolding assms by simp
  then have "p < 2 ^ 64" by simp
  then show ?thesis using assms by (simp add: u64_eq_iff phys2ppn_pt_def unat_drop_bit_64 unat_of_nat_64)
qed

lemma region_calls:
  assumes l: "layout st = buddy_layout_init base" and base: "unat base = 0x80000000 + 4096 * k" and k: "k \<le> 8191"
  shows "map_phys_mem_lowhigh st = raw_map_lowhigh (of_nat (0xffff800000000 + (0x80000 + k))) (of_nat (0x80000 + k)) (of_nat (8191 - k)) 0x25 st"
    "map_kstack_lowhigh st = raw_map_lowhigh (of_nat (0xffff800000000 + 0x81fff)) (of_nat 0x81fff) (of_nat 1) 0x25 st"
    "map_kelf_lowhigh st = raw_map_lowhigh (of_nat (0xffff800000000 + 0x80000)) (of_nat 0x80000) (of_nat k) 0x2d st"
    "map_io_lowhigh st = raw_map_lowhigh (of_nat (0xffff800000000 + 0)) (of_nat 0) (of_nat 0x80000) 0x25 st"
proof -
  have "unat (PHYS_MEM_END - PHYS_MEM_KERNEL_STACK_SIZE - base) = 4096 * (8191 - k)" "unat (base - PHYS_MEM_START) = 4096 * k"
    using base k by (simp_all add: unat_sub_64 word_le_nat_alt diff_mult_distrib2)
  note n = this [THEN page_number]
  have p: "phys2ppn_pt base = of_nat (0x80000 + k)" using base by (intro page_number) simp
  have c: "phys2ppn_pt (PHYS_MEM_END - PHYS_MEM_KERNEL_STACK_SIZE) = of_nat 0x81fff" "phys2ppn_pt PHYS_MEM_START = of_nat 0x80000"
    "phys2ppn_pt PHYS_MEM_KERNEL_STACK_SIZE = of_nat 1" "phys2ppn_pt 0 = of_nat 0" by (rule page_number, simp)+
  have kb: "phys2ppn_pt VIRT_MEM_KERNEL_BASE = of_nat (0xffff800000000 + 0)" using high_vpn [of 0] by (simp add: ppn2phys_def)
  show "map_phys_mem_lowhigh st = raw_map_lowhigh (of_nat (0xffff800000000 + (0x80000 + k))) (of_nat (0x80000 + k)) (of_nat (8191 - k)) 0x25 st"
    unfolding map_phys_mem_lowhigh_def l buddy_layout_init_def buddy_layout.simps Let_def n p
    by (subst high_vpn) (use k in simp_all)
  show "map_kstack_lowhigh st = raw_map_lowhigh (of_nat (0xffff800000000 + 0x81fff)) (of_nat 0x81fff) (of_nat 1) 0x25 st"
    unfolding map_kstack_lowhigh_def l buddy_layout_init_def buddy_layout.simps Let_def c by (subst high_vpn) simp_all
  show "map_kelf_lowhigh st = raw_map_lowhigh (of_nat (0xffff800000000 + 0x80000)) (of_nat 0x80000) (of_nat k) 0x2d st"
    unfolding map_kelf_lowhigh_def l buddy_layout_init_def buddy_layout.simps Let_def c n by (subst high_vpn) simp_all
  show "map_io_lowhigh st = raw_map_lowhigh (of_nat (0xffff800000000 + 0)) (of_nat 0) (of_nat 0x80000) 0x25 st"
    unfolding map_io_lowhigh_def l buddy_layout_init_def buddy_layout.simps Let_def c kb by simp
qed

lemma regions_ok:
  assumes "k \<le> 8191"
  shows "\<forall>r \<in> set (regions k). region_ok r" "sorted_wrt regions_apart (regions k)"
proof -
  have f: "(0x25 :: u64) AND VMA_IDENTITY \<noteq> 0" "(0x2d :: u64) AND VMA_IDENTITY \<noteq> 0" "(0x25 :: u64) AND VMA_POPULATE = 0"
    "(0x2d :: u64) AND VMA_POPULATE = 0" "bit (0x25 :: u64) 0" "bit (0x2d :: u64) 0" by simp_all
  show "\<forall>r \<in> set (regions k). region_ok r" using assms f by (auto simp: regions_def region_ok_def)
  show "sorted_wrt regions_apart (regions k)" using assms by (simp add: regions_def regions_apart_def)
qed

lemma and_then_ok: "f st = Some (0, st') \<Longrightarrow> and_then f g st = g st'"
  by (simp add: and_then_def)

lemma map_next:
  assumes "booting (concat (map region rs)) st" "layout st = l" "k \<le> 8191" "regions k = rs @ (p, n, f) # qs"
    and "n div 512 + n div 512 ^ 2 + n div 512 ^ 3 + 6 \<le> T" "N + (2 * T + 2) < card (free_pages (frames st))"
  shows "\<exists>st'. raw_map_lowhigh (of_nat (0xffff800000000 + p)) (of_nat p) (of_nat n) f st = Some (0, st') \<and> booting (concat (map region (rs @ [(p, n, f)]))) st' \<and> layout st' = l
    \<and> N < card (free_pages (frames st')) \<and> (\<forall>F m. inside F m st \<longrightarrow> inside F m st')"
proof -
  have r: "region_ok (p, n, f)" "\<forall>s \<in> set rs. region_ok s \<and> regions_apart s (p, n, f)"
    using regions_ok [OF assms(3)] unfolding assms(4) by (auto simp: sorted_wrt_append)
  have room: "2 * T + 2 < card (free_pages (frames st))" using assms(6) by simp
  obtain st' where st': "raw_map_lowhigh (of_nat (0xffff800000000 + p)) (of_nat p) (of_nat n) f st = Some (0, st')"
    "booting (concat (map region (rs @ [(p, n, f)]))) st'" "stays st st'" "took (2 * T + 2) st st'"
    using map_region [OF assms(1) r refl assms(5) room] by blast
  have "N < card (free_pages (frames st'))" using st'(4) assms(6) by (simp add: took_def)
  then show ?thesis using st' assms(2) by (auto simp: stays_def)
qed

lemma map_regions:
  assumes b: "booting [] st" and l: "layout st = buddy_layout_init base" "unat base = 0x80000000 + 4096 * k" "k \<le> 8191"
    and room: "2300 < card (free_pages (frames st))"
  shows "\<exists>st'. (\<forall>g. and_then map_phys_mem_lowhigh (and_then map_kstack_lowhigh (and_then map_kelf_lowhigh (and_then map_io_lowhigh g))) st = g st')
    \<and> booting (concat (map region (regions k))) st' \<and> layout st' = buddy_layout_init base \<and> (\<forall>F m. inside F m st \<longrightarrow> inside F m st')
    \<and> 60 < card (free_pages (frames st'))"
proof -
  note R = region_calls [OF _ l(2,3)]
  have div: "8191 - k \<le> 8191" "k div 512 \<le> 15" "(8191 - k) div 512 \<le> 15" "k div 512 ^ 2 = 0" "(8191 - k) div 512 ^ 2 = 0"
    "k div 512 ^ 3 = 0" "(8191 - k) div 512 ^ 3 = 0"
    using l(3) div_le_mono [OF l(3), of 512] div_le_mono [of "8191 - k" 8191 512] by (simp_all add: div_less)
  obtain st1 where s1: "raw_map_lowhigh (of_nat (0xffff800000000 + (0x80000 + k))) (of_nat (0x80000 + k)) (of_nat (8191 - k)) 0x25 st = Some (0, st1)"
    "booting (concat (map region [(0x80000 + k, 8191 - k, 0x25)])) st1" "layout st1 = buddy_layout_init base" "2240 < card (free_pages (frames st1))" "\<forall>F m. inside F m st \<longrightarrow> inside F m st1"
    using map_next [where rs = "[]" and p = "0x80000 + k" and n = "8191 - k" and f = "0x25" and T = 21 and N = 2240, OF _ l(1,3)] b room div by (auto simp: regions_def)
  obtain st2 where s2: "raw_map_lowhigh (of_nat (0xffff800000000 + 0x81fff)) (of_nat 0x81fff) (of_nat 1) 0x25 st1 = Some (0, st2)"
    "booting (concat (map region [(0x80000 + k, 8191 - k, 0x25), (0x81fff, 1, 0x25)])) st2" "layout st2 = buddy_layout_init base"
    "2190 < card (free_pages (frames st2))" "\<forall>F m. inside F m st1 \<longrightarrow> inside F m st2"
    using map_next [where p = "0x81fff" and n = 1 and f = "0x25" and T = 21 and N = 2190, OF s1(2,3) l(3)] s1(4) by (auto simp: regions_def)
  obtain st3 where s3: "raw_map_lowhigh (of_nat (0xffff800000000 + 0x80000)) (of_nat 0x80000) (of_nat k) 0x2d st2 = Some (0, st3)"
    "booting (concat (map region [(0x80000 + k, 8191 - k, 0x25), (0x81fff, 1, 0x25), (0x80000, k, 0x2d)])) st3"
    "layout st3 = buddy_layout_init base" "2140 < card (free_pages (frames st3))" "\<forall>F m. inside F m st2 \<longrightarrow> inside F m st3"
    using map_next [where p = "0x80000" and n = k and f = "0x2d" and T = 21 and N = 2140, OF s2(2,3) l(3)] s2(4) div by (auto simp: regions_def)
  obtain st4 where s4: "raw_map_lowhigh (of_nat (0xffff800000000 + 0)) (of_nat 0) (of_nat 0x80000) 0x25 st3 = Some (0, st4)"
    "booting (concat (map region (regions k))) st4" "layout st4 = buddy_layout_init base" "60 < card (free_pages (frames st4))"
    "\<forall>F m. inside F m st3 \<longrightarrow> inside F m st4"
    using map_next [where p = 0 and n = "0x80000" and f = "0x25" and T = 1032 and N = 60, OF s3(2,3) l(3)] s3(4) by (auto simp: regions_def)
  have "and_then map_phys_mem_lowhigh (and_then map_kstack_lowhigh (and_then map_kelf_lowhigh (and_then map_io_lowhigh g))) st = g st4" for g
    unfolding and_then_def R(1) [OF l(1)] s1(1) R(2) [OF s1(3)] s2(1) R(3) [OF s2(3)] s3(1) R(4) [OF s3(3)] s4(1)
    by (simp add: R(2) [OF s1(3), unfolded s2(1)] R(3) [OF s2(3), unfolded s3(1)] R(4) [OF s3(3), unfolded s4(1)] del: of_nat_add)
  then show ?thesis using s4 s1(5) s2(5) s3(5) by blast
qed

section \<open>Moving the list\<close>

text \<open>\<open>shifted D off h\<close>: the pointers in the nodes of \<open>D\<close> have been moved by \<open>off\<close>.\<close>

definition shifted :: "addr set \<Rightarrow> u64 \<Rightarrow> nodes \<Rightarrow> nodes" where
  "shifted D off h = \<lparr>nnext = (\<lambda>a. if a \<in> D then nnext h a + off else nnext h a),
     nprev = (\<lambda>a. if a \<in> D then nprev h a + off else nprev h a)\<rparr>"

lemma node_migrate_shifted: "n \<notin> D \<Longrightarrow> node_migrate n off (shifted D off h) = shifted (insert n D) off h"
  by (auto simp: node_migrate_def shifted_def Let_def set_next_def set_prev_def fun_eq_iff)

lemma migrate_loop_spec:
  assumes "distinct ys" "head \<notin> set ys" "D \<inter> set ys = {}" "set ys \<subseteq> S" "links (shifted S off h) (ys @ [head])"
  shows "migrate_kvmas_loop head off (hd (ys @ [head])) (shifted D off h) = Some (shifted (D \<union> set ys) off h)"
  using assms
proof (induction ys arbitrary: D)
  case Nil
  then show ?case by (subst migrate_kvmas_loop.simps) simp
next
  case (Cons y ys)
  have n: "nnext (shifted S off h) y = hd (ys @ [head])" "links (shifted S off h) (ys @ [head])"
    using Cons.prems(5) by (cases ys; simp)+
  have y: "y \<noteq> head" "y \<notin> D" "y \<in> S" using Cons.prems by auto
  have "nnext (shifted (insert y D) off h) y = hd (ys @ [head])" using n(1) y(3) by (simp add: shifted_def)
  moreover have "migrate_kvmas_loop head off (hd (ys @ [head])) (shifted (insert y D) off h) = Some (shifted (insert y D \<union> set ys) off h)"
    using Cons.prems n(2) by (intro Cons.IH) auto
  ultimately show ?case using y by (subst migrate_kvmas_loop.simps) (simp add: node_migrate_shifted Let_def)
qed

text \<open>Low addresses are below the kernel's half; the high view of one is at its image.\<close>

definition low_addr :: "addr \<Rightarrow> bool" where
  "low_addr p \<longleftrightarrow> p + VIRT_MEM_KERNEL_BASE \<ge> VIRT_MEM_KERNEL_BASE"

lemma high_view_low: "low_addr p \<Longrightarrow> high_view f (p + VIRT_MEM_KERNEL_BASE) = f p"
  by (simp add: high_view_def low_addr_def)

lemma links_shifted:
  assumes "links h xs" "\<forall>x \<in> set xs. low_addr x" "(\<lambda>x. x + VIRT_MEM_KERNEL_BASE) ` set xs \<subseteq> S"
  shows "links (shifted S VIRT_MEM_KERNEL_BASE \<lparr>nnext = high_view (nnext h), nprev = high_view (nprev h)\<rparr>)
    (map (\<lambda>x. x + VIRT_MEM_KERNEL_BASE) xs)"
  using assms
proof (induction h xs rule: links.induct)
  case (1 h a b ys)
  then show ?case by (auto simp: shifted_def high_view_low)
qed auto

lemma migrate_spec:
  fixes st
  defines "off \<equiv> VIRT_MEM_KERNEL_BASE" and "st1 \<equiv> ksatp_enable_paging st"
  assumes d: "dlist (vm_nodes st) (kvmas_head st) xs" and low: "\<forall>x \<in> set (kvmas_head st # xs). low_addr x"
  shows "\<exists>h. pt_migrate_kvmas off st1 = Some (st1\<lparr>kvmas_head := kvmas_head st + off, vm_nodes := h\<rparr>)
    \<and> dlist h (kvmas_head st + off) (map (\<lambda>x. x + off) xs)"
proof -
  let ?h = "vm_nodes st1" and ?head = "kvmas_head st + off" and ?ys = "map (\<lambda>x. x + off) xs"
  define S where "S = set (?head # ?ys)"
  have h: "?h = \<lparr>nnext = high_view (nnext (vm_nodes st)), nprev = high_view (nprev (vm_nodes st))\<rparr>" "kvmas_head st1 = kvmas_head st"
    by (simp_all add: st1_def ksatp_enable_paging_def Let_def)
  have dd: "distinct (kvmas_head st # xs)" "links (vm_nodes st) (kvmas_head st # xs @ [kvmas_head st])" using d by (simp_all add: dlist_def)
  have "inj_on (\<lambda>x. x + off) A" for A by (simp add: inj_on_def)
  then have dist: "distinct (map (\<lambda>x. x + off) (kvmas_head st # xs))" using dd(1) unfolding distinct_map by blast
  have L: "links (shifted S off ?h) (?head # ?ys @ [?head])"
    using links_shifted [OF dd(2), of S] low unfolding h off_def S_def by auto
  then have nx: "nnext (shifted S off ?h) ?head = hd (?ys @ [?head])" "links (shifted S off ?h) (?ys @ [?head])" by (cases xs; simp)+
  have e: "shifted {} off ?h = ?h" by (simp add: shifted_def)
  have m: "node_migrate ?head off ?h = shifted {?head} off ?h" using node_migrate_shifted [of ?head "{}" off ?h] e by simp
  have hd: "nnext (shifted {?head} off ?h) ?head = hd (?ys @ [?head])" using nx(1) by (simp add: shifted_def S_def)
  have "migrate_kvmas_loop ?head off (hd (?ys @ [?head])) (shifted {?head} off ?h) = Some (shifted ({?head} \<union> set ?ys) off ?h)"
    using dist nx(2) by (intro migrate_loop_spec) (auto simp: S_def)
  moreover have "{?head} \<union> set ?ys = S" by (simp add: S_def)
  ultimately have "pt_migrate_kvmas off st1 = Some (st1\<lparr>kvmas_head := ?head, vm_nodes := shifted S off ?h\<rparr>)"
    using hd by (simp add: pt_migrate_kvmas_def h(2) m Let_def)
  moreover have "dlist (shifted S off ?h) ?head ?ys" using dist L by (simp add: dlist_def)
  ultimately show ?thesis by blast
qed

section \<open>The whole\<close>

lemma handed_low:
  assumes "handed st p sz" "\<not> is_paging_enabled st" "i < sz"
  shows "low_addr (p + i)"
proof -
  obtain b off where b: "b < NBLOCKS" "p = ppn2phys (block2ppn b) + off" "unat off + unat sz \<le> 4096"
    using assms(1,2) by (auto simp: handed_def phys2kvirt_def)
  have i: "unat off + unat i < 4096" using assms(3) b(3) by (simp add: word_less_nat_alt)
  have "p + i = ppn2phys (block2ppn b) + of_nat (unat off + unat i)" by (simp add: b(2) add.assoc)
  then have "unat (p + i) = 4096 * (0x80000 + b) + (unat off + unat i)"
    using unat_page_offset [of "block2ppn b" "unat off + unat i"] i b(1) by (simp only: block2ppn_unat) simp
  then have u: "unat (p + i) < 2 ^ 47" using i b(1) by simp
  have "unat VIRT_MEM_KERNEL_BASE = 0xffff800000000000" by (simp add: VIRT_MEM_KERNEL_BASE_def)
  then have "unat (p + i + VIRT_MEM_KERNEL_BASE) = unat (p + i) + unat VIRT_MEM_KERNEL_BASE" using u by (subst unat_add_64) simp_all
  then show ?thesis by (simp add: low_addr_def word_le_nat_alt)
qed

lemma handed_high:
  assumes "handed st p sz" "\<not> is_paging_enabled st" "is_paging_enabled st'" "frames st' = frames st"
    "salloc_base st' = salloc_base st" "salloc_cursor st' = salloc_cursor st"
  shows "handed st' (p + VIRT_MEM_KERNEL_BASE) sz"
proof -
  obtain b off where b: "b < NBLOCKS" "b \<notin> free_pages (frames st)" "p = ppn2phys (block2ppn b) + off" "unat off + unat sz \<le> 4096"
    "salloc_base st = ppn2phys (block2ppn b) \<longrightarrow> unat off + unat sz \<le> unat (salloc_cursor st)"
    using assms(1,2) by (auto simp: handed_def phys2kvirt_def)
  then show ?thesis unfolding handed_def using assms(3-)
    by (intro exI [of _ b] exI [of _ off]) (simp add: phys2kvirt_def add.commute)
qed

definition kernel_mapped :: "nat \<Rightarrow> pt \<Rightarrow> bool" where
  "kernel_mapped k st \<longleftrightarrow> vm_ready st \<and> csr_satp st = ksatp st \<and> id_mapped (pmem st) (root_of (ksatp st)) (concat (map region (regions k)))
     \<and> (\<exists>xs. area_list st (kvmas_head st) xs \<and> map (vma_at st \<circ> vma_of) xs = map fst (concat (map region (regions k))))"

lemma go_high:
  assumes b: "booting (concat (map region (regions k))) st"
  shows "\<exists>st'. pt_migrate_kvmas VIRT_MEM_KERNEL_BASE (ksatp_enable_paging st) = Some st' \<and> kernel_mapped k st' \<and> layout st' = layout st
    \<and> frames st' = frames st \<and> (\<forall>F m. inside F m st \<longrightarrow> inside F m st')"
proof -
  let ?as = "concat (map region (regions k))" and ?off = VIRT_MEM_KERNEL_BASE
  obtain xs where ks: "kspace ?as xs st" and xs: "map (vma_at st \<circ> vma_of) xs = map fst ?as" using b by (auto simp: booting_def)
  have K: "\<not> is_paging_enabled st" "salloc_inv st" "pt_inv (ksatp st) st" "id_mapped (pmem st) (root_of (ksatp st)) ?as"
    "area_list st (kvmas_head st) xs" using ks by (simp_all add: kspace_def)
  have hd: "dlist (vm_nodes st) (kvmas_head st) xs" "handed st (kvmas_head st) 16" "\<And>n. n \<in> set xs \<Longrightarrow> handed st (vma_of n) 40"
    using K(5) by (auto simp: area_list_def)
  have low: "low_addr (kvmas_head st)" "\<And>n. n \<in> set xs \<Longrightarrow> low_addr n" "\<And>n. n \<in> set xs \<Longrightarrow> low_addr (vma_of n)"
    using handed_low [OF hd(2) K(1), of 0] handed_low [OF hd(3) K(1), of _ 24] handed_low [OF hd(3) K(1), of _ 0] by simp_all
  obtain h where h: "pt_migrate_kvmas ?off (ksatp_enable_paging st) = Some ((ksatp_enable_paging st)\<lparr>kvmas_head := kvmas_head st + ?off, vm_nodes := h\<rparr>)"
    "dlist h (kvmas_head st + ?off) (map (\<lambda>x. x + ?off) xs)"
    using migrate_spec [OF hd(1)] low by auto
  define st' where "st' = (ksatp_enable_paging st)\<lparr>kvmas_head := kvmas_head st + ?off, vm_nodes := h\<rparr>"
  note E = enable_paging_correct [of st]
  have s: "ksatp st' = ksatp (ksatp_enable_paging st)" "frames st' = frames st" "pmem st' = pmem st" "salloc_base st' = salloc_base st"
    "salloc_cursor st' = salloc_cursor st" "layout st' = layout st" "csr_satp st' = ksatp st'" "kvmas_head st' = kvmas_head st + ?off" "vm_nodes st' = h"
    by (simp_all add: st'_def ksatp_enable_paging_def Let_def)
  have pg: "is_paging_enabled st'" "root_of (ksatp st') = root_of (ksatp st)" using E by (simp_all add: is_paging_enabled_def s(1))
  have "salloc_inv st'" using K(2,3) s(2) by (intro salloc_inv_grow [OF K(2)]) (simp_all add: pt_inv_def s(2,4,5))
  then have "vm_ready st'" using pg K(3) s by (simp add: vm_ready_def pt_inv_def)
  moreover have "area_list st' (kvmas_head st') (map (\<lambda>x. x + ?off) xs)"
    using h(2) handed_high [OF hd(2) K(1) pg(1) s(2,4,5)] handed_high [OF hd(3) K(1) pg(1) s(2,4,5)]
    by (auto simp: area_list_def s(8,9) algebra_simps)
  moreover have "map (vma_at st' \<circ> vma_of) (map (\<lambda>x. x + ?off) xs) = map fst ?as"
  proof -
    have "vma_at st' (vma_of (x + ?off)) = vma_at st (vma_of x)" if "x \<in> set xs" for x
    proof -
      have "vma_of (x + ?off) = vma_of x + ?off" by simp
      then show ?thesis using low(3) [OF that] by (simp only: vma_at_def) (simp add: st'_def ksatp_enable_paging_def Let_def high_view_low)
    qed
    then have "map (vma_at st' \<circ> vma_of \<circ> (\<lambda>x. x + ?off)) xs = map (vma_at st \<circ> vma_of) xs" by (intro map_cong) (simp_all add: o_def)
    then show ?thesis using xs by (simp add: map_map)
  qed
  ultimately have "kernel_mapped k st'" using K(4) pg(2) s(3,7) unfolding kernel_mapped_def by metis
  moreover have "inside F m st'" if "inside F m st" for F m using that by (simp add: inside_def owned_def s(2,3) pg(2))
  ultimately show ?thesis using h(1) s(2,6) unfolding st'_def by blast
qed

lemma pt_init_spec:
  assumes inv: "buddy_inv (frames st)" "salloc_base st = 0" "salloc_cursor st = 0"
    and l: "layout st = buddy_layout_init base" "unat base = 0x80000000 + 4096 * k" "k \<le> 8191"
    and room: "2302 < card (free_pages (frames st))"
  shows "\<exists>st'. pt_init st = Some (0, st') \<and> kernel_mapped k st' \<and> layout st' = layout st \<and> 60 < card (free_pages (frames st'))
    \<and> inside (block2ppn ` free_pages (frames st)) (pmem st) st'"
proof -
  have "free_pages (frames st) \<noteq> {}" using room by auto
  then obtain st1 where s1: "ksatp_init st = Some (0, st1)" "\<not> is_paging_enabled st1" "salloc_inv st1" "pt_inv (ksatp st1) st1"
    "id_mapped (pmem st1) (root_of (ksatp st1)) []" "layout st1 = layout st" "took 1 st st1"
    "inside (block2ppn ` free_pages (frames st)) (pmem st) st1"
    using ksatp_init_spec [OF inv(1) _ inv(2,3)] by blast
  have "free_pages (frames st1) \<noteq> {}" using room s1(7) by (auto simp: took_def)
  then obtain p st2 where s2: "pt_init_vmas_head st1 = Some (0, p, st2)" "booting [] (st2\<lparr>kvmas_head := p\<rparr>)" "layout st2 = layout st1" "took 1 st1 st2"
    "\<forall>F m. inside F m st1 \<longrightarrow> inside F m (st2\<lparr>kvmas_head := p\<rparr>)"
    using init_kvmas_spec [OF s1(2-5)] by blast
  let ?st2 = "st2\<lparr>kvmas_head := p\<rparr>"
  have r2: "layout ?st2 = buddy_layout_init base" "2300 < card (free_pages (frames ?st2))" using s1(6,7) s2(3,4) l(1) room by (simp_all add: took_def)
  obtain st3 where s3: "\<And>g. and_then map_phys_mem_lowhigh (and_then map_kstack_lowhigh (and_then map_kelf_lowhigh (and_then map_io_lowhigh g))) ?st2 = g st3"
    "booting (concat (map region (regions k))) st3" "layout st3 = buddy_layout_init base" "60 < card (free_pages (frames st3))"
    "\<forall>F m. inside F m ?st2 \<longrightarrow> inside F m st3"
    using map_regions [OF s2(2) r2(1) l(2,3) r2(2)] by blast
  obtain st4 where s4: "pt_migrate_kvmas VIRT_MEM_KERNEL_BASE (ksatp_enable_paging st3) = Some st4" "kernel_mapped k st4" "layout st4 = layout st3"
    "frames st4 = frames st3" "\<forall>F m. inside F m st3 \<longrightarrow> inside F m st4"
    using go_high [OF s3(2)] by blast
  have "pt_init st = Some (0, st4)"
    unfolding pt_init_def
    by (subst and_then_def, simp add: s1(1), subst and_then_def, simp add: s2(1), subst s3(1), simp add: s4(1))
  moreover have "inside (block2ppn ` free_pages (frames st)) (pmem st) st4" using s1(8) s2(5) s3(5) s4(5) by blast
  ultimately show ?thesis using s4(2-4) s3(3,4) l(1) by auto
qed

end
