(* ===== verification/Boot_Low.thy ===== *)
theory Boot_Low
  imports Boot_Init
begin

text \<open>
  The address space \<open>pt_init\<close> builds, as the processor sees it, and the removal of the low areas
  (\<open>pt_destroy_low_kvmas\<close>).
\<close>

unbundle bit_operations_syntax

section \<open>The translation after \<open>pt_init\<close>\<close>

lemma regions_cover:
  assumes "k \<le> 8191"
  shows "(\<exists>(p, n, f) \<in> set (regions k). p \<le> x \<and> x < p + n) \<longleftrightarrow> x < 0x82000"
  using assms by (auto simp: regions_def)

lemma pg_half: "pg v mod 2 ^ 35 = (if pg v < 2 ^ 35 then pg v else pg v - 2 ^ 35)"
proof (cases "pg v < 2 ^ 35")
  case False
  then have "pg v mod 2 ^ 35 = (pg v - 2 ^ 35) mod 2 ^ 35" by (intro le_mod_geq) simp
  moreover have "pg v < 2 ^ 35 + 2 ^ 35" by simp
  then have "pg v - 2 ^ 35 < 2 ^ 35" using False by linarith
  ultimately show ?thesis using False by (simp only: mod_less if_False)
qed simp

lemma region_translate:
  assumes inv: "pt_inv satp st" and m: "id_mapped (pmem st) (root_of satp) (concat (map region rs))"
    and r: "(p, n, f) \<in> set rs" "region_ok (p, n, f)" and v: "p \<le> pg v mod 2 ^ 35" "pg v mod 2 ^ 35 < p + n"
  shows "sv48_translate (pmem st) satp v = Some (of_nat (pg v mod 2 ^ 35))"
proof -
  note u = area_numbers [OF r(2)] and a = region_areas [OF r(2)]
  have M: "mapped_to (pmem st) (root_of satp) x (of_nat p) (unat (v_pagen x))" if "x = low_area (p, n, f) \<or> x = high_area (p, n, f)" for x
    using m r(1) that unfolding id_mapped_def by (fastforce simp: region_def)
  have b: "p \<le> 2 ^ 32" "p + n \<le> 2 ^ 32" using r(2) by (simp_all add: region_ok_def)
  have p: "unat (of_nat p :: u64) = p" using b by (simp add: unat_of_nat_64)
  have pn: "p + n \<le> 2 ^ 44" using b(2) by simp
  consider "pg v mod 2 ^ 35 = pg v" | "pg v = 2 ^ 35 + pg v mod 2 ^ 35"
    using pg_half [of v] by (cases "pg v < 2 ^ 35") (simp_all only: if_True if_False not_less le_add_diff_inverse simp_thms)
  then show ?thesis
  proof cases
    case 1
    have "sv48_translate (pmem st) satp v = Some (of_nat p + of_nat (pg v - area_lo (low_area (p, n, f))))"
    proof (rule id_translate [OF inv M a(1)])
      show "unat (of_nat p :: u64) + unat (v_pagen (low_area (p, n, f))) \<le> 2 ^ 44" unfolding u(2) p by (rule pn)
      show "area_lo (low_area (p, n, f)) \<le> pg v" "pg v < area_hi (low_area (p, n, f))" unfolding u(2,5) using v unfolding 1 .
    qed (simp_all only: u(5) p simp_thms)
    then show ?thesis using v(1) unfolding u(5) 1 by (simp flip: of_nat_add)
  next
    case 2
    define y where "y = pg v mod 2 ^ 35"
    have y: "pg v = 2 ^ 35 + y" "p \<le> y" "y < p + n" using 2 v by (simp_all only: y_def)
    have m3: "p mod 512 ^ 3 = (2 ^ 35 + p) mod 512 ^ 3"
    proof -
      have "(2 ^ 35 + p) mod 512 ^ 3 = (p + 256 * 512 ^ 3) mod 512 ^ 3" by (simp add: add.commute)
      then show ?thesis unfolding mod_mult_self1 by simp
    qed
    have "sv48_translate (pmem st) satp v = Some (of_nat p + of_nat (pg v - area_lo (high_area (p, n, f))))"
    proof (rule id_translate [OF inv M a(2)])
      show "unat (of_nat p :: u64) + unat (v_pagen (high_area (p, n, f))) \<le> 2 ^ 44" unfolding u(4) p by (rule pn)
      show "unat (of_nat p :: u64) mod 512 ^ 3 = area_lo (high_area (p, n, f)) mod 512 ^ 3" unfolding u(6) p by (rule m3)
      show "area_lo (high_area (p, n, f)) \<le> pg v" "pg v < area_hi (high_area (p, n, f))" unfolding u(4,6) y(1) using y by simp_all
    qed simp
    moreover have "p + (pg v - area_lo (high_area (p, n, f))) = y" using y(2) unfolding u(6) y(1) by simp
    ultimately show ?thesis unfolding y_def [symmetric] by (metis of_nat_add)
  qed
qed

lemma no_region_leaf:
  assumes m: "id_mapped m root (concat (map region rs))" and ok: "\<forall>r \<in> set rs. region_ok r"
    and v: "\<forall>(p, n, f) \<in> set rs. \<not> (p \<le> pg v mod 2 ^ 35 \<and> pg v mod 2 ^ 35 < p + n)"
  shows "\<not> leaf_at m root v d x"
proof -
  have "Suc (pg v) \<le> area_lo a \<or> area_hi a \<le> pg v" if aq: "(a, q) \<in> set (concat (map region rs))" for a q
  proof -
    obtain p n f where r: "(p, n, f) \<in> set rs" "a = low_area (p, n, f) \<or> a = high_area (p, n, f)" using aq by (auto simp: region_def)
    note u = area_numbers [OF bspec [OF ok r(1)]]
    have b: "p + n \<le> 2 ^ 32" using ok r(1) by (auto simp: region_ok_def)
    have le35: "(2::nat) ^ 32 \<le> 2 ^ 35" by simp
    have out: "\<not> (p \<le> pg v mod 2 ^ 35 \<and> pg v mod 2 ^ 35 < p + n)" using v r(1) by blast
    have "(pg v < p \<or> p + n \<le> pg v) \<and> (pg v < 2 ^ 35 + p \<or> 2 ^ 35 + p + n \<le> pg v)"
    proof (cases "pg v < 2 ^ 35")
      case True
      then show ?thesis using out unfolding pg_half by (simp only: if_True) linarith
    next
      case False
      then show ?thesis using out b le35 unfolding pg_half by (simp only: if_False) linarith
    qed
    then show ?thesis using r(2) u(2,4-6) by (elim disjE) (simp_all only:, linarith+)
  qed
  then have "clear_range m root (pg v) (Suc (pg v))" using m unfolding id_mapped_def by blast
  then show ?thesis unfolding clear_range_def by blast
qed

lemma kernel_translate:
  assumes "kernel_mapped k st" "k \<le> 8191"
  shows "sv48_translate (pmem st) (ksatp st) v = (if pg v mod 2 ^ 35 < 0x82000 then Some (of_nat (pg v mod 2 ^ 35)) else None)"
proof -
  have K: "pt_inv (ksatp st) st" "id_mapped (pmem st) (root_of (ksatp st)) (concat (map region (regions k)))"
    using assms(1) by (simp_all add: kernel_mapped_def vm_ready_def)
  note ok = regions_ok(1) [OF assms(2)] and C = regions_cover [OF assms(2), of "pg v mod 2 ^ 35"]
  show ?thesis
  proof (cases "pg v mod 2 ^ 35 < 0x82000")
    case True
    then obtain p n f where r: "(p, n, f) \<in> set (regions k)" "p \<le> pg v mod 2 ^ 35" "pg v mod 2 ^ 35 < p + n" using C by blast
    then show ?thesis using region_translate [OF K r(1) bspec [OF ok r(1)] r(2,3)] True by simp
  next
    case False
    then have "\<not> leaf_at (pmem st) (root_of (ksatp st)) v d x" for d x by (intro no_region_leaf [OF K(2) ok]) (use C in blast)
    then have "sv48_translate (pmem st) (ksatp st) v \<noteq> Some q" for q
      using sv48_translate_leaf [of "pmem st" "frames st" "ksatp st" v q] K(1) by (auto simp: pt_inv_def)
    then show ?thesis using False by (cases "sv48_translate (pmem st) (ksatp st) v") auto
  qed
qed

section \<open>Destroying the low areas\<close>

definition is_low :: "vma \<Rightarrow> bool" where
  "is_low a \<longleftrightarrow> v_vpn a < virt2vpn VIRT_MEM_KERNEL_BASE"

definition whole :: "mem \<Rightarrow> u64 \<Rightarrow> vma \<Rightarrow> bool" where
  "whole m root a \<longleftrightarrow> unat (v_vpn a) + unat (v_pagen a) \<le> 2 ^ 35 \<and> populated m root (unat (v_vpn a)) (unat (v_vpn a) + unat (v_pagen a))"

definition in_pages :: "u64 \<Rightarrow> vma \<Rightarrow> bool" where
  "in_pages v a \<longleftrightarrow> unat (v_vpn a) \<le> pg v \<and> pg v < unat (v_vpn a) + unat (v_pagen a)"

lemma destroy_whole:
  assumes inv: "pt_inv satp st" and w: "whole (pmem st) (root_of satp) (vma_at st p)"
  shows "\<exists>st'. pt_vma_destroy satp p st = Some st' \<and> vm_nodes st' = list_remove (node_of p) (vm_nodes st)
    \<and> trimmed satp st (st'\<lparr>vm_nodes := vm_nodes st\<rparr>)
    \<and> (\<forall>v d x. leaf_at (pmem st') (root_of satp) v d x \<longleftrightarrow> \<not> in_pages v (vma_at st p) \<and> leaf_at (pmem st) (root_of satp) v d x)"
proof -
  let ?st = "st\<lparr>vm_nodes := list_remove (node_of p) (vm_nodes st)\<rparr>" and ?vma = "vma_at st p"
  have inv': "pt_inv satp ?st" using inv by (simp add: pt_inv_def)
  have b: "unat (v_vpn ?vma) + unat (v_pagen ?vma) \<le> 2 ^ 35" using w by (simp add: whole_def)
  then have en: "unat (v_vpn ?vma + v_pagen ?vma) = unat (v_vpn ?vma) + unat (v_pagen ?vma)" by (simp add: unat_add_64)
  obtain st' where st': "pt_vma_unmap_pages satp ?vma ?st = Some st'" "trimmed satp ?st st'"
    "without_range (root_of satp) (unat (v_vpn ?vma)) (unat (v_vpn ?vma + v_pagen ?vma)) (pmem ?st) (pmem st')"
    using unmap_populated [OF inv' _ _ inv' trimmed_refl [OF inv'] order_refl _ without_range_empty,
        where en = "v_vpn ?vma + v_pagen ?vma" and vpn = "v_vpn ?vma"] w en b unfolding pt_vma_unmap_pages_def whole_def by auto
  have "pt_vma_destroy satp p st = Some st'" using st'(1) by (simp add: pt_vma_destroy_def vma_at_def)
  then show ?thesis using st'(2,3) unfolding trimmed_nodes without_range_def en in_pages_def by auto
qed

lemma whole_kept:
  assumes "whole m root a" "area_lo a = unat (v_vpn a)" "area_lo b = unat (v_vpn b)" "areas_apart a b"
    and "\<And>v d x. leaf_at m' root v d x \<longleftrightarrow> \<not> in_pages v b \<and> leaf_at m root v d x"
  shows "whole m' root a"
proof -
  have "leaf_at m' root v d x" if "leaf_at m root v d x" "unat (v_vpn a) \<le> unat v \<and> unat v < unat (v_vpn a) + unat (v_pagen a)" for v d x
  proof -
    have "unat v < 2 ^ 36" using that(2) assms(1) by (simp add: whole_def)
    then have "pg v = unat v" by simp
    then have "\<not> in_pages v b" using that(2) assms(2-4) unfolding in_pages_def areas_apart_def by linarith
    then show ?thesis using assms(5) that(1) by blast
  qed
  then show ?thesis using assms(1) unfolding whole_def populated_def by meson
qed

lemma destroy_low_loop_spec:
  assumes "pt_inv (ksatp st) st" "dlist (vm_nodes st) (kvmas_head st) (zs @ ys)" "as = map (vma_at st \<circ> vma_of) ys"
    and "\<forall>a \<in> set as. is_low a \<longrightarrow> whole (pmem st) (root_of (ksatp st)) a \<and> area_lo a = unat (v_vpn a)"
    and "sorted_wrt areas_apart as"
  shows "\<exists>st'. destroy_low_loop (hd (ys @ [kvmas_head st])) st = Some st' \<and> trimmed (ksatp st) st (st'\<lparr>vm_nodes := vm_nodes st\<rparr>)
    \<and> dlist (vm_nodes st') (kvmas_head st) (zs @ filter (\<lambda>n. \<not> is_low (vma_at st (vma_of n))) ys)
    \<and> (\<forall>v d x. leaf_at (pmem st') (root_of (ksatp st)) v d x \<longleftrightarrow>
         \<not> (\<exists>a \<in> set as. is_low a \<and> in_pages v a) \<and> leaf_at (pmem st) (root_of (ksatp st)) v d x)"
  using assms
proof (induction ys arbitrary: st zs as)
  case Nil
  then show ?case by (subst destroy_low_loop.simps) (simp add: trimmed_refl)
next
  case (Cons n ys)
  let ?head = "kvmas_head st" and ?satp = "ksatp st" and ?a = "vma_at st (vma_of n)"
  define bs where "bs = map (vma_at st \<circ> vma_of) ys"
  have as: "as = ?a # bs" using Cons.prems(3) by (simp add: bs_def)
  have d: "dlist (vm_nodes st) ?head (zs @ n # ys)" using Cons.prems(2) .
  have ne: "n \<noteq> ?head" using d by (auto simp: dlist_def)
  have nx: "nnext (vm_nodes st) n = hd (ys @ [?head])"
  proof -
    have "links (vm_nodes st) ((?head # zs) @ n # (ys @ [?head]))" using d by (simp add: dlist_def)
    then have "links (vm_nodes st) (n # (ys @ [?head]))" using links_append [of "vm_nodes st" "?head # zs" n "ys @ [?head]"] by blast
    then show ?thesis by (cases ys) simp_all
  qed
  have low: "is_low ?a \<longleftrightarrow> vm_vpn st (vma_of n) < virt2vpn VIRT_MEM_KERNEL_BASE" by (simp add: is_low_def vma_at_def)
  show ?case
  proof (cases "is_low ?a")
    case False
    have "dlist (vm_nodes st) ?head ((zs @ [n]) @ ys)" using d by simp
    from Cons.IH [OF Cons.prems(1) this bs_def] Cons.prems(4,5) obtain st' where
      st': "destroy_low_loop (hd (ys @ [?head])) st = Some st'" "trimmed ?satp st (st'\<lparr>vm_nodes := vm_nodes st\<rparr>)"
      "dlist (vm_nodes st') ?head ((zs @ [n]) @ filter (\<lambda>n. \<not> is_low (vma_at st (vma_of n))) ys)"
      "\<forall>v d x. leaf_at (pmem st') (root_of ?satp) v d x \<longleftrightarrow> \<not> (\<exists>a \<in> set bs. is_low a \<and> in_pages v a) \<and> leaf_at (pmem st) (root_of ?satp) v d x"
      unfolding as by auto
    have "destroy_low_loop n st = Some st'" using st'(1) ne nx False low by (subst destroy_low_loop.simps) (simp add: Let_def)
    then show ?thesis using st'(2-) False unfolding as by simp
  next
    case True
    have wa: "whole (pmem st) (root_of ?satp) ?a" "area_lo ?a = unat (v_vpn ?a)" using Cons.prems(4) True unfolding as by simp_all
    obtain st1 where s1: "pt_vma_destroy ?satp (vma_of n) st = Some st1" "vm_nodes st1 = list_remove n (vm_nodes st)"
      "trimmed ?satp st (st1\<lparr>vm_nodes := vm_nodes st\<rparr>)"
      "\<forall>v d x. leaf_at (pmem st1) (root_of ?satp) v d x \<longleftrightarrow> \<not> in_pages v ?a \<and> leaf_at (pmem st) (root_of ?satp) v d x"
      using destroy_whole [OF Cons.prems(1) wa(1)] by auto
    obtain m where m: "st1\<lparr>vm_nodes := vm_nodes st\<rparr> = st\<lparr>pmem := m\<rparr>" using trimmedD(1) [OF s1(3)] by blast
    have same: "ksatp st1 = ?satp" "kvmas_head st1 = ?head" "vma_at st1 = vma_at st"
      using arg_cong [OF m, of ksatp] arg_cong [OF m, of kvmas_head] arg_cong [OF m, of vm_vpn] arg_cong [OF m, of vm_pagen] arg_cong [OF m, of vm_flags]
      by (simp_all add: vma_at_def fun_eq_iff)
    have inv1: "pt_inv (ksatp st1) st1" using trimmedD(2) [OF s1(3)] by (simp add: pt_inv_def same(1))
    have d1: "dlist (vm_nodes st1) (kvmas_head st1) (zs @ ys)" using dlist_list_remove(1) [OF d] s1(2) same(2) by simp
    have bs1: "bs = map (vma_at st1 \<circ> vma_of) ys" by (simp add: bs_def same(3))
    have w1: "\<forall>a \<in> set bs. is_low a \<longrightarrow> whole (pmem st1) (root_of (ksatp st1)) a \<and> area_lo a = unat (v_vpn a)"
    proof (intro ballI impI)
      fix a assume a: "a \<in> set bs" "is_low a"
      then have b: "whole (pmem st) (root_of ?satp) a" "area_lo a = unat (v_vpn a)" "areas_apart a ?a"
        using Cons.prems(4,5) unfolding as by (auto simp: areas_apart_def)
      show "whole (pmem st1) (root_of (ksatp st1)) a \<and> area_lo a = unat (v_vpn a)"
        using whole_kept [OF b(1,2) wa(2) b(3)] s1(4) b(2) unfolding same by blast
    qed
    have sw: "sorted_wrt areas_apart bs" using Cons.prems(5) unfolding as by simp
    from Cons.IH [OF inv1 d1 bs1 w1 sw] obtain st' where
      st': "destroy_low_loop (hd (ys @ [?head])) st1 = Some st'" "trimmed ?satp st1 (st'\<lparr>vm_nodes := vm_nodes st1\<rparr>)"
      "dlist (vm_nodes st') ?head (zs @ filter (\<lambda>n. \<not> is_low (vma_at st (vma_of n))) ys)"
      "\<forall>v d x. leaf_at (pmem st') (root_of ?satp) v d x \<longleftrightarrow> \<not> (\<exists>a \<in> set bs. is_low a \<and> in_pages v a) \<and> leaf_at (pmem st1) (root_of ?satp) v d x"
      unfolding same by blast
    have "trimmed ?satp (st1\<lparr>vm_nodes := vm_nodes st\<rparr>) (st'\<lparr>vm_nodes := vm_nodes st\<rparr>)" using st'(2) by (simp add: trimmed_nodes)
    then have t: "trimmed ?satp st (st'\<lparr>vm_nodes := vm_nodes st\<rparr>)" by (rule trimmed_trans [OF s1(3)])
    have "destroy_low_loop n st = Some st'" using s1(1) st'(1) ne nx True low by (subst destroy_low_loop.simps) (simp add: Let_def)
    then show ?thesis using t st'(3,4) s1(4) True unfolding as by auto
  qed
qed

section \<open>The kernel's address space\<close>

lemma region_kinds:
  assumes "region_ok r"
  shows "is_low (low_area r)" "\<not> is_low (high_area r)"
proof -
  obtain p n f where r: "r = (p, n, f)" by (cases r)
  note u = area_numbers [OF assms [unfolded r]]
  have b: "p \<le> 2 ^ 32" using assms by (simp add: region_ok_def r)
  have e: "unat (virt2vpn VIRT_MEM_KERNEL_BASE) = 0xffff800000000" by (simp add: VIRT_MEM_KERNEL_BASE_def phys2ppn_pt_def unat_drop_bit_64)
  show "is_low (low_area r)" "\<not> is_low (high_area r)" unfolding is_low_def word_less_nat_alt e r u using b by simp_all
qed

lemma mapped_whole:
  assumes r: "region_ok (p, n, f)" and m: "mapped_to m root (low_area (p, n, f)) q (unat (v_pagen (low_area (p, n, f))))"
  shows "whole m root (low_area (p, n, f))"
proof -
  note u = area_numbers [OF r]
  have b: "p + n \<le> 2 ^ 32" using r by (simp add: region_ok_def)
  have "\<exists>d x. leaf_at m root v d x \<and> p \<le> block_start (3 - d) (unat v) \<and> block_start (3 - d) (unat v) + 512 ^ (3 - d) \<le> p + n"
    if v: "p \<le> unat v" "unat v < p + n" for v
  proof -
    have "pg v = unat v" using v(2) b by simp
    then show ?thesis using m v unfolding mapped_to_def u(2,5) by (metis (no_types, lifting))
  qed
  moreover have "p + n \<le> 2 ^ 35" using b by simp
  ultimately show ?thesis unfolding whole_def populated_def u(1,2) by blast
qed

lemma sorted_areas:
  assumes "sorted_wrt regions_apart rs" "\<forall>r \<in> set rs. region_ok r"
  shows "sorted_wrt areas_apart (map fst (concat (map region rs)))"
  using assms
proof (induction rs)
  case (Cons r rs)
  have "sorted_wrt areas_apart (map fst (region r))" using region_areas(3) [of r] Cons.prems(2) by (simp add: region_def)
  moreover have "areas_apart a b" if a: "a \<in> set (map fst (region r))" and b: "b \<in> set (map fst (concat (map region rs)))" for a b
  proof -
    obtain s where s: "s \<in> set rs" "b \<in> fst ` set (region s)" using b by auto
    have ok: "region_ok r" "region_ok s" "regions_apart r s" using Cons.prems s(1) by simp_all
    show ?thesis by (rule region_apart_areas [OF ok _ s(2)]) (use a in simp)
  qed
  ultimately show ?case using Cons by (simp only: list.map concat.simps map_append sorted_wrt_append) simp
qed simp

lemma upper_pages:
  assumes "k \<le> 8191"
  shows "(\<exists>a \<in> set (map fst (concat (map region (regions k)))). is_low a \<and> in_pages v a) \<longleftrightarrow> pg v < 0x82000"
proof -
  note ok = regions_ok(1) [OF assms]
  have "(\<exists>a \<in> set (map fst (concat (map region (regions k)))). is_low a \<and> in_pages v a)
      \<longleftrightarrow> (\<exists>r \<in> set (regions k). in_pages v (low_area r))"
    using ok region_kinds by (auto simp: region_def)
  also have "\<dots> \<longleftrightarrow> (\<exists>(p, n, f) \<in> set (regions k). p \<le> pg v \<and> pg v < p + n)"
  proof (rule bex_cong [OF refl])
    fix r assume r: "r \<in> set (regions k)"
    obtain p n f where e: "r = (p, n, f)" by (cases r)
    show "in_pages v (low_area r) = (case r of (p, n, f) \<Rightarrow> p \<le> pg v \<and> pg v < p + n)"
      using area_numbers(1,2) [OF bspec [OF ok r, unfolded e]] by (simp only: e in_pages_def prod.case)
  qed
  also have "\<dots> \<longleftrightarrow> pg v < 0x82000" by (rule regions_cover [OF assms])
  finally show ?thesis .
qed

lemma lower_tables:
  assumes m: "id_mapped m root (concat (map region rs))" "\<forall>r \<in> set rs. region_ok r \<and> fst r + fst (snd r) \<le> 2 ^ 27"
    and v: "idx v 0 \<noteq> 0" "unat (idx v 0) < 256"
  shows "tab m root v 1 = None"
proof -
  define i where "i = pg v div 2 ^ 27"
  have ix: "unat (idx v 0) = i" unfolding i_def vpn2vpnlevel_def
    by (simp add: mask_9 unat_and_mask_64 unat_drop_bit_64 mod_mult2_eq [of "unat v" "2 ^ 27" "2 ^ 9", simplified])
  have i: "1 \<le> i" "i < 256" using v ix by (simp_all add: u64_eq_iff Suc_le_eq)
  have "512 ^ 3 * i + 512 ^ 3 \<le> area_lo a \<or> area_hi a \<le> 512 ^ 3 * i" if aq: "(a, q) \<in> set (concat (map region rs))" for a q
  proof -
    obtain p n f where r: "(p, n, f) \<in> set rs" "a = low_area (p, n, f) \<or> a = high_area (p, n, f)" using aq by (auto simp: region_def)
    have ok: "region_ok (p, n, f)" "p + n \<le> 2 ^ 27" using bspec [OF m(2) r(1)] by simp_all
    note u = area_numbers [OF ok(1)]
    have "(512::nat) ^ 3 * i + 512 ^ 3 \<le> 2 ^ 35" "2 ^ 27 \<le> (512::nat) ^ 3 * i" using i by simp_all
    then show ?thesis using r(2) ok(2) u(2,4-6) by (elim disjE) (simp_all only:, linarith+)
  qed
  then have c: "clear_range m root (512 ^ 3 * i) (512 ^ 3 * i + 512 ^ 3)" using m(1) unfolding id_mapped_def by blast
  have "block_start 3 (pg v) = 512 ^ 3 * i" by (simp add: i_def)
  moreover from this in_block [where l = 3 and n = "pg v"] have "512 ^ 3 * i \<le> pg v" "pg v < 512 ^ 3 * i + 512 ^ 3" by simp_all
  ultimately have "ent m root v 0 = None \<or> ent m root v 0 = Some 0" using c unfolding clear_range_def
    by (metis diff_zero order_refl zero_less_numeral)
  then show ?thesis by (auto simp: ent_def is_table_def pte_is_valid_bit)
qed

lemma destroy_low_spec:
  assumes K: "kernel_mapped k st" and k: "k \<le> 8191"
  shows "\<exists>st'. pt_destroy_low_kvmas st = Some st' \<and> vm_ready st' \<and> lower_free st' \<and> ksatp st' = ksatp st \<and> csr_satp st' = ksatp st
    \<and> frames st' = frames st \<and> layout st' = layout st \<and> (\<forall>F m. inside F m st \<longrightarrow> inside F m st')
    \<and> (\<forall>v. sv48_translate (pmem st') (ksatp st') v =
         (if 2 ^ 35 \<le> pg v \<and> pg v < 2 ^ 35 + 0x82000 then Some (of_nat (pg v - 2 ^ 35)) else None))"
proof -
  let ?as = "concat (map region (regions k))" and ?root = "root_of (ksatp st)"
  obtain xs where xs: "area_list st (kvmas_head st) xs" "map (vma_at st \<circ> vma_of) xs = map fst ?as" and rd: "vm_ready st"
    and m: "id_mapped (pmem st) ?root ?as" and cs: "csr_satp st = ksatp st" using K by (auto simp: kernel_mapped_def)
  have inv: "pt_inv (ksatp st) st" using rd by (simp add: vm_ready_def)
  have d: "dlist (vm_nodes st) (kvmas_head st) ([] @ xs)" using xs(1) by (simp add: area_list_def)
  note ok = regions_ok [OF k]
  have w: "\<forall>a \<in> set (map fst ?as). is_low a \<longrightarrow> whole (pmem st) ?root a \<and> area_lo a = unat (v_vpn a)"
  proof (intro ballI impI)
    fix a assume a: "a \<in> set (map fst ?as)" "is_low a"
    then obtain p n f where r: "(p, n, f) \<in> set (regions k)" "a = low_area (p, n, f)"
      using ok(1) region_kinds(2) by (auto simp: region_def)
    have "(a, of_nat p) \<in> set (region (p, n, f))" by (simp add: region_def r(2))
    then have "(a, of_nat p) \<in> set ?as" using r(1) by (simp only: set_concat set_map) blast
    then have "mapped_to (pmem st) ?root a (of_nat p) (unat (v_pagen a))" using m unfolding id_mapped_def by blast
    then show "whole (pmem st) ?root a \<and> area_lo a = unat (v_vpn a)"
      using mapped_whole [OF bspec [OF ok(1) r(1)]] area_numbers(1,5) [OF bspec [OF ok(1) r(1)]] unfolding r(2) by metis
  qed
  obtain st' where st': "destroy_low_loop (hd (xs @ [kvmas_head st])) st = Some st'" "trimmed (ksatp st) st (st'\<lparr>vm_nodes := vm_nodes st\<rparr>)"
    "\<forall>v d x. leaf_at (pmem st') ?root v d x \<longleftrightarrow> \<not> (\<exists>a \<in> set (map fst ?as). is_low a \<and> in_pages v a) \<and> leaf_at (pmem st) ?root v d x"
    using destroy_low_loop_spec [OF inv d xs(2) [symmetric] w sorted_areas [OF ok(2,1)]] by blast
  obtain m' where m': "st'\<lparr>vm_nodes := vm_nodes st\<rparr> = st\<lparr>pmem := m'\<rparr>" using trimmedD(1) [OF st'(2)] by blast
  have same: "ksatp st' = ksatp st" "csr_satp st' = csr_satp st" "frames st' = frames st" "layout st' = layout st"
    "salloc_base st' = salloc_base st" "salloc_cursor st' = salloc_cursor st"
    using arg_cong [OF m', of ksatp] arg_cong [OF m', of csr_satp] arg_cong [OF m', of frames] arg_cong [OF m', of layout]
      arg_cong [OF m', of salloc_base] arg_cong [OF m', of salloc_cursor] by simp_all
  have inv': "pt_inv (ksatp st) st'" using trimmedD(2) [OF st'(2)] by (simp add: pt_inv_def)
  have "salloc_inv st'" using rd inv' same(3) by (intro salloc_inv_grow [OF _ _ same(5,6)]) (simp_all add: vm_ready_def pt_inv_def)
  then have ready: "vm_ready st'" using rd inv' same(1) by (simp add: vm_ready_def is_paging_enabled_def)
  have t: "tab (pmem st') ?root v 1 = tab (pmem st) ?root v 1" for v using trimmedD(7) [OF st'(2), of 1 v] by simp
  have small: "\<forall>r \<in> set (regions k). region_ok r \<and> fst r + fst (snd r) \<le> 2 ^ 27" using ok(1) k by (auto simp: regions_def)
  have "lower_free st'" unfolding lower_free_def same(1) t using lower_tables [OF m small] by blast
  moreover have "sv48_translate (pmem st') (ksatp st') v = (if 2 ^ 35 \<le> pg v \<and> pg v < 2 ^ 35 + 0x82000 then Some (of_nat (pg v - 2 ^ 35)) else None)" for v
  proof -
    have L: "leaf_at (pmem st') ?root v d x \<longleftrightarrow> \<not> pg v < 0x82000 \<and> leaf_at (pmem st) ?root v d x" for d x
      using st'(3) upper_pages [OF k, of v] by blast
    have wf: "pt_wf (pmem st) (frames st) ?root" "pt_wf (pmem st') (frames st') ?root" using inv inv' by (simp_all add: pt_inv_def)
    show ?thesis
    proof (cases "pg v < 0x82000")
      case True
      then have "sv48_translate (pmem st') (ksatp st) v \<noteq> Some q" for q using sv48_translate_leaf [OF wf(2), of v q] L by auto
      then show ?thesis using True same(1) by (cases "sv48_translate (pmem st') (ksatp st) v") auto
    next
      case False
      then have "sv48_translate (pmem st') (ksatp st) v = sv48_translate (pmem st) (ksatp st) v" using translate_cong [OF wf, of v] L by blast
      also have "\<dots> = (if pg v mod 2 ^ 35 < 0x82000 then Some (of_nat (pg v mod 2 ^ 35)) else None)" by (rule kernel_translate [OF K k])
      finally show ?thesis using False unfolding same(1) pg_half by (cases "pg v < 2 ^ 35") auto
    qed
  qed
  moreover have "pt_destroy_low_kvmas st = Some st'" using st'(1) dlist_next_head [of "vm_nodes st" "kvmas_head st" xs] d
    by (simp add: pt_destroy_low_kvmas_def)
  moreover have "inside F m st'" if "inside F m st" for F m
  proof (rule inside_step [OF that])
    have "pt_pages (pmem st') ?root = pt_pages (pmem st) ?root" using trimmedD(7) [OF st'(2)] by (intro pt_pages_cong) simp
    then show "owned (ksatp st) st' \<subseteq> owned (ksatp st) st" by (simp add: owned_def same(3))
    show "pmem st' a = pmem st a" if "drop_bit 12 a \<notin> owned (ksatp st) st" for a
    proof -
      have "user_pages (pmem st) ?root \<subseteq> owned (ksatp st) st" unfolding owned_def user_pages_def pt_pages_def by blast
      then show ?thesis using trimmedD(6) [OF st'(2), of a] that by auto
    qed
  qed (simp add: same(1))
  ultimately show ?thesis using ready same cs by auto
qed

end
