(* ===== verification/Boot.thy ===== *)
theory Boot
  imports Exception
begin

text \<open>
  Booting (\<^verbatim>\<open>main.c\<close>): the initialisation of the allocator, the kernel's page tables, the jump to high
  addresses and the first process; and the debugging output of page tables. The addresses the linker
  assigns are a record.
\<close>

unbundle bit_operations_syntax

text \<open>\<open>im_phys_base\<close> is the address of the variable \<open>phys_base\<close>, which lies behind the image; the allocator stores
  it there.\<close>

record image =
  im_phys_base :: addr
  im_free_lists :: addr
  im_blocks :: addr
  im_trap_handler_s :: addr
  im_trap_handler :: addr
  im_main :: addr
  im_jump :: addr
  im_ksatp :: addr

section \<open>The allocator\<close>

definition buddy_init :: "image \<Rightarrow> kernel \<Rightarrow> kernel option" where
  "buddy_init im k =
     do { let k = upd_vm (\<lambda>st. st\<lparr>pmem := store64 (pmem st) (im_phys_base im) (im_phys_base im)\<rparr>) k;
          fr \<leftarrow> raw_buddy_init (im_phys_base im) (frames (vm k));
          let k = upd_vm (\<lambda>st. st\<lparr>frames := fr\<rparr>) k;
          let k = upd_vm (\<lambda>st. st\<lparr>layout := buddy_layout_init (im_phys_base im)\<rparr>) k;
          k \<leftarrow> kprintstr (''--- buddy layout ---'' @ [CHR 0x0A]) k;
          k \<leftarrow> kprintdbg ''PHYS_MEM_START       : '' (kelf_base (layout (vm k))) k;
          k \<leftarrow> kprintdbg ''phys_base            : '' (phys_base (layout (vm k))) k;
          k \<leftarrow> kprintdbg ''phys_end             : '' (phys_end (layout (vm k))) k;
          k \<leftarrow> kprintdbg ''PHYS_MEM_END         : '' PHYS_MEM_END k;
          k \<leftarrow> kprintdbg ''kstack_size          : '' (kstack_size (layout (vm k))) k;
          k \<leftarrow> kprintstr (''--- buddy meta data ---'' @ [CHR 0x0A]) k;
          k \<leftarrow> kprintdbg ''buddy_free_lists base: '' (im_free_lists im) k;
          k \<leftarrow> kprintdbg ''buddy_free_lists end : '' (im_free_lists im + of_nat (8 * (BUDDY_MAX_ORDER + 1))) k;
          k \<leftarrow> kprintdbg ''buddy_blocks base    : '' (im_blocks im) k;
          kprintdbg ''buddy_blocks end     : '' (im_blocks im + of_nat (24 * 2 ^ BUDDY_MAX_ORDER)) k }"

section \<open>Printing page tables\<close>

abbreviation (input) PTE_GLOBAL_SHIFT :: nat where "PTE_GLOBAL_SHIFT \<equiv> 5"
abbreviation (input) PTE_ACCESSED_SHIFT :: nat where "PTE_ACCESSED_SHIFT \<equiv> 6"
abbreviation (input) PTE_DIRTY_SHIFT :: nat where "PTE_DIRTY_SHIFT \<equiv> 7"
abbreviation (input) PTE_RSW_SHIFT :: nat where "PTE_RSW_SHIFT \<equiv> 8"
abbreviation (input) PTE_RSW_MASK :: u64 where "PTE_RSW_MASK \<equiv> 3"

definition pt_pte_print :: "u64 \<Rightarrow> kernel \<Rightarrow> kernel option" where
  "pt_pte_print pte =
     print_list
       [(''reser: '', drop_bit 53 pte AND 0x3ff),
        (''ppn  : '', pte_get_ppn pte),
        (''(phy): '', ppn2phys (pte_get_ppn pte)),
        (''rsw  : '', drop_bit PTE_RSW_SHIFT pte AND PTE_RSW_MASK),
        (''dirty: '', pte_get pte PTE_DIRTY_SHIFT),
        (''acc. : '', pte_get pte PTE_ACCESSED_SHIFT),
        (''glob.: '', pte_get pte PTE_GLOBAL_SHIFT),
        (''user : '', pte_get pte PTE_USER_SHIFT),
        (''exec : '', pte_get pte PTE_EXEC_SHIFT),
        (''write: '', pte_get pte PTE_WRITE_SHIFT),
        (''read : '', pte_get pte PTE_READ_SHIFT),
        (''valid: '', pte_get pte PTE_VALID_SHIFT)]"

text \<open>The report of one step: a gap or a mapping begins where the depth changes.\<close>

definition pt_print_change :: "u64 \<Rightarrow> u64 \<Rightarrow> int \<Rightarrow> int \<Rightarrow> kernel \<Rightarrow> kernel option" where
  "pt_print_change user_vpn_to_skip_to vpn prev depth k =
     (if vpn \<noteq> user_vpn_to_skip_to \<and> depth < 0 \<and> depth \<noteq> prev then
        do { k \<leftarrow> kprintdbg ''---- ---- '' (vpn2virt vpn) k;
             kprintstr [CHR 0x0A, CHR 0x0A] k }
      else if depth \<ge> 0 \<and> depth \<noteq> prev then
        do { k \<leftarrow> kprintdbg ''---- ---- '' (vpn2virt vpn) k;
             k \<leftarrow> kprintdbg ''    |     '' (of_nat (depth2level (nat depth))) k;
             kprintstr (''    |     '' @ [CHR 0x0A]) k }
      else Some k)"

definition pt_print_next :: "u64 \<Rightarrow> u64 \<Rightarrow> int \<Rightarrow> int \<Rightarrow> u64" where
  "pt_print_next user_vpn_to_skip_to vpn prev depth =
     (if prev < 0 \<and> vpn > user_vpn_to_skip_to + 256 * PAGE_SIZE \<and> vpn < virt2vpn VIRT_MEM_KERNEL_BASE
      then virt2vpn VIRT_MEM_KERNEL_BASE
      else if depth < 0 then vpn + level2pagen 0
      else vpn + level2pagen (depth2level (nat depth)))"

partial_function (option) pt_print_loop :: "u64 \<Rightarrow> u64 \<Rightarrow> int \<Rightarrow> kernel \<Rightarrow> kernel option" where
  "pt_print_loop user_vpn_to_skip_to vpn prev k =
     (if vpn \<le> virt2vpn (VIRT_MEM_KERNEL_BASE + phys_end (layout (vm k)) + kstack_size (layout (vm k))) then
        do { (depth, ptes, pte) \<leftarrow> pt_get_pte (ksatp (vm k)) vpn (replicate PT_NUM_LEVELS 0) (vm k);
             k \<leftarrow> pt_print_change user_vpn_to_skip_to vpn prev depth k;
             pt_print_loop user_vpn_to_skip_to (pt_print_next user_vpn_to_skip_to vpn prev depth) depth k }
      else Some k)"

definition pt_print :: "u64 \<Rightarrow> kernel \<Rightarrow> kernel option" where
  "pt_print user_vpn_to_skip_to k =
     pt_print_loop user_vpn_to_skip_to
       (if sint user_vpn_to_skip_to \<ge> 0 then user_vpn_to_skip_to else virt2vpn VIRT_MEM_KERNEL_BASE) (- 1) k"

section \<open>The jump to high addresses\<close>

text \<open>The assembly of \<open>pt_jump_to_high\<close>, instruction by instruction; \<open>im_jump\<close> is the address of the \<open>auipc\<close>.
  After the jump the addresses of symbols, which are relative to the program counter, are high ones.\<close>

definition pt_jump_to_high :: "image \<Rightarrow> kernel \<Rightarrow> kernel" where
  "pt_jump_to_high im = upd_mach (\<lambda>m.
     let r = kreg m;
         r = r(''t2'' := r ''ra'');
         r = r(''t0'' := 0x1ffff);
         r = r(''t0'' := push_bit VIRT_MEM_KERNEL_SHIFT (r ''t0''));
         r = r(''t1'' := im_jump im);
         r = r(''t1'' := r ''t1'' + 0x10);
         r = r(''t1'' := r ''t0'' + r ''t1'');
         pc = r ''t1'';
         r = r(''ra'' := im_jump im + 0x10);
         r = r(''ra'' := r ''t2'' + r ''t0'');
         r = r(''sp'' := r ''sp'' + r ''t0'');
         r = r(''s0'' := r ''s0'' + r ''t0'');
         r = r(''t0'' := pc + (im_trap_handler_s im - (im_jump im + 0x10)))
     in m\<lparr>kreg := r, csr_stvec := r ''t0''\<rparr>)"

section \<open>The entry point\<close>

text \<open>
  \<open>_entry\<close> of \<^verbatim>\<open>stack.S\<close>, at the start of the image (0x80000000 in \<^verbatim>\<open>main.ld\<close>): the registers it leaves when it
  enters \<open>main\<close> in supervisor mode. \<open>entry_regs\<close> are the general registers it writes, \<open>sp\<close> by \<open>auipc\<close>.
\<close>

abbreviation (input) ENTRY :: addr where "ENTRY \<equiv> 0x80000000"
abbreviation (input) TOP_STACK :: u64 where "TOP_STACK \<equiv> 0x20000"

definition entry_regs :: "image \<Rightarrow> (string \<Rightarrow> u64) \<Rightarrow> string \<Rightarrow> u64" where
  "entry_regs im r =
     (let r = r(''sp'' := ENTRY + push_bit 12 TOP_STACK);
          r = r(''t1'' := 0x9fff7);
          r = r(''t1'' := push_bit 12 (r ''t1''))
      in r(''t0'' := im_main im))"

definition start_hart :: "image \<Rightarrow> kernel \<Rightarrow> kernel" where
  "start_hart im k =
     (let r = entry_regs im (kreg (mach k));
          k = upd_vm (\<lambda>st. st\<lparr>csr_satp := 0\<rparr>) k;
          k = write_mstatus (push_bit 0xb (0 XOR 1)) k;
          k = upd_mach (\<lambda>m. m\<lparr>csr_stvec := im_trap_handler_s im, csr_mtvec := im_trap_handler im,
                csr_medeleg := 0xB9FF, csr_mideleg := 0xFFFF, csr_mscratch := r ''t1'', csr_mepc := im_main im\<rparr>) k
      in upd_mach (\<lambda>m. m\<lparr>kreg := r\<rparr>) k)"

text \<open>
  The word on top of the stack can be accessed: paging is off, or the processor translates the page of the address
  below the stack pointer. Without it no function returns, since its return address is on the stack.
\<close>

definition stack_mapped :: "kernel \<Rightarrow> bool" where
  "stack_mapped k \<longleftrightarrow> drop_bit SATP_MODE_SHIFT (csr_satp (vm k)) = SATP_MODE_BARE
     \<or> sv48_translate (pmem (vm k)) (csr_satp (vm k)) (virt2vpn (kreg (mach k) ''sp'' - 8)) \<noteq> None"

section \<open>The boot sequence\<close>

definition YAK_LOGO :: string where
  "YAK_LOGO =
     [CHR 0x1B] @ ''[31m    __ _____ _____ _____ '' @ [CHR 0x0A] @
     [CHR 0x1B] @ ''[32m __|  |  _  |  |  |   __|'' @ [CHR 0x0A] @
     [CHR 0x1B] @ ''[33m|  |  |     |    -|   __|'' @ [CHR 0x0A] @
     [CHR 0x1B] @ ''[34m|_____|__|__|__|__|_____|'' @ [CHR 0x0A, CHR 0x0A, CHR 0x1B] @ ''[0m''"

text \<open>
  \<open>main\<close>, without the tests. The result \<open>Returns\<close> is the return of \<open>main\<close>, \<open>Resumes\<close> the start of the first
  process. The address of \<open>ksatp\<close> is stored in slot 0 of the process table. Where the address space changes (\<open>pt_init\<close>,
  the jump, the removal of the low areas), execution goes on only if the stack is mapped.
\<close>

definition main :: "image \<Rightarrow> kernel \<Rightarrow> (ctl \<times> kernel) option" where
  "main im k =
     do { k \<leftarrow> kprintstr YAK_LOGO k;
          k \<leftarrow> buddy_init im k;
          (ret, k) \<leftarrow> in_vm pt_init k;
          ensure (stack_mapped k);
          if ret \<noteq> 0 then
            do { k \<leftarrow> kprintdbg ''pt init failed: '' (of_int ret) k; Some (Off, k) }
          else do {
            let k = pt_jump_to_high im k;
            ensure (stack_mapped k);
            v \<leftarrow> pt_destroy_low_kvmas (vm k);
            let k = k\<lparr>vm := v\<rparr>;
            ensure (stack_mapped k);
            let k = proc_init_process_list (im_ksatp im + VIRT_MEM_KERNEL_BASE) k;
            let k = set_sscratch k;
            seq ecall_timer_setup (\<lambda>k.
              do { k \<leftarrow> kprintstr (''Starting testing process...: '' @ [CHR 0x0A]) k;
                   (r, k) \<leftarrow> proc_run_process (sym_testing (mach k)) 0 k;
                   case r of
                     Inr f \<Rightarrow> Some (Resumes f, k)
                   | Inl n \<Rightarrow>
                       if n \<noteq> 0 then
                         do { k \<leftarrow> kprintdbg (''ERROR: Could not test process: '' @ [CHR 0x0A]) (of_int n) k; Some (Returns, k) }
                       else Some (Returns, k) }) k } }"

end
