(* ===== verification/Boot_Main.thy ===== *)
theory Boot_Main
  imports Boot_Low Boot Faults System
begin

text \<open>
  The boot sequence \<open>main\<close> as a whole: from a machine with cleared static memory to the first
  instruction of the first process.
\<close>

unbundle bit_operations_syntax

section \<open>The machine call and the allocator\<close>

lemma setup_traps: "same_traps k (fix_mepc (timer_setup ((trap_m k)\<lparr>tf_generic := f\<rparr>)))"
  by (auto simp: same_traps_def increase_timer_def fix_mepc_def timer_setup_def trap_m_def write_mstatus_def write_sie_def
      upd_mach_def upd_vm_def Let_def)

lemma setup_now:
  assumes "\<not> mtimecmp (mach k) \<le> mtime (mach k)"
  shows "\<exists>k'. ecall ECALL_TIMER_SETUP k = Some (Returns, k') \<and> same_traps k k'"
proof -
  let ?f = "(tf_generic k)\<lparr>tf_a0 := ECALL_TIMER_SETUP, tf_a1 := 0, tf_a2 := 0\<rparr>"
  let ?k1 = "fix_mepc (timer_setup ((trap_m k)\<lparr>tf_generic := ?f\<rparr>))"
  have "csr_mepc (mach ?k1) = ecall_pc (mach ?k1) + 4"
    by (simp add: fix_mepc_def timer_setup_def increase_timer_def write_mstatus_def write_sie_def upd_mach_def upd_vm_def Let_def)
  then have "ecall ECALL_TIMER_SETUP k = Some (Returns, ?k1)"
    by (subst ecall.simps) (simp add: mcall_ecall(4) [OF refl assms refl])
  then show ?thesis using setup_traps by blast
qed

lemma timer_setup_spec:
  assumes "time_ok k"
  shows "\<exists>k'. ecall_timer_setup k = Some (Returns, k') \<and> keeps k k' \<and> same_traps k k'"
proof -
  have "\<exists>k'. ecall ECALL_TIMER_SETUP k = Some (Returns, k') \<and> same_traps k k'"
  proof (cases "mtimecmp (mach k) \<le> mtime (mach k)")
    case True
    from ecall_pending [OF True, of ECALL_TIMER_SETUP] assms obtain k1 where k1: "ecall ECALL_TIMER_SETUP k = ecall ECALL_TIMER_SETUP k1"
      "same_traps k k1" "\<not> mtimecmp (mach k1) \<le> mtime (mach k1)" by blast
    from setup_now [OF k1(3)] k1(1) show ?thesis using same_traps_trans [OF k1(2)] by auto
  qed (rule setup_now)
  then show ?thesis using keeps_ecall unfolding ecall_timer_setup_def by blast
qed

definition with_memory :: "image \<Rightarrow> buddy \<Rightarrow> kernel \<Rightarrow> kernel" where
  "with_memory im fr k = upd_vm (\<lambda>st. st\<lparr>pmem := store64 (pmem st) (im_phys_base im) (im_phys_base im), frames := fr,
     layout := buddy_layout_init (im_phys_base im)\<rparr>) k"

lemma print_last:
  assumes "prints k0 k" "\<exists>k'. f k = Some k' \<and> prints k k'"
  shows "\<exists>y. f k = Some y \<and> prints k0 y"
  using assms prints_trans by blast

lemma buddy_init_spec:
  assumes "raw_buddy_init (im_phys_base im) (frames (vm k)) = Some fr"
  shows "\<exists>k'. buddy_init im k = Some k' \<and> prints (with_memory im fr k) k'"
proof -
  let ?k = "upd_vm (\<lambda>st. st\<lparr>pmem := store64 (pmem st) (im_phys_base im) (im_phys_base im)\<rparr>) k"
  have fr: "frames (vm ?k) = frames (vm k)" by (simp add: upd_vm_def)
  have w: "upd_vm (\<lambda>st. st\<lparr>layout := buddy_layout_init (im_phys_base im)\<rparr>) (upd_vm (\<lambda>st. st\<lparr>frames := fr\<rparr>) ?k) = with_memory im fr k"
    by (simp add: with_memory_def upd_vm_def)
  show ?thesis
    unfolding buddy_init_def Let_def fr assms bind.bind_lunit w
    by (rule bind_prints [OF kprintstr_prints prints_refl], simp,
        (rule bind_prints [OF kprintdbg_prints], simp, assumption | rule bind_prints [OF kprintstr_prints], simp, assumption)+,
        rule print_last, assumption, rule kprintdbg_prints, simp)
qed

section \<open>The memory of the kernel\<close>

text \<open>\<open>high_map v\<close>: where the kernel's half maps page \<open>v\<close>.\<close>

definition high_map :: "u64 \<Rightarrow> u64 option" where
  "high_map v = (if 2 ^ 35 \<le> pg v \<and> pg v < 2 ^ 35 + 0x82000 then Some (of_nat (pg v - 2 ^ 35)) else None)"

text \<open>What the linker and the loader provide: the allocator's memory starts at a page boundary behind the image, which has at most
  16 MiB, and static variables are zero.\<close>

definition power_on :: "image \<Rightarrow> nat \<Rightarrow> pt \<Rightarrow> bool" where
  "power_on im n st \<longleftrightarrow> unat (im_phys_base im) = 0x80000000 + 4096 * n \<and> n \<le> 4096
     \<and> (\<forall>i \<le> BUDDY_MAX_ORDER. free_lists (frames st) i = None) \<and> salloc_base st = 0 \<and> salloc_cursor st = 0"

lemma power_on_buddy:
  assumes "power_on im n st"
  shows "\<exists>fr. raw_buddy_init (im_phys_base im) (frames st) = Some fr \<and> buddy_inv fr \<and> free_pages fr = {n..<8191}"
proof -
  let ?b = "im_phys_base im"
  have b: "unat ?b = 0x80000000 + 4096 * n" "n \<le> 4096" and z: "\<forall>i \<le> BUDDY_MAX_ORDER. free_lists (frames st) i = None"
    using assms by (simp_all add: power_on_def)
  have "PHYS_MEM_START \<le> ?b" "?b < PHYS_MEM_END - PHYS_MEM_KERNEL_STACK_SIZE" using b by (simp_all add: word_le_nat_alt word_less_nat_alt)
  moreover from this have "unat (?b - PHYS_MEM_START) div 4096 = n" using b by (simp add: unat_sub_64 word_le_nat_alt)
  ultimately show ?thesis using raw_buddy_init_inv [OF z, of ?b] by auto
qed

text \<open>The image and everything below it keep their contents.\<close>

definition image_kept :: "nat \<Rightarrow> mem \<Rightarrow> mem \<Rightarrow> bool" where
  "image_kept n m m' \<longleftrightarrow> (\<forall>a. unat a < 0x80000000 + 4096 * n \<longrightarrow> m' a = m a)"

lemma inside_image:
  assumes "inside (block2ppn ` {n..<8191}) m st"
  shows "image_kept n m (pmem st)"
proof -
  have "drop_bit 12 a \<notin> block2ppn ` {n..<8191}" if a: "unat a < 0x80000000 + 4096 * n" for a
  proof
    assume "drop_bit 12 a \<in> block2ppn ` {n..<8191}"
    then obtain c where c: "n \<le> c" "c < NBLOCKS" "drop_bit 12 a = block2ppn c" by auto
    have "unat a div 4096 = 0x80000 + c" using arg_cong [OF c(3), of unat] block2ppn_unat [OF c(2)] by (simp add: unat_drop_bit_64)
    then show False using a c(1) by linarith
  qed
  then show ?thesis using assms by (auto simp: inside_def image_kept_def)
qed

lemma store_kept:
  assumes "unat b = 0x80000000 + 4096 * n" "n \<le> 4096"
  shows "image_kept n m (store64 m b v)"
proof -
  have "store64 m b v a = m a" if a: "unat a < 0x80000000 + 4096 * n" for a
  proof -
    have "a \<noteq> b + of_nat i" if "i < 8" for i
    proof
      assume "a = b + of_nat i"
      then have "unat a = unat b + i" using assms that by (simp add: unat_add_of_nat_64)
      then show False using a assms(1) by simp
    qed
    then show ?thesis by (simp add: store64_def store_le_other)
  qed
  then show ?thesis by (simp add: image_kept_def)
qed

lemma image_kept_trans: "image_kept n m m' \<Longrightarrow> image_kept n m' m'' \<Longrightarrow> image_kept n m m''"
  by (simp add: image_kept_def)

lemma memory_spec:
  assumes p: "power_on im n st" and fr: "raw_buddy_init (im_phys_base im) (frames st) = Some fr"
    and st: "frames st1 = fr" "layout st1 = buddy_layout_init (im_phys_base im)" "salloc_base st1 = 0" "salloc_cursor st1 = 0"
  shows "\<exists>st2 st3. pt_init st1 = Some (0, st2) \<and> pt_destroy_low_kvmas st2 = Some st3 \<and> vm_ready st3 \<and> lower_free st3
    \<and> (\<forall>v. sv48_translate (pmem st2) (csr_satp st2) v = (if pg v mod 2 ^ 35 < 0x82000 then Some (of_nat (pg v mod 2 ^ 35)) else None))
    \<and> is_paging_enabled st2 \<and> csr_satp st2 = ksatp st2
    \<and> csr_satp st3 = ksatp st3 \<and> (\<forall>v. sv48_translate (pmem st3) (ksatp st3) v = high_map v)
    \<and> image_kept n (pmem st1) (pmem st3) \<and> 60 < card (free_pages (frames st3)) \<and> layout st3 = layout st1"
proof -
  have b: "unat (im_phys_base im) = 0x80000000 + 4096 * n" "n \<le> 8191" using p by (simp_all add: power_on_def)
  have f: "buddy_inv (frames st1)" "free_pages (frames st1) = {n..<8191}" using power_on_buddy [OF p] fr st(1) by auto
  have "n \<le> 4096" using p by (simp add: power_on_def)
  then have "2302 < card (free_pages (frames st1))" by (simp add: f(2))
  then obtain st2 where s2: "pt_init st1 = Some (0, st2)" "kernel_mapped n st2" "layout st2 = layout st1" "60 < card (free_pages (frames st2))"
    "inside (block2ppn ` {n..<8191}) (pmem st1) st2"
    using pt_init_spec [OF f(1) st(3,4,2) b] unfolding f(2) by blast
  obtain st3 where s3: "pt_destroy_low_kvmas st2 = Some st3" "vm_ready st3" "lower_free st3" "ksatp st3 = ksatp st2" "csr_satp st3 = ksatp st2"
    "frames st3 = frames st2" "layout st3 = layout st2" "\<And>F m. inside F m st2 \<Longrightarrow> inside F m st3"
    "\<And>v. sv48_translate (pmem st3) (ksatp st3) v = (if 2 ^ 35 \<le> pg v \<and> pg v < 2 ^ 35 + 0x82000 then Some (of_nat (pg v - 2 ^ 35)) else None)"
    using destroy_low_spec [OF s2(2) b(2)] by blast
  have r: "is_paging_enabled st2" "csr_satp st2 = ksatp st2" using s2(2) by (auto simp: kernel_mapped_def vm_ready_def)
  have "sv48_translate (pmem st2) (csr_satp st2) v = (if pg v mod 2 ^ 35 < 0x82000 then Some (of_nat (pg v mod 2 ^ 35)) else None)" for v
    unfolding r(2) by (rule kernel_translate [OF s2(2) b(2)])
  then show ?thesis using s2 s3 r inside_image [OF s3(8) [OF s2(5)]] unfolding high_map_def by auto
qed

section \<open>The first process\<close>

lemma init_list_again:
  assumes "process_list k = process_list (proc_init_process_list a k0)" "proc_running k = 0" "processes_total k = 0"
  shows "proc_init_process_list a (k\<lparr>proc_running := 0, processes_total := 0\<rparr>) = k"
proof -
  have "process_list (proc_init_process_list a (k\<lparr>proc_running := 0, processes_total := 0\<rparr>)) = process_list k"
    unfolding fun_eq_iff using assms(1) by (simp add: proc_init_process_list_def Let_def upd_proc_def)
  then show ?thesis using assms(2,3) by (cases k) (simp add: proc_init_process_list_def Let_def upd_proc_def)
qed

lemma init_list_slot:
  assumes "process_list k = process_list (proc_init_process_list a k0)" "processes_total k = 0"
  shows "proc_find_free_process_slot k = int 1"
proof -
  have "p_status (process_list k 1) = PROCESS_FREE_SLOT" unfolding assms(1) by (simp add: proc_init_process_list_def Let_def upd_proc_def)
  then have "find_slot_loop 1 k = 1" by (subst find_slot_loop.simps) simp
  then show ?thesis using assms(2) by (simp add: proc_find_free_process_slot_def)
qed

definition first_process :: "elf_simple \<Rightarrow> trap_frame \<Rightarrow> kernel \<Rightarrow> bool" where
  "first_process e f k \<longleftrightarrow> reachable k \<and> proc_running k = 1 \<and> run_queue k = [] \<and> vm_ready (vm k)
     \<and> (let p = process_list k 1
        in f = zero_frame\<lparr>tf_sp := vpn2virt USER_STACK_BASE_VPN + PAGE_SIZE, tf_satp := p_satp p, tf_sepc := e_entry e\<rparr>
           \<and> csr_satp (vm k) = p_satp p \<and> (\<forall>v. sv48_translate (pmem (vm k)) (p_satp p) v = high_map v)
           \<and> (\<exists>text stack. area_list (vm k) (p_uvmas p) [node_of text, node_of stack]
                \<and> vma_at (vm k) text = \<lparr>v_vpn = drop_bit PAGE_SHIFT (virtual_load e), v_pagen = text_pages_needed (size_load e), v_flags = 0x4d\<rparr>
                \<and> vma_at (vm k) stack = \<lparr>v_vpn = USER_STACK_BASE_VPN, v_pagen = STACK_PAGES, v_flags = 0x4d\<rparr>))"

lemma low_unmapped: "idx v 0 = 0 \<Longrightarrow> high_map v = None"
proof -
  assume "idx v 0 = 0"
  then have "unat (idx v 0) = 0" by simp
  moreover have "unat (idx v 0) = pg v div 2 ^ 27" unfolding vpn2vpnlevel_def
    by (simp add: mask_9 unat_and_mask_64 unat_drop_bit_64 mod_mult2_eq [of "unat v" "2 ^ 27" "2 ^ 9", simplified])
  ultimately have "pg v < 2 ^ 27" by (simp add: div_eq_0_iff)
  then have "\<not> 2 ^ 35 \<le> pg v" by simp
  then show ?thesis unfolding high_map_def by (simp only: simp_thms if_False)
qed

lemma start_first:
  assumes l: "process_list k = process_list (proc_init_process_list a k0)" "proc_running k = 0" "processes_total k = 0"
    and r: "vm_ready (vm k)" "\<And>v. sv48_translate (pmem (vm k)) (ksatp (vm k)) v = high_map v" "3 < card (free_pages (frames (vm k)))"
  shows "\<exists>f k'. proc_run_process ptr 0 k = Some (Inr f, k') \<and> first_process (elf (snd (parse_elf (kmem (vm k)) ptr))) f k'"
proof -
  define e where "e = snd (parse_elf (kmem (vm k)) ptr)"
  have "1 < MAX_PROCESSES" by simp
  note R = run_process_spec [OF r(1) init_list_slot [OF l(1,3)] this e_def, of 0]
  obtain k' where run: "proc_run_process ptr 0 k =
           Some (Inr (zero_frame\<lparr>tf_a3 := 0, tf_sp := vpn2virt USER_STACK_BASE_VPN + PAGE_SIZE,
             tf_satp := p_satp (process_list k' 1), tf_sepc := e_entry (elf e)\<rparr>), k')"
    and n: "new_process 1 (elf e) k k'" "started 1 k k'" using R r(3) by (elim disjE exE conjE) (simp, blast)
  have rc: "reachable k'" by (rule reachable.boot [where ptr = ptr and a = a and k = k]) (simp only: init_list_again [OF l] run)
  have one: "proc_running k' = 1" using n(2) by (simp add: started_def)
  have "run_queue k' = []"
  proof -
    have "processes_total k' = 1" using n(2) l(3) by (simp add: started_def)
    then show ?thesis using reachable_inv [OF rc] by (simp add: sched_inv_def)
  qed
  moreover have "sv48_translate (pmem (vm k')) (p_satp (process_list k' 1)) v = high_map v" for v
    using n(1) r(2) low_unmapped [of v] by (simp add: new_process_def fresh_space_def Let_def)
  moreover have z: "zero_frame\<lparr>tf_a3 := 0\<rparr> = zero_frame" by (simp add: zero_frame_def)
  ultimately have "first_process (elf e) (zero_frame\<lparr>tf_sp := vpn2virt USER_STACK_BASE_VPN + PAGE_SIZE,
      tf_satp := p_satp (process_list k' 1), tf_sepc := e_entry (elf e)\<rparr>) k'"
    using n(1) rc one unfolding first_process_def new_process_def Let_def by blast
  then show ?thesis using run unfolding z e_def by blast
qed

section \<open>The stack\<close>

text \<open>\<open>stack_reserved\<close>: the stack is in the page that the allocator keeps free for it.\<close>

definition stack_reserved :: "kernel \<Rightarrow> bool" where
  "stack_reserved k \<longleftrightarrow> PHYS_MEM_END - PHYS_MEM_KERNEL_STACK_SIZE \<le> kreg (mach k) ''sp'' - 8
     \<and> kreg (mach k) ''sp'' - 8 < PHYS_MEM_END"

lemma stack_page:
  assumes "unat a = 0x81fff000 + i" "i < 4096"
  shows "pg (virt2vpn a) = 0x81fff" "pg (virt2vpn (a + 0xffff800000000000)) = 2 ^ 35 + 0x81fff"
proof -
  show "pg (virt2vpn a) = 0x81fff" using assms by (simp add: phys2ppn_pt_def unat_drop_bit_64)
  have "unat (a + 0xffff800000000000) = 4096 * 0xffff800081fff + i" using assms by (subst unat_add_64) simp_all
  then have "unat (virt2vpn (a + 0xffff800000000000)) = (4096 * 0xffff800081fff + i) div 4096"
    unfolding phys2ppn_pt_def unat_drop_bit_64 by simp
  also have "\<dots> = 0xffff800081fff" using assms(2) by simp
  finally show "pg (virt2vpn (a + 0xffff800000000000)) = 2 ^ 35 + 0x81fff" by simp
qed

lemma jump_sp: "kreg (mach (pt_jump_to_high im k)) ''sp'' = kreg (mach k) ''sp'' + 0xffff800000000000"
  by (simp add: pt_jump_to_high_def upd_mach_def Let_def)

lemma stack_mapped_pages:
  assumes "is_paging_enabled (vm k)" "csr_satp (vm k) = ksatp (vm k)"
  shows "stack_mapped k \<longleftrightarrow> sv48_translate (pmem (vm k)) (csr_satp (vm k)) (virt2vpn (kreg (mach k) ''sp'' - 8)) \<noteq> None"
proof -
  have "drop_bit SATP_MODE_SHIFT (csr_satp (vm k)) \<noteq> SATP_MODE_BARE"
    using assms(1) unfolding is_paging_enabled_def assms(2) by auto
  then show ?thesis by (simp add: stack_mapped_def)
qed

lemma reserved_pages:
  assumes "stack_reserved k"
  shows "pg (virt2vpn (kreg (mach k) ''sp'' - 8)) = 0x81fff"
    "pg (virt2vpn (kreg (mach k) ''sp'' + 0xffff800000000000 - 8)) = 2 ^ 35 + 0x81fff"
proof -
  define a where "a = kreg (mach k) ''sp'' - 8"
  have "0x81fff000 \<le> unat a" "unat a < 0x82000000" using assms by (simp_all add: stack_reserved_def a_def word_le_nat_alt word_less_nat_alt)
  then have u: "unat a = 0x81fff000 + (unat a - 0x81fff000)" "unat a - 0x81fff000 < 4096" by simp_all
  have "kreg (mach k) ''sp'' + 0xffff800000000000 - 8 = a + 0xffff800000000000" by (simp add: a_def)
  then show "pg (virt2vpn (kreg (mach k) ''sp'' - 8)) = 0x81fff"
    "pg (virt2vpn (kreg (mach k) ''sp'' + 0xffff800000000000 - 8)) = 2 ^ 35 + 0x81fff"
    using stack_page [OF u] by (simp_all only: a_def)
qed

section \<open>\<open>main\<close>\<close>

lemma jump_keeps: "\<exists>r t. pt_jump_to_high im k = k\<lparr>mach := (mach k)\<lparr>kreg := r, csr_stvec := t\<rparr>\<rparr>"
  by (auto simp: pt_jump_to_high_def upd_mach_def Let_def)

text \<open>The part of \<open>main\<close> before the timer is set up.\<close>

lemma main_prepare:
  assumes p: "power_on im n (vm k)" and t: "time_ok k"
  shows "\<exists>k1 v k2. kprintstr YAK_LOGO k \<bind> (\<lambda>k. buddy_init im k \<bind> in_vm pt_init) = Some (0, k1)
    \<and> pt_destroy_low_kvmas (vm (pt_jump_to_high im k1)) = Some v
    \<and> k2 = set_sscratch (proc_init_process_list (im_ksatp im + VIRT_MEM_KERNEL_BASE) ((pt_jump_to_high im k1)\<lparr>vm := v\<rparr>))
    \<and> vm k2 = v \<and> vm_ready v \<and> lower_free v \<and> (\<forall>x. sv48_translate (pmem v) (ksatp v) x = high_map x)
    \<and> image_kept n (pmem (vm k)) (pmem v) \<and> 3 < card (free_pages (frames v)) \<and> time_ok k2
    \<and> process_list k2 = process_list (proc_init_process_list (im_ksatp im + VIRT_MEM_KERNEL_BASE) k)
    \<and> proc_running k2 = proc_running k \<and> processes_total k2 = processes_total k \<and> sym_testing (mach k2) = sym_testing (mach k)
    \<and> kreg (mach k1) = kreg (mach k) \<and> (stack_mapped k1 \<longleftrightarrow> pg (virt2vpn (kreg (mach k) ''sp'' - 8)) mod 2 ^ 35 < 0x82000)
    \<and> (stack_reserved k \<longrightarrow> stack_mapped (pt_jump_to_high im k1) \<and> stack_mapped ((pt_jump_to_high im k1)\<lparr>vm := v\<rparr>))"
proof -
  have "length YAK_LOGO < 2 ^ 32" by (simp add: YAK_LOGO_def)
  then obtain ka where ka: "kprintstr YAK_LOGO k = Some ka" "prints k ka" using kprintstr_prints by blast
  obtain xs where xs: "ka = k\<lparr>vm := (vm k)\<lparr>console := xs\<rparr>\<rparr>" using ka(2) by (auto simp: prints_def)
  obtain fr where fr: "raw_buddy_init (im_phys_base im) (frames (vm k)) = Some fr" using power_on_buddy [OF p] by blast
  then obtain kb where kb: "buddy_init im ka = Some kb" "prints (with_memory im fr ka) kb" using buddy_init_spec [of im ka fr] by (auto simp: xs)
  let ?m = "store64 (pmem (vm k)) (im_phys_base im) (im_phys_base im)"
  obtain ys where kb': "kb = k\<lparr>vm := (vm k)\<lparr>pmem := ?m, frames := fr, layout := buddy_layout_init (im_phys_base im), console := ys\<rparr>\<rparr>"
    using kb(2) by (auto simp: prints_def with_memory_def upd_vm_def xs)
  obtain st2 st3 where m: "pt_init (vm kb) = Some (0, st2)" "pt_destroy_low_kvmas st2 = Some st3" "vm_ready st3" "lower_free st3"
    "\<forall>v. sv48_translate (pmem st3) (ksatp st3) v = high_map v" "image_kept n (pmem (vm kb)) (pmem st3)" "60 < card (free_pages (frames st3))"
    and tr: "\<And>v. sv48_translate (pmem st2) (csr_satp st2) v = (if pg v mod 2 ^ 35 < 0x82000 then Some (of_nat (pg v mod 2 ^ 35)) else None)"
      "is_paging_enabled st2" "csr_satp st2 = ksatp st2" "csr_satp st3 = ksatp st3"
    using memory_spec [OF p fr, of "vm kb"] p by (auto simp: kb' power_on_def)
  define k1 where "k1 = kb\<lparr>vm := st2\<rparr>"
  obtain r u where j: "pt_jump_to_high im k1 = k1\<lparr>mach := (mach k1)\<lparr>kreg := r, csr_stvec := u\<rparr>\<rparr>" using jump_keeps by blast
  note j' = j [unfolded k1_def]
  define k2 where "k2 = set_sscratch (proc_init_process_list (im_ksatp im + VIRT_MEM_KERNEL_BASE) ((pt_jump_to_high im k1)\<lparr>vm := st3\<rparr>))"
  have "kprintstr YAK_LOGO k \<bind> (\<lambda>k. buddy_init im k \<bind> in_vm pt_init) = Some (0, k1)"
    using ka(1) kb(1) m(1) by (simp add: in_vm_def k1_def)
  moreover have "pt_destroy_low_kvmas (vm (pt_jump_to_high im k1)) = Some st3" using m(2) by (simp add: k1_def j')
  moreover have "vm k2 = st3" "proc_running k2 = proc_running k" "processes_total k2 = processes_total k" "sym_testing (mach k2) = sym_testing (mach k)"
    "mtime (mach k2) = mtime (mach k)"
    by (simp_all add: k2_def set_sscratch_def proc_init_process_list_def upd_proc_def upd_mach_def Let_def k1_def j') (simp_all add: kb')
  moreover have "process_list k2 = process_list (proc_init_process_list (im_ksatp im + VIRT_MEM_KERNEL_BASE) k)"
    by (simp add: k2_def set_sscratch_def proc_init_process_list_def upd_proc_def upd_mach_def Let_def k1_def j' cong: if_cong) (simp add: kb' cong: if_cong)
  moreover have "image_kept n (pmem (vm k)) (pmem st3)"
  proof (rule image_kept_trans)
    show "image_kept n (pmem (vm k)) ?m" using p by (intro store_kept) (simp_all add: power_on_def)
    show "image_kept n ?m (pmem st3)" using m(6) by (simp add: kb')
  qed
  moreover have "time_ok k2" using t \<open>mtime (mach k2) = mtime (mach k)\<close> by (simp add: time_ok_def)
  moreover have "3 < card (free_pages (frames st3))" using m(7) by simp
  moreover have kr: "vm k1 = st2" "kreg (mach k1) = kreg (mach k)" by (simp_all add: k1_def kb')
  then have "stack_mapped k1 \<longleftrightarrow> pg (virt2vpn (kreg (mach k) ''sp'' - 8)) mod 2 ^ 35 < 0x82000"
    using stack_mapped_pages [of k1] tr by simp
  moreover have "stack_mapped (pt_jump_to_high im k1) \<and> stack_mapped ((pt_jump_to_high im k1)\<lparr>vm := st3\<rparr>)" if s: "stack_reserved k"
  proof -
    let ?k = "pt_jump_to_high im k1"
    have sp: "kreg (mach ?k) ''sp'' = kreg (mach k) ''sp'' + 0xffff800000000000" by (simp only: jump_sp kr(2))
    have v: "vm ?k = st2" by (simp add: j' k1_def)
    have "stack_mapped ?k" using stack_mapped_pages [of ?k] tr(2,3) unfolding v sp tr(1) reserved_pages(2) [OF s] by simp
    moreover have "stack_mapped (?k\<lparr>vm := st3\<rparr>)"
      using stack_mapped_pages [of "?k\<lparr>vm := st3\<rparr>"] m(3,5) tr(4) reserved_pages(2) [OF s] by (simp add: sp high_map_def vm_ready_def)
    ultimately show ?thesis by blast
  qed
  ultimately show ?thesis using m(3-5) k2_def kr(2)
    by (intro exI [of _ k1] exI [of _ st3] exI [of _ k2] conjI impI) (assumption | blast)+
qed

lemma main_spec:
  assumes p: "power_on im n (vm k)" and t: "time_ok k" and z: "proc_running k = 0" "processes_total k = 0" and sr: "stack_reserved k"
  shows "\<exists>f k' m. main im k = Some (Resumes f, k') \<and> image_kept n (pmem (vm k)) m
    \<and> first_process (elf (snd (parse_elf (\<lambda>a. m (a - VIRT_MEM_KERNEL_BASE)) (sym_testing (mach k))))) f k'"
proof -
  obtain k1 v k2 where a: "kprintstr YAK_LOGO k \<bind> (\<lambda>k. buddy_init im k \<bind> in_vm pt_init) = Some (0, k1)"
    "pt_destroy_low_kvmas (vm (pt_jump_to_high im k1)) = Some v"
    "k2 = set_sscratch (proc_init_process_list (im_ksatp im + VIRT_MEM_KERNEL_BASE) ((pt_jump_to_high im k1)\<lparr>vm := v\<rparr>))"
    "vm k2 = v" "vm_ready v" "\<forall>x. sv48_translate (pmem v) (ksatp v) x = high_map x" "image_kept n (pmem (vm k)) (pmem v)"
    "3 < card (free_pages (frames v))" "time_ok k2" "process_list k2 = process_list (proc_init_process_list (im_ksatp im + VIRT_MEM_KERNEL_BASE) k)"
    "proc_running k2 = proc_running k" "processes_total k2 = processes_total k" "sym_testing (mach k2) = sym_testing (mach k)"
    and st: "stack_mapped k1 \<longleftrightarrow> pg (virt2vpn (kreg (mach k) ''sp'' - 8)) mod 2 ^ 35 < 0x82000"
      "stack_reserved k \<longrightarrow> stack_mapped (pt_jump_to_high im k1) \<and> stack_mapped ((pt_jump_to_high im k1)\<lparr>vm := v\<rparr>)"
    using main_prepare [OF p t] by blast
  have st1: "stack_mapped k1" unfolding st(1) reserved_pages(1) [OF sr] by simp
  obtain k3 where k3: "ecall_timer_setup k2 = Some (Returns, k3)" "keeps k2 k3" "same_traps k2 k3" using timer_setup_spec [OF a(9)] by blast
  let ?s = "''Starting testing process...: '' @ [CHR 0x0A]"
  obtain k4 where k4: "kprintstr ?s k3 = Some k4" "prints k3 k4" using kprintstr_prints [of ?s k3] by auto
  obtain c x where vm4: "vm k4 = v\<lparr>csr_sstatus := c, console := x\<rparr>" using k4(2) k3(3) a(4) by (auto simp: prints_def same_traps_def)
  have e: "process_list k4 = process_list k2" "proc_running k4 = 0" "processes_total k4 = 0" "sym_testing (mach k4) = sym_testing (mach k)"
    using k4(2) k3(2,3) a(11-13) z by (auto simp: prints_def keeps_def same_traps_def)
  have l: "process_list k4 = process_list (proc_init_process_list (im_ksatp im + VIRT_MEM_KERNEL_BASE) k)" using e(1) a(10) by simp
  have q: "quiet v (vm k4)" by (rule quiet_same) (simp_all add: vm4)
  have "salloc_inv (vm k4)" using a(5) by (simp add: vm4 vm_ready_def salloc_inv_def cong: if_cong)
  then have ready: "vm_ready (vm k4)" by (rule ready_quiet [OF a(5) q])
  have tr: "sv48_translate (pmem (vm k4)) (ksatp (vm k4)) x = high_map x" for x using a(6) by (simp add: vm4)
  have "3 < card (free_pages (frames (vm k4)))" using a(8) by (simp add: vm4)
  from start_first [OF l e(2,3) ready tr this] obtain f k' where
    f: "proc_run_process (sym_testing (mach k4)) 0 k4 = Some (Inr f, k')" "first_process (elf (snd (parse_elf (kmem (vm k4)) (sym_testing (mach k4))))) f k'"
    by blast
  have "kmem (vm k4) = (\<lambda>a. pmem v (a - VIRT_MEM_KERNEL_BASE))" using ready by (simp add: kmem_def kaddr_def vm_ready_def vm4 fun_eq_iff)
  moreover have "main im k = Some (Resumes f, k')"
  proof -
    obtain ka kb where "kprintstr YAK_LOGO k = Some ka" "buddy_init im ka = Some kb" "in_vm pt_init kb = Some (0, k1)"
      using a(1) by (auto split: bind_splits)
    then show ?thesis using a(2) k3(1) k4(1) f(1) a(3) st1 st(2) sr by (simp add: main_def seq_def Let_def ensure_def)
  qed
  ultimately show ?thesis using f(2) a(7) e(4) by auto
qed

text \<open>From the entry point of \<^verbatim>\<open>stack.S\<close> the stack pointer is 512 MiB above the start of memory.\<close>

lemma start_fields:
  "kreg (mach (start_hart im k)) ''sp'' = 0xA0000000" "frames (vm (start_hart im k)) = frames (vm k)"
  "salloc_base (vm (start_hart im k)) = salloc_base (vm k)" "salloc_cursor (vm (start_hart im k)) = salloc_cursor (vm k)"
  "mtime (mach (start_hart im k)) = mtime (mach k)"
  by (simp_all add: start_hart_def entry_regs_def write_mstatus_def upd_mach_def upd_vm_def Let_def)

lemma main_stuck:
  assumes p: "power_on im n (vm k)" and t: "time_ok k" and sp: "kreg (mach k) ''sp'' = 0xA0000000"
  shows "main im k = None \<and> (\<exists>k1. kprintstr YAK_LOGO k \<bind> (\<lambda>k. buddy_init im k \<bind> in_vm pt_init) = Some (0, k1)
    \<and> kreg (mach k1) ''sp'' = 0xA0000000 \<and> \<not> stack_mapped k1)"
proof -
  obtain k1 where a: "kprintstr YAK_LOGO k \<bind> (\<lambda>k. buddy_init im k \<bind> in_vm pt_init) = Some (0, k1)"
    "stack_mapped k1 \<longleftrightarrow> pg (virt2vpn (kreg (mach k) ''sp'' - 8)) mod 2 ^ 35 < 0x82000" "kreg (mach k1) = kreg (mach k)"
    using main_prepare [OF p t] by blast
  then have n: "\<not> stack_mapped k1" unfolding a(2) sp by (simp add: phys2ppn_pt_def)
  obtain ka kb where "kprintstr YAK_LOGO k = Some ka" "buddy_init im ka = Some kb" "in_vm pt_init kb = Some (0, k1)"
    using a(1) by (auto split: bind_splits)
  then have "main im k = None" using n by (simp add: main_def ensure_def)
  then show ?thesis using a(1,3) n sp by simp
qed

end
