(* ===== verification/Boot_Props.thy ===== *)
theory Boot_Props
  imports Boot_Main
begin

text \<open>
  The properties of booting: identity areas, the kernel's address space after \<open>pt_init\<close> and after the low
  areas are gone, \<open>main\<close> as a whole, and the stack it is entered with.
\<close>

unbundle bit_operations_syntax

section \<open>Identity areas\<close>

text \<open>(C7) Creating an area with \<open>VMA_IDENTITY\<close> in an empty part of an address space, with enough free pages for
  its tables, terminates and succeeds: the loop of \<open>__pt_vma_new\<close> covers the area with pages of all sizes, and the
  processor translates the page at offset \<open>i\<close> of the area to the physical page \<open>ppn + i\<close>. The page tables stay well-formed
  and no other address changes its translation. The physical start must be aligned like the virtual one.\<close>
theorem identity_area_mapped:
  assumes "pt_inv satp st" "is_node_init (node_of out) (vm_nodes st)" "vma = \<lparr>v_vpn = vpn, v_pagen = pagen, v_flags = flags\<rparr>" "id_area vma"
    and "clear_range (pmem st) (root_of satp) (area_lo vma) (area_hi vma)"
    and "unat pagen div 512 + unat pagen div 512 ^ 2 + unat pagen div 512 ^ 3 + 6 < card (free_pages (frames st))"
    and "unat ppn + unat pagen \<le> 2 ^ 44" "unat ppn mod 512 ^ 3 = unat vpn mod 512 ^ 3"
  shows "\<exists>st'. raw_pt_vma_new satp vpn ppn pagen flags out st = Some (0, st') \<and> pt_inv satp st'
    \<and> (\<forall>v. sv48_translate (pmem st') satp v =
         (if area_lo vma \<le> unat v mod 2 ^ 36 \<and> unat v mod 2 ^ 36 < area_hi vma
          then Some (ppn + of_nat (unat v mod 2 ^ 36 - area_lo vma)) else sv48_translate (pmem st) satp v))"
proof -
  have room: "card (area_tables (area_lo vma) (area_hi vma)) < card (free_pages (frames st))"
    using card_area_tables [of "area_lo vma" "unat (v_pagen vma)"] assms(3,6) by simp
  obtain st' where r: "raw_pt_vma_new satp vpn ppn pagen flags out st = Some (0, st')"
    and g: "id_progress satp vma ppn (st\<lparr>vm_vpn := (vm_vpn st)(out := vpn), vm_pagen := (vm_pagen st)(out := pagen), vm_flags := (vm_flags st)(out := flags)\<rparr>)
      (unat (v_pagen vma)) st'"
    using id_area_clear [OF assms(1,2) assms(4) [unfolded assms(3)] room [unfolded assms(3)] assms(5) [unfolded assms(3)], of ppn,
        folded assms(3)] by blast
  from g have "pt_inv satp st'" "mapped_to (pmem st') (root_of satp) vma ppn (unat (v_pagen vma))"
    "same_outside (pmem st) (pmem st') (root_of satp) (area_lo vma) (area_hi vma)"
    unfolding id_progress_def by simp_all
  note st' = r this
  have "unat vpn mod 512 ^ 3 = area_lo vma mod 512 ^ 3" using assms(3) by (simp add: mod_mod_cancel)
  then have tr: "sv48_translate (pmem st') satp v = Some (ppn + of_nat (pg v - area_lo vma))" if "area_lo vma \<le> pg v" "pg v < area_hi vma" for v
    using assms(3,7,8) by (intro id_translate [OF st'(2,3) assms(4) _ _ that]) simp_all
  have "sv48_translate (pmem st') satp v = sv48_translate (pmem st) satp v" if "\<not> (area_lo vma \<le> pg v \<and> pg v < area_hi vma)" for v
    using st'(4) that assms(1) st'(2) unfolding same_outside_def pt_inv_def by (intro translate_cong) blast+
  then show ?thesis using st'(1,2) tr by auto
qed

definition space_ex :: "buddy \<Rightarrow> pt" where
  "space_ex fr = pt_ex\<lparr>frames := fr, vm_nodes := node_init (node_of 0x1000) (vm_nodes pt_ex)\<rparr>"

lemma space_ex_inv:
  assumes "raw_buddy_init 0x80200000 used_state = Some fr"
  shows "pt_inv satp_ex (space_ex fr)" "7679 \<le> card (free_pages (frames (space_ex fr)))" "clear_range (pmem (space_ex fr)) root lo hi"
proof -
  have fr: "buddy_inv fr" "free_pages fr = {512..<8191}"
    using assms raw_buddy_init_inv [of used_state "0x80200000"] by (auto simp: used_state_def word_le_nat_alt word_less_nat_alt)
  have "live_page fr (block2ppn 2)" by (auto simp: live_page_def fr(2) intro!: exI [of _ 2])
  from empty_root [OF fr(1) this] show "pt_inv satp_ex (space_ex fr)" by (simp add: space_ex_def pt_inv_def)
  show "7679 \<le> card (free_pages (frames (space_ex fr)))" by (simp add: space_ex_def fr(2))
  have m: "pmem (space_ex fr) = (\<lambda>_. 0)" by (simp add: space_ex_def pt_ex_def)
  have z: "\<And>i. unat i < 512 \<Longrightarrow> entry (pmem (space_ex fr)) root i = 0" unfolding m by (rule entry_zero)
  have l: "\<not> leaf_at (pmem (space_ex fr)) root v d x" for v d x using pt_ex_leaf by (simp add: space_ex_def)
  then show "clear_range (pmem (space_ex fr)) root lo hi" by (simp add: clear_range_def zero_root(2) [OF z])
qed

theorem identity_area_mapped_witness:
  "\<exists>st st'. pt_inv satp_ex st \<and> raw_pt_vma_new satp_ex 0x80000 0x80000 0x400 0x25 0x1000 st = Some (0, st')
     \<and> sv48_translate (pmem st') satp_ex 0x80123 = Some 0x80123"
proof -
  obtain fr where fr: "raw_buddy_init 0x80200000 used_state = Some fr" using init_ex by blast
  note s = space_ex_inv [OF fr]
  let ?vma = "\<lparr>v_vpn = 0x80000, v_pagen = 0x400, v_flags = 0x25\<rparr>"
  have "is_node_init (node_of 0x1000) (vm_nodes (space_ex fr))" by (simp add: space_ex_def is_node_init_def node_init_def)
  moreover have "id_area ?vma" by (simp add: id_area_def)
  ultimately obtain st' where st': "raw_pt_vma_new satp_ex 0x80000 0x80000 0x400 0x25 0x1000 (space_ex fr) = Some (0, st')"
    "\<forall>v. sv48_translate (pmem st') satp_ex v =
         (if area_lo ?vma \<le> unat v mod 2 ^ 36 \<and> unat v mod 2 ^ 36 < area_hi ?vma
          then Some (0x80000 + of_nat (unat v mod 2 ^ 36 - area_lo ?vma)) else sv48_translate (pmem (space_ex fr)) satp_ex v)"
    using identity_area_mapped [OF s(1) _ refl _ s(3), of "0x1000" "0x80000" "0x400" "0x25" "0x80000"] s(2) by auto
  have "sv48_translate (pmem st') satp_ex 0x80123 = Some 0x80123" using spec [OF st'(2), of "0x80123"] by simp
  then show ?thesis using s(1) st'(1) by blast
qed

section \<open>The kernel's address space\<close>

text \<open>(C23) \<open>pt_init\<close> succeeds whenever enough pages are free. Paging is on with a well-formed page table, and the
  processor translates every page of devices, image, memory and stack, both at its physical address and in the kernel's
  half, to itself; everything else is unmapped. The eight areas are on the kernel's list, which has moved to high addresses.\<close>
theorem pt_init_maps_memory:
  assumes "buddy_inv (frames st)" "salloc_base st = 0" "salloc_cursor st = 0"
    and "layout st = buddy_layout_init base" "unat base = 0x80000000 + 4096 * k" "k \<le> 8191" "2302 < card (free_pages (frames st))"
  shows "\<exists>st' xs. pt_init st = Some (0, st') \<and> vm_ready st' \<and> csr_satp st' = ksatp st'
    \<and> (\<forall>v. sv48_translate (pmem st') (ksatp st') v = (if unat v mod 2 ^ 35 < 0x82000 then Some (of_nat (unat v mod 2 ^ 35)) else None))
    \<and> area_list st' (kvmas_head st') xs \<and> length xs = 8"
proof -
  obtain st' where st': "pt_init st = Some (0, st')" "kernel_mapped k st'" using pt_init_spec [OF assms] by blast
  obtain xs where xs: "area_list st' (kvmas_head st') xs" "map (vma_at st' \<circ> vma_of) xs = map fst (concat (map region (regions k)))"
    and r: "vm_ready st'" "csr_satp st' = ksatp st'" using st'(2) by (auto simp: kernel_mapped_def)
  have "length xs = 8" using arg_cong [OF xs(2), of length] by (simp add: regions_def region_def)
  moreover have "pg v mod 2 ^ 35 = unat v mod 2 ^ 35" for v by (rule mod_mod_cancel) simp
  ultimately show ?thesis using st'(1) xs(1) r kernel_translate [OF st'(2) assms(6)] by metis
qed

definition init_pt_ex :: "buddy \<Rightarrow> pt" where
  "init_pt_ex fr = pt_ex\<lparr>frames := fr\<rparr>"

theorem pt_init_maps_memory_witness:
  "\<exists>fr st'. raw_buddy_init 0x80200000 used_state = Some fr \<and> pt_init (init_pt_ex fr) = Some (0, st')
     \<and> sv48_translate (pmem st') (ksatp st') 0xffff800080123 = Some 0x80123"
proof -
  obtain fr where fr: "raw_buddy_init 0x80200000 used_state = Some fr" using init_ex by blast
  have f: "buddy_inv fr" "free_pages fr = {512..<8191}"
    using fr raw_buddy_init_inv [of used_state "0x80200000"] by (auto simp: used_state_def word_le_nat_alt word_less_nat_alt)
  have "\<exists>st'. pt_init (init_pt_ex fr) = Some (0, st') \<and> sv48_translate (pmem st') (ksatp st') 0xffff800080123 = Some 0x80123"
    using pt_init_maps_memory [of "init_pt_ex fr" "0x80200000" 512] f by (auto simp: init_pt_ex_def pt_ex_def)
  then show ?thesis using fr by blast
qed

text \<open>(C6) The state the kernel runs in. After \<open>__buddy_init\<close>, \<open>pt_init\<close> and \<open>pt_destroy_low_kvmas\<close> the page tables and the
  allocators are well-formed, there is nothing in the lower half, where processes will have their tables, and exactly
  physical memory is mapped in the upper half. The image of the kernel is unchanged.\<close>
theorem kernel_space_ready:
  assumes "power_on im n st" "raw_buddy_init (im_phys_base im) (frames st) = Some fr"
    and "st1 = st\<lparr>frames := fr, layout := buddy_layout_init (im_phys_base im)\<rparr>"
  shows "\<exists>st2 st3. pt_init st1 = Some (0, st2) \<and> pt_destroy_low_kvmas st2 = Some st3 \<and> vm_ready st3 \<and> lower_free st3
    \<and> csr_satp st3 = ksatp st3 \<and> image_kept n (pmem st) (pmem st3)
    \<and> (\<forall>v. sv48_translate (pmem st3) (ksatp st3) v =
         (if 2 ^ 35 \<le> unat v mod 2 ^ 36 \<and> unat v mod 2 ^ 36 < 2 ^ 35 + 0x82000 then Some (of_nat (unat v mod 2 ^ 36 - 2 ^ 35)) else None))"
  using memory_spec [OF assms(1,2), of st1] assms(1) unfolding assms(3) high_map_def power_on_def by auto

definition image_ex :: image where
  "image_ex = \<lparr>im_phys_base = 0x80200000, im_free_lists = 0x80100000, im_blocks = 0x80110000, im_trap_handler_s = 0x80001000, im_trap_handler = 0x80001200, im_main = 0x80001400,
     im_jump = 0x80002000, im_ksatp = 0x80100800\<rparr>"

definition cold_ex :: kernel where
  "cold_ex = kernel_ex\<lparr>vm := pt_ex\<lparr>frames := used_state\<rparr>, proc_running := 0, processes_total := 0\<rparr>"

lemma power_on_ex: "power_on image_ex 512 (vm cold_ex)"
  by (simp add: power_on_def image_ex_def cold_ex_def used_state_def) (simp add: pt_ex_def)

theorem kernel_space_ready_witness:
  "\<exists>st1 st2 st3. pt_init st1 = Some (0, st2) \<and> pt_destroy_low_kvmas st2 = Some st3 \<and> vm_ready st3 \<and> lower_free st3"
proof -
  obtain fr where "raw_buddy_init (im_phys_base image_ex) (frames (vm cold_ex)) = Some fr" using power_on_buddy [OF power_on_ex] by blast
  from kernel_space_ready [OF power_on_ex this refl] show ?thesis by blast
qed

section \<open>The boot sequence\<close>

definition ready_ex :: kernel where
  "ready_ex = cold_ex\<lparr>mach := (mach cold_ex)\<lparr>kreg := (\<lambda>_. 0)(''sp'' := 0x82000000)\<rparr>\<rparr>"

text \<open>(C2) With the stack in the page that \<^verbatim>\<open>buddy.c\<close> reserves for it at the end of memory, \<open>main\<close> reaches user mode:
  it ends by entering the first process, in slot 1, at the entry point of the ELF file in the image, with a fresh
  stack pointer. The kernel is then in a reachable state of the system, its address space and the process's
  are well-formed, the process sees the kernel's half and nothing else mapped, and its areas are the loaded segment
  and the stack. (The stack pointer that \<^verbatim>\<open>stack.S\<close> sets is not in that page.)\<close>
theorem main_boots:
  assumes "power_on im n (vm k)" "time_ok k" "proc_running k = 0" "processes_total k = 0" "stack_reserved k"
  shows "\<exists>f k' m. main im k = Some (Resumes f, k') \<and> image_kept n (pmem (vm k)) m
    \<and> first_process (elf (snd (parse_elf (\<lambda>a. m (a - VIRT_MEM_KERNEL_BASE)) (sym_testing (mach k))))) f k'"
  by (rule main_spec [OF assms])

theorem main_boots_witness: "\<exists>f k'. main image_ex ready_ex = Some (Resumes f, k') \<and> reachable k' \<and> proc_running k' = 1"
proof -
  have r: "proc_running ready_ex = 0" "processes_total ready_ex = 0" "stack_reserved ready_ex"
    by (simp_all add: ready_ex_def cold_ex_def kernel_ex_def stack_reserved_def)
  have t: "time_ok ready_ex" by (simp add: ready_ex_def cold_ex_def kernel_ex_def time_ok_def)
  have p: "power_on image_ex 512 (vm ready_ex)" using power_on_ex by (simp add: ready_ex_def)
  from main_boots [OF p t r] show ?thesis by (auto simp: first_process_def)
qed

text \<open>(C24) The kernel as it is configured does not boot. \<open>_entry\<close> places the stack 512 MiB above the start of memory, while the
  kernel maps the 32 MiB of \<open>PHYS_MEM_SIZE\<close>: \<open>pt_init\<close> reports success, but after it has switched paging on the
  page of the stack is unmapped, so it cannot return to \<open>main\<close>.\<close>
theorem entry_stack_unmapped:
  assumes "power_on im n (vm k)" "time_ok k"
  shows "main im (start_hart im k) = None
    \<and> (\<exists>k1. kprintstr YAK_LOGO (start_hart im k) \<bind> (\<lambda>k. buddy_init im k \<bind> in_vm pt_init) = Some (0, k1)
      \<and> kreg (mach k1) ''sp'' = 0xA0000000 \<and> \<not> stack_mapped k1)"
proof -
  have "power_on im n (vm (start_hart im k))" "time_ok (start_hart im k)"
    using assms by (simp_all add: power_on_def time_ok_def start_fields)
  from main_stuck [OF this start_fields(1)] show ?thesis .
qed

theorem entry_stack_unmapped_witness: "main image_ex (start_hart image_ex cold_ex) = None"
proof -
  have "time_ok cold_ex" by (simp add: cold_ex_def kernel_ex_def time_ok_def)
  from entry_stack_unmapped [OF power_on_ex this] show ?thesis by blast
qed

end
