(* ===== verification/Spec2Isabelle.thy ===== *)
theory Spec2Isabelle
  imports Util_Props Buddy_Props Pt_Props Elfpars Kernel_Props Fault_Props Create_Props Mmap_Props Kill_Props Boot_Props
begin

text \<open>
  Jake is a small kernel for 64-bit RISC-V machines, written in C with some assembly
  (\<^verbatim>\<open>src/src/kernel\<close>). It runs user programs that are linked into its image: it manages physical
  memory with a buddy allocator, builds Sv48 page tables, loads programs on demand, answers
  system calls and page faults and switches between processes on a timer interrupt. This
  development models the kernel as functions on its state and proves the properties a user of
  each part relies on.

  \<^bold>\<open>The parts of the kernel and their theories.\<close>

  \<^item> \<open>Prelude\<close>: the machine types of \<^verbatim>\<open>types.h\<close> as words of their width, byte memory with
    little-endian loads and stores, the option monad, and shared lemmas on words.
  \<^item> \<open>Util\<close> (\<^verbatim>\<open>util.c\<close>): strings, \<open>memcpy\<close>, \<open>memset\<close>, number and format printing, \<open>ctz\<close>, \<open>rand\<close>. The
    serial line is the list of characters written. \<open>Util_List\<close>: the circular doubly linked lists;
    \<open>next\<close> and \<open>prev\<close> are maps from addresses, so that aliased nodes are explicit. \<open>Console\<close>: what
    printing appends. \<open>Util_Props\<close>: their properties.
  \<^item> \<open>Buddy\<close> (\<^verbatim>\<open>buddy.c\<close>, \<^verbatim>\<open>buddy.h\<close>): \<open>buddy_blocks\<close> and \<open>buddy_free_lists\<close> as a record of functions,
    a block being an index into the array, and every operation of the allocator. \<open>Buddy_Tiling\<close>,
    \<open>Buddy_Lists\<close>, \<open>Buddy_Inv\<close>: the invariant (blocks tile the memory, free lists are exact and
    no two free buddies remain) and its preservation. \<open>Buddy_Spec\<close>: the locale
    \<open>page_allocator\<close>, an allocator as a set of free pages and a map of allocated blocks, and its
    interpretation by the buddy operations. \<open>Buddy_Init\<close>: initialisation. \<open>Buddy_Migrate\<close>: moving the
    pointers to high addresses. \<open>Buddy_Props\<close>: the properties.
  \<^item> \<open>Pt_Entry\<close> (\<^verbatim>\<open>pt.h\<close>): page table entries, \<open>satp\<close> and page numbers as bit fields. \<open>Pt_Walk\<close>
    (\<^verbatim>\<open>pt.c\<close>): the record \<open>pt\<close> (physical memory, allocator, areas, registers) and the operations on
    tables. \<open>Pt_Map\<close>, \<open>Pt_Ops\<close>: tables as trees in memory, the invariant \<open>pt_inv\<close>, and what each
    operation does to the leaves. \<open>Sv48\<close>: the translation of the processor, defined from the
    privileged architecture and independent of the kernel's walk, and its agreement with the leaves.
  \<^item> \<open>Vma\<close> (\<^verbatim>\<open>pt.c\<close>): virtual memory areas, page placement, the kernel's own mappings. \<open>Vma_Map\<close>: mapping
    one page of an area; \<open>Vma_Room\<close>: when that succeeds. \<open>Vma_List\<close>: searching areas and allocating their structures. \<open>Pt_Props\<close>: the
    properties of page tables and areas.
  \<^item> \<open>Elfpars\<close> (\<^verbatim>\<open>elfpars.c\<close>): the ELF parser on a byte memory, with its properties.
  \<^item> \<open>Kernel_State\<close> (\<^verbatim>\<open>process.h\<close>): trap frames, processes, control registers and the state of the kernel;
    \<open>Process\<close> (\<^verbatim>\<open>process.c\<close>): the process table, creating and killing processes, the scheduler;
    \<open>Timer\<close> (\<^verbatim>\<open>timer.c\<close>, \<^verbatim>\<open>debug.c\<close>); \<open>Exception\<close> (\<^verbatim>\<open>exception.c\<close>, \<^verbatim>\<open>trap.S\<close>): machine calls, system
    calls, page faults, the timer interrupt and the supervisor trampoline;
    \<open>Boot\<close> (\<^verbatim>\<open>main.c\<close>, \<open>_entry\<close> of \<^verbatim>\<open>stack.S\<close>): the entry point, the boot sequence, the jump to high addresses and the
    printing of page tables. The C stack is not modelled, except that \<open>main\<close> checks that its top is mapped wherever the
    address space changes.
  \<^item> \<open>Traps\<close>: what the handlers keep, and that machine calls terminate. \<open>Scheduler\<close>: the search of
    \<open>proc_scheduler\<close> as a queue of processes. \<open>Handlers\<close>: the effect of every handler on the process
    table. \<open>Round_Robin\<close>: the locale of a round-robin scheduler, with bounded waiting. \<open>System\<close>: the
    machine as a step relation whose events are the traps of user programs, reachable states and
    their invariant, and the interpretation of \<open>round_robin\<close> by the kernel. \<open>Kernel_Props\<close>: the
    properties of scheduling.
  \<^item> \<open>Tables\<close>, \<open>Regions\<close>: which memory an address space depends on, and that writing or allocating elsewhere
    keeps its translation. They carry the proofs that span components:
    \<open>Faults\<close>, \<open>Text_Demand\<close>, \<open>Fault_Props\<close> (page faults and demand loading of programs), \<open>Areas\<close>
    (the list of areas of a process), \<open>Create\<close>, \<open>Create_Props\<close> (starting a process: the copied root table,
    the areas of text and stack, the first registers; the process table in reachable states),
    \<open>Mmap\<close>, \<open>Mmap_Props\<close> (where \<open>mmap\<close> places an area), \<open>Unmap\<close>, \<open>Kill\<close> and \<open>Kill_Props\<close> (the loops that unmap
    areas, and the end of a process), \<open>Identity\<close> (areas with \<open>VMA_IDENTITY\<close>: the loop that covers an area with pages
    of all sizes, and the number of tables it needs), \<open>Boot_Map\<close>, \<open>Boot_Init\<close>, \<open>Boot_Low\<close> (the kernel's address
    space in \<open>pt_init\<close>, its move to high addresses and the removal of the low areas), \<open>Boot_Main\<close> and
    \<open>Boot_Props\<close> (the whole of \<open>main\<close>).

  \<^bold>\<open>Conventions.\<close> A C function is a HOL function from its arguments and the state to its result and the new
  state. The result \<open>None\<close> is undefined behaviour (a null pointer, an index behind an array) or a
  loop that does not end; the theorems state that the result is \<open>Some\<close>. Error codes are the negative
  numbers of the code. A \<open>uintptr_t\<close> is a 64-bit word with wrap-around; \<open>int\<close> is a 32-bit word where its
  width matters. Loops are \<open>function\<close>s with a measure where they always end, otherwise
  \<open>partial_function (option)\<close>; there is no fuel. Functions that do not return (\<open>sret\<close>, power off, an
  endless loop) end with a value of the type \<open>ctl\<close>. Blocks are the \<open>NBLOCKS\<close> pages of the 32 MiB from
  address 0x80000000 that \<^verbatim>\<open>buddy.c\<close> manages. The machine calls assume \<open>time_ok\<close>: the timer counts
  less than \<open>2\<^sup>5\<^sup>6\<close> ticks, as \<open>increase_timer\<close> truncates to 56 bits.

  \<^bold>\<open>What the theorems show.\<close> The allocator hands out aligned blocks of free pages that overlap nothing in
  use, finds a block whenever one exists, and after any sequence of operations is coalesced and
  consistent. The kernel's walk of a page table is the processor's; mapping and unmapping change
  the translation of exactly the pages meant. \<open>main\<close> maps physical memory in the kernel's half and nothing
  else, and with its stack in the page reserved for it ends by entering the first process, in a state from which all
  other results follow; the stack pointer of \<^verbatim>\<open>stack.S\<close> is outside of the mapped memory, and with it \<open>main\<close> does not get
  past \<open>pt_init\<close>. The bound on free pages for booting (2302, and an image of at most 16 MiB) is generous: it counts a
  table for every 2 MiB of the device region, which is in fact mapped by pages of 1 GiB. A page fault in an area is answered with a fresh zero
  page, or with the bytes of the program in the text segment, if the place is unused and pages are free; all other
  faults stop the machine with memory as it was. A new
  process starts at its entry point in an address space with the kernel's mappings and no others, and
  \<open>mmap\<close> keeps the areas of a process disjoint as long as none is empty or has \<open>2\<^sup>3\<^sup>1\<close> pages or more and they fit below the
  stack. Ending a process with areas in the lower half terminates and leaves every address space with tables of its own alone. The
  scheduler is round robin: every waiting process runs after a bounded number of switches, with the
  registers it was interrupted with. The properties that name a defect (the stack at boot, a double free that is not
  detected, an endless loop of \<open>buddy_print_status\<close>, protection bits, error codes taken for sizes)
  state what the code does.

  \<^bold>\<open>Not modelled.\<close> Fences and TLB flushes have no effect in the model, as the processor's translation is
  computed from memory at every access. The machine-mode trampoline (its
  registers are saved and restored around \<open>mcall\<close>), the UART driver (\<^verbatim>\<open>ns16550a.S\<close>) and the embedding of
  programs (\<^verbatim>\<open>app.S\<close>) are assembly below the C code; the values they establish are fields of the state.
  The test drivers (\<^verbatim>\<open>src/src/test\<close>) and the user programs (\<^verbatim>\<open>src/asm\<close>) are clients of the kernel.
\<close>

end
